(* ===== verification/Prelude.thy ===== *)
theory Prelude
  imports Main "HOL-Library.Word"
begin

text \<open>
  Shared vocabulary of the development: the machine integers of the C sources
  (\<^verbatim>\<open>types.h\<close>), wait channels, the outcome type that every kernel operation
  returns, and the generic lemmas on words, lists and outcomes that the component
  theories use through the collections \<open>kres\<close> (outcome inversion) and
  \<open>walign\<close> (alignment arithmetic).
\<close>

unbundle bit_operations_syntax

named_theorems kres \<open>inversion rules for the outcomes of kernel operations\<close>
named_theorems walign \<open>alignment of machine words\<close>

section \<open>Machine integers\<close>

type_synonym u8 = "8 word"
type_synonym u16 = "16 word"
type_synonym u32 = "32 word"

text \<open>Reading a word as a C \<^verbatim>\<open>int\<close> is \<open>sint\<close>; storing a C \<^verbatim>\<open>int\<close> is \<open>word_of_int\<close>.\<close>

section \<open>Wait channels and spin locks\<close>

text \<open>
  \<^verbatim>\<open>sleep\<close> and \<^verbatim>\<open>wakeup\<close> compare channels (addresses of kernel objects) for equality only, so
  a channel is named by the object whose address it is. \<open>ChNull\<close> is the null pointer.
\<close>

datatype chan =
    ChNull
  | ChTicks            \<comment> \<open>\<^verbatim>\<open>&ticks\<close>\<close>
  | ChProc nat         \<comment> \<open>\<^verbatim>\<open>&ptable.proc[i]\<close>\<close>
  | ChLog              \<comment> \<open>\<^verbatim>\<open>&log\<close>\<close>
  | ChBuf nat          \<comment> \<open>\<^verbatim>\<open>&bcache.buf[i]\<close>\<close>
  | ChBufLock nat      \<comment> \<open>\<^verbatim>\<open>&bcache.buf[i].lock\<close>\<close>
  | ChInodeLock nat    \<comment> \<open>\<^verbatim>\<open>&icache.inode[i].lock\<close>\<close>
  | ChPipeRead nat     \<comment> \<open>\<^verbatim>\<open>&p->nread\<close>\<close>
  | ChPipeWrite nat    \<comment> \<open>\<^verbatim>\<open>&p->nwrite\<close>\<close>
  | ChInput            \<comment> \<open>\<^verbatim>\<open>&input.r\<close>\<close>

text \<open>The spin locks of the kernel, each named by the structure that contains it.\<close>

datatype lock =
    LPtable | LKmem | LMtable | LTicks | LFtable | LIcache | LBcache | LLog | LIde | LCons | LLru
  | LPipe nat | LSleepBuf nat | LSleepInode nat

section \<open>Outcomes\<close>

text \<open>
  A kernel operation either returns a value and the new state, suspends the calling thread on a
  channel (with the state at that moment), stops the machine with \<^verbatim>\<open>panic(msg)\<close>, or runs into
  undefined behaviour of C such as a null dereference (\<open>Fault\<close>, with a description).
\<close>

datatype ('a, 's) res =
    Ret 'a 's
  | Sleep chan 's
  | Panic string
  | Fault string

text \<open>Sequential composition: everything but \<open>Ret\<close> ends the computation.\<close>

fun kbind :: "('a, 's) res \<Rightarrow> ('a \<Rightarrow> 's \<Rightarrow> ('b, 's) res) \<Rightarrow> ('b, 's) res" where
  "kbind (Ret a s) f = f a s"
| "kbind (Sleep c s) f = Sleep c s"
| "kbind (Panic m) f = Panic m"
| "kbind (Fault m) f = Fault m"

lemma kbind_Ret_iff [kres]:
  "kbind m f = Ret b t \<longleftrightarrow> (\<exists>a s. m = Ret a s \<and> f a s = Ret b t)"
  by (cases m) auto

lemma kbind_assoc: "kbind (kbind m f) g = kbind m (\<lambda>a s. kbind (f a s) g)"
  by (cases m) auto

lemma kbind_Ret_right [simp]: "kbind m Ret = m"
  by (cases m) auto

lemma kbind_cong [fundef_cong]:
  "m = m' \<Longrightarrow> (\<And>a s. m' = Ret a s \<Longrightarrow> f a s = f' a s) \<Longrightarrow> kbind m f = kbind m' f'"
  by (cases m') auto

text \<open>
  \<open>rets P r\<close>: the outcome is a return and its value and state satisfy \<open>P\<close>. It is the total
  correctness reading of an operation: no panic, no fault, no suspension.
\<close>

fun rets :: "('a \<Rightarrow> 's \<Rightarrow> bool) \<Rightarrow> ('a, 's) res \<Rightarrow> bool" where
  "rets P (Ret a s) = P a s"
| "rets P _ = False"

lemma retsE [elim?]: "rets P r \<Longrightarrow> (\<And>a s. r = Ret a s \<Longrightarrow> P a s \<Longrightarrow> thesis) \<Longrightarrow> thesis"
  by (cases r) auto

lemma rets_mono: "rets P r \<Longrightarrow> (\<And>a s. P a s \<Longrightarrow> Q a s) \<Longrightarrow> rets Q r"
  by (cases r) auto

lemma rets_kbind: "rets (\<lambda>a s. rets Q (f a s)) m \<Longrightarrow> rets Q (kbind m f)"
  by (cases m) auto

lemma rets_iff [kres]: "rets P r \<longleftrightarrow> (\<exists>a s. r = Ret a s \<and> P a s)"
  by (cases r) auto

text \<open>
  \<open>post P r\<close>: whenever the operation returns or suspends, the state satisfies \<open>P\<close>. It is the reading used for
  invariants, which have to hold at every switch of threads but say nothing about a machine that has stopped.
\<close>

fun post :: "('s \<Rightarrow> bool) \<Rightarrow> ('a, 's) res \<Rightarrow> bool" where
  "post P (Ret a s) = P s"
| "post P (Sleep c s) = P s"
| "post P (Panic m) = True"
| "post P (Fault m) = True"

lemma post_kbind: "post P m \<Longrightarrow> (\<And>a s. P s \<Longrightarrow> post P (f a s)) \<Longrightarrow> post P (kbind m f)"
  by (cases m) auto

lemma post_mono: "post P r \<Longrightarrow> (\<And>s. P s \<Longrightarrow> Q s) \<Longrightarrow> post Q r"
  by (cases r) auto

lemma postD: "post P r \<Longrightarrow> r = Ret a s \<or> r = Sleep c s \<Longrightarrow> P s"
  by auto

section \<open>Words\<close>

lemma unat_add_no_wrap:
  fixes a b :: "'a::len word"
  shows "unat a + unat b < 2 ^ LENGTH('a) \<Longrightarrow> unat (a + b) = unat a + unat b"
  by (simp add: unat_word_ariths)

lemma unat_sub_le:
  fixes a b :: "'a::len word"
  shows "b \<le> a \<Longrightarrow> unat (a - b) = unat a - unat b"
  by (simp add: unat_sub)

lemma word_eq_of_nat_unat: "unat (x :: 'a::len word) = n \<Longrightarrow> x = of_nat n"
  by auto

lemma unat_of_nat32: "n < 2 ^ 32 \<Longrightarrow> unat (of_nat n :: u32) = n"
  by (simp add: unat_of_nat take_bit_nat_eq_self)

lemma unat_add_nat:
  fixes a :: u32
  assumes "unat a + n < 2 ^ 32"
  shows "unat (a + of_nat n) = unat a + n"
proof -
  have n: "unat (of_nat n :: u32) = n" using assms by (intro unat_of_nat32) simp
  show ?thesis using assms by (subst unat_add_no_wrap) (simp_all add: n)
qed

lemma unat_lt32 [simp]: "unat (x :: u32) < 4294967296"
  using unsigned_less [of x] by simp

text \<open>The distance from \<open>b\<close> up to \<open>a\<close>, modulo the word size, identifies \<open>a\<close>.\<close>

lemma word_diff_unat_eq:
  fixes a b :: u32
  assumes "n < 2 ^ 32"
  shows "unat (a - b) = n \<longleftrightarrow> a = b + of_nat n"
proof
  assume "unat (a - b) = n"
  then have "a - b = of_nat n" by auto
  then show "a = b + of_nat n" by (simp add: algebra_simps)
qed (use assms in \<open>simp add: unat_of_nat32\<close>)

text \<open>Two multiples of \<open>k\<close> that differ are at least \<open>k\<close> apart.\<close>

lemma multiple_gap:
  fixes k y b :: nat
  assumes "y mod k = 0" "b mod k = 0" "y < b"
  shows "y + k \<le> b"
proof -
  obtain i j where "y = k * i" "b = k * j" using assms by (metis mod_0_imp_dvd dvdE)
  with assms(3) have "i < j" by simp
  then have "k * Suc i \<le> k * j" by (intro mult_le_mono) auto
  with \<open>y = k * i\<close> \<open>b = k * j\<close> show ?thesis by simp
qed

section \<open>Lists\<close>

text \<open>The index of the first element with a property, as the C loops over tables compute it.\<close>

fun find_index :: "('a \<Rightarrow> bool) \<Rightarrow> 'a list \<Rightarrow> nat option" where
  "find_index P [] = None"
| "find_index P (x # xs) = (if P x then Some 0 else map_option Suc (find_index P xs))"

lemma find_index_None [simp]: "find_index P xs = None \<longleftrightarrow> (\<forall>x\<in>set xs. \<not> P x)"
  by (induction xs) auto

lemma find_index_Some:
  "find_index P xs = Some i \<longleftrightarrow> i < length xs \<and> P (xs ! i) \<and> (\<forall>j<i. \<not> P (xs ! j))"
proof (induction xs arbitrary: i)
  case Nil
  then show ?case by simp
next
  case (Cons x xs)
  then show ?case
    by (cases i) (auto simp: less_Suc_eq_0_disj)
qed

lemma find_index_SomeD:
  assumes "find_index P xs = Some i"
  shows "i < length xs" "P (xs ! i)" "\<And>j. j < i \<Longrightarrow> \<not> P (xs ! j)"
  using assms by (auto simp: find_index_Some)

lemma sint_small:
  fixes x :: u32
  assumes "unat x < 2147483648"
  shows "sint x = int (unat x)"
proof -
  have "- 2147483648 \<le> int (unat x)" by linarith
  then have "signed_take_bit 31 (int (unat x)) = int (unat x)"
    using assms by (intro signed_take_bit_int_eq_self) (simp_all del: uint_nat of_nat_unat)
  then show ?thesis unfolding sint_uint uint_nat by simp
qed

end
