(* ===== verification/Memory.thy ===== *)
theory Memory
  imports Prelude
begin

text \<open>
  Byte-addressed memory and the C library routines of \<^verbatim>\<open>string.c\<close> that the kernel runs on it.
  Pointers are 32-bit words, memory is a function from addresses to bytes, and pointer
  arithmetic wraps. The loops of \<^verbatim>\<open>string.c\<close> are recursions on the remaining count. The lemmas give
  each routine a closed form: \<^verbatim>\<open>memset\<close> and \<^verbatim>\<open>memmove\<close> as functions of the address
  (\<open>memset_apply\<close>, \<open>memmove_at\<close>), the comparison and copy routines by what they do to the
  strings at their arguments.
\<close>

type_synonym mem = "u32 \<Rightarrow> u8"

section \<open>Little-endian 32-bit accesses\<close>

text \<open>A C \<^verbatim>\<open>uint\<close> in memory, as the x86 stores it.\<close>

definition load32 :: "mem \<Rightarrow> u32 \<Rightarrow> u32" where
  "load32 m a = ucast (m a) OR push_bit 8 (ucast (m (a + 1)))
     OR push_bit 16 (ucast (m (a + 2))) OR push_bit 24 (ucast (m (a + 3)))"

definition store32 :: "mem \<Rightarrow> u32 \<Rightarrow> u32 \<Rightarrow> mem" where
  "store32 m a v = m(a := ucast v, a + 1 := ucast (drop_bit 8 v),
     a + 2 := ucast (drop_bit 16 v), a + 3 := ucast (drop_bit 24 v))"

text \<open>\<open>a\<close> is 4-byte aligned.\<close>

definition aligned4 :: "u32 \<Rightarrow> bool" where
  "aligned4 a \<longleftrightarrow> a AND 3 = 0"

section \<open>string.c\<close>

text \<open>\<^verbatim>\<open>rep stosb\<close> and \<^verbatim>\<open>rep stosl\<close> (\<^verbatim>\<open>x86.h\<close>).\<close>

primrec stosb :: "mem \<Rightarrow> u32 \<Rightarrow> u8 \<Rightarrow> nat \<Rightarrow> mem" where
  "stosb m a c 0 = m"
| "stosb m a c (Suc n) = stosb (m(a := c)) (a + 1) c n"

primrec stosl :: "mem \<Rightarrow> u32 \<Rightarrow> u32 \<Rightarrow> nat \<Rightarrow> mem" where
  "stosl m a v 0 = m"
| "stosl m a v (Suc n) = stosl (store32 m a v) (a + 4) v n"

definition memset :: "mem \<Rightarrow> u32 \<Rightarrow> u32 \<Rightarrow> nat \<Rightarrow> mem" where
  "memset m dst c n =
     (if dst AND 3 = 0 \<and> n mod 4 = 0
      then let c' = c AND 0xFF
           in stosl m dst (push_bit 24 c' OR push_bit 16 c' OR push_bit 8 c' OR c') (n div 4)
      else stosb m dst (ucast c) n)"

primrec memcmp :: "mem \<Rightarrow> u32 \<Rightarrow> u32 \<Rightarrow> nat \<Rightarrow> int" where
  "memcmp m s1 s2 0 = 0"
| "memcmp m s1 s2 (Suc n) =
     (if m s1 \<noteq> m s2 then uint (m s1) - uint (m s2) else memcmp m (s1 + 1) (s2 + 1) n)"

text \<open>The two copy loops of \<^verbatim>\<open>memmove\<close>: downwards and upwards.\<close>

primrec move_down :: "mem \<Rightarrow> u32 \<Rightarrow> u32 \<Rightarrow> nat \<Rightarrow> mem" where
  "move_down m d s 0 = m"
| "move_down m d s (Suc n) = move_down (m(d - 1 := m (s - 1))) (d - 1) (s - 1) n"

primrec move_up :: "mem \<Rightarrow> u32 \<Rightarrow> u32 \<Rightarrow> nat \<Rightarrow> mem" where
  "move_up m d s 0 = m"
| "move_up m d s (Suc n) = move_up (m(d := m s)) (d + 1) (s + 1) n"

definition memmove :: "mem \<Rightarrow> u32 \<Rightarrow> u32 \<Rightarrow> nat \<Rightarrow> mem" where
  "memmove m dst src n =
     (if src < dst \<and> src + of_nat n > dst
      then move_down m (dst + of_nat n) (src + of_nat n) n
      else move_up m dst src n)"

definition memcpy :: "mem \<Rightarrow> u32 \<Rightarrow> u32 \<Rightarrow> nat \<Rightarrow> mem" where
  "memcpy m dst src n = memmove m dst src n"

primrec strncmp :: "mem \<Rightarrow> u32 \<Rightarrow> u32 \<Rightarrow> nat \<Rightarrow> int" where
  "strncmp m p q 0 = 0"
| "strncmp m p q (Suc n) =
     (if m p \<noteq> 0 \<and> m p = m q then strncmp m (p + 1) (q + 1) n
      else uint (m p) - uint (m q))"

text \<open>
  The count of \<^verbatim>\<open>strncpy\<close> and \<^verbatim>\<open>safestrcpy\<close> is a C \<^verbatim>\<open>int\<close>; a negative count copies nothing, as 0
  does, so the loops take the count as a natural number.
\<close>

primrec strncpy :: "mem \<Rightarrow> u32 \<Rightarrow> u32 \<Rightarrow> nat \<Rightarrow> mem" where
  "strncpy m s t 0 = m"
| "strncpy m s t (Suc n) =
     (let m' = m(s := m t)
      in if m t \<noteq> 0 then strncpy m' (s + 1) (t + 1) n else stosb m' (s + 1) 0 n)"

primrec safestrcpy_loop :: "mem \<Rightarrow> u32 \<Rightarrow> u32 \<Rightarrow> nat \<Rightarrow> mem" where
  "safestrcpy_loop m s t 0 = m(s := 0)"
| "safestrcpy_loop m s t (Suc n) =
     (let m' = m(s := m t)
      in if m t \<noteq> 0 then safestrcpy_loop m' (s + 1) (t + 1) n else m'(s + 1 := 0))"

definition safestrcpy :: "mem \<Rightarrow> u32 \<Rightarrow> u32 \<Rightarrow> int \<Rightarrow> mem" where
  "safestrcpy m s t n = (if n \<le> 0 then m else safestrcpy_loop m s t (nat (n - 1)))"

text \<open>
  \<^verbatim>\<open>strlen\<close> searches the whole address space at most once: after \<open>2^32\<close> bytes it is back at its
  start, so \<open>None\<close> (fuel exhausted) is exactly the case of a memory without a NUL byte.
\<close>

fun strlen_loop :: "nat \<Rightarrow> mem \<Rightarrow> u32 \<Rightarrow> nat \<Rightarrow> nat option" where
  "strlen_loop 0 m s n = None"
| "strlen_loop (Suc fuel) m s n =
     (if m (s + of_nat n) = 0 then Some n else strlen_loop fuel m s (Suc n))"

definition strlen :: "mem \<Rightarrow> u32 \<Rightarrow> nat option" where
  "strlen m s = strlen_loop (2 ^ 32) m s 0"

text \<open>The bytes \<open>xs\<close> stored from the address \<open>a\<close> on.\<close>

definition store_bytes :: "mem \<Rightarrow> u32 \<Rightarrow> u8 list \<Rightarrow> mem" where
  "store_bytes m a xs = (\<lambda>b. if unat (b - a) < length xs then xs ! unat (b - a) else m b)"

section \<open>Laws of 32-bit accesses\<close>

lemma bit_byte_ge8 [simp]: "8 \<le> n \<Longrightarrow> \<not> bit (b :: u8) n"
  using bit_imp_le_length [of b n] by auto

lemma load_store_same [simp]: "load32 (store32 m a v) a = v"
proof (rule bit_word_eqI)
  fix n assume "n < LENGTH(32)"
  then show "bit (load32 (store32 m a v) a) n = bit v n"
    by (cases "24 \<le> n"; cases "16 \<le> n") (auto simp: load32_def store32_def bit_simps not_less)
qed

lemma aligned4_unat: "aligned4 a \<longleftrightarrow> unat a mod 4 = 0"
proof -
  have "a AND 3 = take_bit 2 a" by (simp add: take_bit_eq_mask mask_eq_exp_minus_1)
  then have "unat (a AND 3) = unat a mod 4" by (simp add: take_bit_eq_mod unat_mod_distrib)
  then show ?thesis by (simp add: aligned4_def flip: unat_eq_0)
qed

lemma unat_aligned4_add:
  assumes "aligned4 a" "k < 4"
  shows "unat (a + of_nat k) = unat a + k"
proof -
  have "unat a < 2 ^ 32" using unsigned_less [of a] by simp
  moreover have "unat a mod 4 = 0" using assms by (simp add: aligned4_unat)
  moreover have "x mod 4 = 0 \<Longrightarrow> x < 4294967296 \<Longrightarrow> x + 4 \<le> 4294967296" for x :: nat
    by presburger
  ultimately have "unat a + 4 \<le> 2 ^ 32" by simp
  with assms(2) have "unat a + k < 2 ^ 32" by simp
  then show ?thesis using assms(2) by (simp add: unat_word_ariths unat_of_nat)
qed

lemma aligned4_bytes_disjoint:
  assumes "aligned4 a" "aligned4 b" "a \<noteq> b" "i < 4" "j < 4"
  shows "a + of_nat i \<noteq> b + of_nat j"
proof
  assume "a + of_nat i = b + of_nat j"
  then have "unat a + i = unat b + j" using assms by (metis unat_aligned4_add)
  then have "unat a = unat b" using assms by (simp add: aligned4_unat) presburger
  with assms(3) show False by (simp add: word_unat_eq_iff)
qed

lemma load_store_other:
  assumes "aligned4 a" "aligned4 b" "a \<noteq> b"
  shows "load32 (store32 m a v) b = load32 m b"
proof -
  have *: "b + of_nat j \<noteq> a + of_nat i" if "i < 4" "j < 4" for i j
    using aligned4_bytes_disjoint [OF assms(1,2,3) that] by metis
  have "b \<noteq> a" "b \<noteq> a + 1" "b \<noteq> a + 2" "b \<noteq> a + 3"
    "b + 1 \<noteq> a" "b + 1 \<noteq> a + 2" "b + 1 \<noteq> a + 3"
    "b + 2 \<noteq> a" "b + 2 \<noteq> a + 1" "b + 2 \<noteq> a + 3"
    "b + 3 \<noteq> a" "b + 3 \<noteq> a + 1" "b + 3 \<noteq> a + 2"
    using * [of 0 0] * [of 1 0] * [of 2 0] * [of 3 0] * [of 0 1] * [of 2 1] * [of 3 1]
      * [of 0 2] * [of 1 2] * [of 3 2] * [of 0 3] * [of 1 3] * [of 2 3] by simp_all
  then show ?thesis using assms(3)
    by (simp add: load32_def store32_def)
qed

text \<open>The offset of an address in a copied range, one step further in.\<close>

lemma offset_Suc:
  fixes x a :: u32
  shows "unat (x - a) < Suc n \<longleftrightarrow> x = a \<or> (x \<noteq> a \<and> unat (x - (a + 1)) < n)"
proof (cases "x = a")
  case False
  then have "unat (x - a) \<noteq> 0" by (simp add: unat_eq_0)
  then have "unat (x - (a + 1)) = unat (x - a) - 1"
    by (metis diff_diff_add unat_minus_one unat_eq_0)
  with \<open>unat (x - a) \<noteq> 0\<close> show ?thesis using False by auto
qed simp

lemma offset_back: "n \<le> 2 ^ 32 - 1 \<Longrightarrow> \<not> unat (a - (a + 1) :: u32) < n"
  by (simp add: unsigned_minus_1_eq_mask mask_eq_exp_minus_1)

section \<open>memset\<close>

lemma stosb_apply:
  "n \<le> 2 ^ 32 \<Longrightarrow> stosb m a c n x = (if unat (x - a) < n then c else m x)"
proof (induction n arbitrary: m a)
  case (Suc n)
  then show ?case
    using offset_back [of n a] by (cases "x = a") (auto simp: offset_Suc [of x a])
qed simp

lemma stosb_add: "stosb m a c (k + n) = stosb (stosb m a c k) (a + of_nat k) c n"
  by (induction k arbitrary: m a) (simp_all add: add.assoc)

lemma stosl_stosb:
  assumes "ucast v = c" "ucast (drop_bit 8 v) = c" "ucast (drop_bit 16 v) = c" "ucast (drop_bit 24 v) = c"
  shows "stosl m a v n = stosb m a c (4 * n)"
proof (induction n arbitrary: m a)
  case 0
  then show ?case by simp
next
  case (Suc n)
  have "store32 m a v = stosb m a c (Suc (Suc (Suc (Suc 0))))"
    by (simp add: store32_def assms add.assoc)
  then have "store32 m a v = stosb m a c 4" by (simp add: numeral_eq_Suc)
  then show ?case using stosb_add [of m a c 4 "4 * n"] Suc by simp
qed

lemma memset_apply:
  assumes "n \<le> 2 ^ 32"
  shows "memset m dst c n x = (if unat (x - dst) < n then ucast c else m x)"
proof (cases "dst AND 3 = 0 \<and> n mod 4 = 0")
  case True
  have low: "c AND 0xFF = take_bit 8 c" by (simp add: take_bit_eq_mask mask_eq_exp_minus_1)
  let ?v = "push_bit 24 (c AND 0xFF) OR push_bit 16 (c AND 0xFF) OR push_bit 8 (c AND 0xFF) OR (c AND 0xFF)"
  have "ucast ?v = (ucast c :: u8)" "ucast (drop_bit 8 ?v) = (ucast c :: u8)"
    "ucast (drop_bit 16 ?v) = (ucast c :: u8)" "ucast (drop_bit 24 ?v) = (ucast c :: u8)"
    unfolding low by (rule bit_word_eqI; auto simp: bit_simps)+
  then have "memset m dst c n = stosb m dst (ucast c) (4 * (n div 4))"
    using True by (simp add: memset_def Let_def stosl_stosb)
  moreover have "4 * (n div 4) = n" using True by auto
  ultimately show ?thesis using assms by (simp add: stosb_apply)
qed (use assms in \<open>auto simp: memset_def stosb_apply\<close>)

section \<open>memmove\<close>

lemma move_up_apply:
  assumes "n \<le> 2 ^ 32"
    and "\<And>i j. i < j \<Longrightarrow> j < n \<Longrightarrow> d + of_nat i \<noteq> s + of_nat j"
  shows "move_up m d s n x = (if unat (x - d) < n then m (s + (x - d)) else m x)"
  using assms
proof (induction n arbitrary: m d s)
  case 0
  then show ?case by simp
next
  case (Suc n)
  have src: "d \<noteq> s + 1 + k" if "unat k < n" for k
    using Suc.prems(2) [of 0 "Suc (unat k)"] that by (simp add: add.assoc)
  have "d + 1 + of_nat i \<noteq> s + 1 + of_nat j" if "i < j" "j < n" for i j
    using Suc.prems(2) [of "Suc i" "Suc j"] that by (simp add: algebra_simps)
  then have IH: "move_up (m(d := m s)) (d + 1) (s + 1) n x =
      (if unat (x - (d + 1)) < n then (m(d := m s)) (s + 1 + (x - (d + 1))) else (m(d := m s)) x)"
    using Suc by (intro Suc.IH) auto
  show ?case
  proof (cases "x = d")
    case True
    then show ?thesis using IH offset_back [of n d] Suc.prems(1) by simp
  next
    case False
    with IH src [of "x - (d + 1)"] show ?thesis
      by (auto simp: offset_Suc [of x d])
  qed
qed

text \<open>The downward loop is the upward loop in the reflected address space.\<close>

lemma move_down_reflect:
  "move_down m d s n x = move_up (\<lambda>a. m (- a - 1)) (- d) (- s) n (- x - 1)"
proof (induction n arbitrary: m d s)
  case 0
  then show ?case by simp
next
  case (Suc n)
  have "(\<lambda>a. (m(d - 1 := m (s - 1))) (- a - 1)) = (\<lambda>a. m (- a - 1))(- d := m (s - 1))"
    by (rule ext) (auto simp: algebra_simps)
  with Suc show ?case by simp
qed

lemma reflected_offset:
  fixes y :: u32
  assumes "n < 2 ^ 32"
  shows "unat (of_nat n - 1 - y) < n \<longleftrightarrow> unat y < n"
proof (cases "unat y < n")
  case True
  then have "y \<le> of_nat n - 1"
    using assms by (simp add: word_le_nat_alt unat_minus_one unat_of_nat32 flip: unat_eq_0)
  then show ?thesis using True assms
    by (simp add: unat_sub unat_minus_one unat_of_nat32 flip: unat_eq_0)
next
  case False
  show ?thesis
  proof (cases "n = 0")
    case False
    with \<open>\<not> unat y < n\<close> have "of_nat n - 1 < y"
      using assms by (simp add: word_less_nat_alt unat_minus_one unat_of_nat32 flip: unat_eq_0)
    then have "unat (of_nat n - 1 - y) = 4294967296 + (n - 1) - unat y"
      using assms False \<open>\<not> unat y < n\<close>
      by (simp add: unat_sub_if' unat_minus_one unat_of_nat32 flip: unat_eq_0)
    moreover have "unat y < 4294967296" by (rule unat_lt32)
    ultimately show ?thesis using \<open>\<not> unat y < n\<close> False by linarith
  qed simp
qed

lemma move_down_apply:
  assumes "n < 2 ^ 32"
    and "\<And>i j. i < j \<Longrightarrow> j < n \<Longrightarrow> d - of_nat i \<noteq> s - of_nat j"
  shows "move_down m d s n x =
     (if unat (x - (d - of_nat n)) < n then m (s + (x - d)) else m x)"
proof -
  have "- d + of_nat i \<noteq> - s + of_nat j" if "i < j" "j < n" for i j
  proof
    assume "- d + of_nat i = - s + of_nat j"
    then have "- (- d + of_nat i) = - (- s + of_nat j)" by (rule arg_cong)
    with assms(2) [OF that] show False by simp
  qed
  then have "move_down m d s n x = (if unat (- x - 1 - - d) < n
      then m (- (- s + (- x - 1 - - d)) - 1) else m (- (- x - 1) - 1))"
    using assms(1) unfolding move_down_reflect by (intro move_up_apply) auto
  moreover have "- x - 1 - - d = of_nat n - 1 - (x - (d - of_nat n))"
    "- (- s + (- x - 1 - - d)) - 1 = s + (x - d)"
    by simp_all
  ultimately show ?thesis
    using reflected_offset [OF assms(1), of "x - (d - of_nat n)"]
    by (simp only: minus_minus diff_minus_eq_add) simp
qed

lemma no_wrap_neq:
  fixes a b :: u32
  assumes "unat a + i < 2 ^ 32" "unat b + j < 2 ^ 32" "unat a + i \<noteq> unat b + j"
  shows "a + of_nat i \<noteq> b + of_nat j"
proof -
  have "i < 2 ^ 32" "j < 2 ^ 32" using assms(1,2) by simp_all
  then have "unat (a + of_nat i) = unat a + i" "unat (b + of_nat j) = unat b + j"
    using assms(1,2) by (simp_all add: unat_word_ariths unat_of_nat)
  with assms(3) show ?thesis by auto
qed

lemma memmove_at:
  assumes "unat src + n < 2 ^ 32" "unat dst + n < 2 ^ 32"
  shows "memmove m dst src n x = (if unat (x - dst) < n then m (src + (x - dst)) else m x)"
proof -
  have n: "n < 2 ^ 32" using assms by simp
  have end_src: "unat (src + of_nat n) = unat src + n"
    using assms(1) n by (simp add: unat_word_ariths unat_of_nat)
  show ?thesis
  proof (cases "src < dst \<and> src + of_nat n > dst")
    case True
    then have lt: "unat src < unat dst" by (simp add: word_less_nat_alt)
    have "dst + of_nat n - of_nat i \<noteq> src + of_nat n - of_nat j" if "i < j" "j < n" for i j
    proof -
      have "dst + of_nat (n - i) \<noteq> src + of_nat (n - j)"
        by (rule no_wrap_neq) (use assms lt that in auto)
      with that show ?thesis by (simp add: of_nat_diff algebra_simps)
    qed
    then have "move_down m (dst + of_nat n) (src + of_nat n) n x =
       (if unat (x - dst) < n then m (src + (x - dst)) else m x)"
      using move_down_apply [OF n] by (simp add: algebra_simps)
    with True show ?thesis by (simp add: memmove_def)
  next
    case False
    then have ord: "unat dst \<le> unat src \<or> unat src + n \<le> unat dst"
      using end_src by (auto simp: word_less_nat_alt)
    have "dst + of_nat i \<noteq> src + of_nat j" if "i < j" "j < n" for i j
      by (rule no_wrap_neq) (use assms ord that in auto)
    then have "move_up m dst src n x = (if unat (x - dst) < n then m (src + (x - dst)) else m x)"
      using n by (intro move_up_apply) auto
    with False show ?thesis by (auto simp: memmove_def)
  qed
qed

section \<open>Strings\<close>

text \<open>Strings: the bytes from \<open>p\<close> up to and including the first NUL, at most \<open>n\<close> of them.\<close>

primrec cstr :: "mem \<Rightarrow> u32 \<Rightarrow> nat \<Rightarrow> u8 list" where
  "cstr m p 0 = []"
| "cstr m p (Suc n) = (if m p = 0 then [] else m p # cstr m (p + 1) n)"

lemma strncmp_eq_0: "strncmp m p q n = 0 \<longleftrightarrow> cstr m p n = cstr m q n"
  by (induction n arbitrary: p q) (auto simp: word_uint_eq_iff)

lemma stosb_outside: "n < 2 ^ 32 \<Longrightarrow> \<not> unat (x - a) < n \<Longrightarrow> stosb m a c n x = m x"
  by (simp add: stosb_apply)

lemma strncpy_frame: "n \<le> 2 ^ 32 \<Longrightarrow> \<not> unat (x - s) < n \<Longrightarrow> strncpy m s t n x = m x"
proof (induction n arbitrary: m s t)
  case (Suc n)
  then have "x \<noteq> s" "\<not> unat (x - (s + 1)) < n" by (auto simp: offset_Suc [of x s])
  with Suc show ?case by (simp add: Let_def stosb_apply)
qed simp

lemma safestrcpy_loop_frame:
  "n < 2 ^ 32 - 1 \<Longrightarrow> \<not> unat (x - s) < Suc n \<Longrightarrow> safestrcpy_loop m s t n x = m x"
proof (induction n arbitrary: m s t)
  case (Suc n)
  then have "x \<noteq> s" "\<not> unat (x - (s + 1)) < Suc n" by (auto simp: offset_Suc [of x s])
  moreover then have "x \<noteq> s + 1" by auto
  ultimately show ?case using Suc by (simp add: Let_def)
qed auto

lemma strlen_loop_Some:
  "strlen_loop fuel m s n = Some k \<longleftrightarrow>
     n \<le> k \<and> k < n + fuel \<and> m (s + of_nat k) = 0 \<and> (\<forall>j. n \<le> j \<and> j < k \<longrightarrow> m (s + of_nat j) \<noteq> 0)"
proof (induction fuel arbitrary: n)
  case (Suc fuel)
  show ?case
    by (cases "m (s + of_nat n) = 0")
      (auto simp: Suc le_Suc_eq less_Suc_eq Suc_le_eq intro: le_neq_implies_less)
qed auto

lemma strlen_Some:
  assumes "m (s + of_nat k) = 0" "k < 2 ^ 32" "\<And>j. j < k \<Longrightarrow> m (s + of_nat j) \<noteq> 0"
  shows "strlen m s = Some k"
  using assms by (simp add: strlen_def strlen_loop_Some)

lemma cstr_cong: "(\<And>j. j < n \<Longrightarrow> m (p + of_nat j) = m' (p + of_nat j)) \<Longrightarrow> cstr m p n = cstr m' p n"
proof (induction n arbitrary: p)
  case (Suc n)
  have "m p = m' p" using Suc.prems [of 0] by simp
  moreover have "cstr m (p + 1) n = cstr m' (p + 1) n"
    using Suc.prems [of "Suc _"] by (intro Suc.IH) (simp add: add.assoc)
  ultimately show ?case by simp
qed simp

lemma safestrcpy_loop_cstr:
  assumes "k < 2 ^ 32 - 1" "\<And>i j. i < Suc k \<Longrightarrow> j < k \<Longrightarrow> s + of_nat i \<noteq> t + of_nat j"
  shows "cstr (safestrcpy_loop m s t k) s (Suc k) = cstr m t k"
  using assms
proof (induction k arbitrary: m s t)
  case (Suc k)
  let ?m = "m(s := m t)"
  have "s + 1 + of_nat i \<noteq> t + 1 + of_nat j" if "i < Suc k" "j < k" for i j
    using Suc.prems(2) [of "Suc i" "Suc j"] that by (simp add: add.assoc)
  then have IH: "cstr (safestrcpy_loop ?m (s + 1) (t + 1) k) (s + 1) (Suc k) = cstr ?m (t + 1) k"
    using Suc.prems(1) by (intro Suc.IH) auto
  have src: "cstr ?m (t + 1) k = cstr m (t + 1) k"
    using Suc.prems(2) [of 0 "Suc _"] by (intro cstr_cong) (auto simp: add.assoc)
  have "safestrcpy_loop ?m (s + 1) (t + 1) k s = m t"
    using Suc.prems(1) offset_back [of "Suc k" s] by (simp add: safestrcpy_loop_frame)
  with IH src show ?case by (simp add: Let_def)
qed simp

text \<open>
  \<^verbatim>\<open>safestrcpy(s, t, n)\<close> always NUL-terminates: for disjoint buffers the string left at \<open>s\<close> is
  the string at \<open>t\<close> cut to \<open>n - 1\<close> bytes, and no byte outside the \<open>n\<close> bytes of \<open>s\<close> changes.
\<close>

lemma safestrcpy_spec:
  assumes "0 < n" "n < 2 ^ 32"
    and "\<And>i j. i < n \<Longrightarrow> j < n \<Longrightarrow> s + of_nat i \<noteq> t + of_nat j"
  shows "cstr (safestrcpy m s t (int n)) s n = cstr m t (n - 1)
     \<and> (\<forall>x. \<not> unat (x - s) < n \<longrightarrow> safestrcpy m s t (int n) x = m x)"
proof -
  have eq: "safestrcpy m s t (int n) = safestrcpy_loop m s t (n - 1)"
    using assms(1) by (simp add: safestrcpy_def nat_diff_distrib')
  have "cstr (safestrcpy_loop m s t (n - 1)) s (Suc (n - 1)) = cstr m t (n - 1)"
    using assms by (intro safestrcpy_loop_cstr) auto
  moreover have "safestrcpy_loop m s t (n - 1) x = m x" if "\<not> unat (x - s) < n" for x
    using assms(1,2) that by (intro safestrcpy_loop_frame) auto
  ultimately show ?thesis using assms(1) by (simp add: eq)
qed

text \<open>
  \<^verbatim>\<open>strncmp\<close> returns 0 exactly when the two strings, cut at the first NUL or at \<open>n\<close> bytes, are
  equal; otherwise it returns the difference of the first bytes that differ.
\<close>

lemma strncmp_eq_iff:
  "(strncmp m p q n = 0 \<longleftrightarrow> cstr m p n = cstr m q n)
   \<and> (strncmp m p q n \<noteq> 0 \<longrightarrow>
       (\<exists>i<n. (\<forall>j<i. m (p + of_nat j) = m (q + of_nat j)) \<and>
          strncmp m p q n = uint (m (p + of_nat i)) - uint (m (q + of_nat i))))"
proof -
  have "strncmp m p q n \<noteq> 0 \<Longrightarrow>
       \<exists>i<n. (\<forall>j<i. m (p + of_nat j) = m (q + of_nat j)) \<and>
          strncmp m p q n = uint (m (p + of_nat i)) - uint (m (q + of_nat i))"
  proof (induction n arbitrary: p q)
    case (Suc n)
    show ?case
    proof (cases "m p \<noteq> 0 \<and> m p = m q")
      case True
      with Suc obtain i where i: "i < n" "\<forall>j<i. m (p + 1 + of_nat j) = m (q + 1 + of_nat j)"
        "strncmp m p q (Suc n) = uint (m (p + 1 + of_nat i)) - uint (m (q + 1 + of_nat i))"
        by (auto dest!: Suc.IH)
      show ?thesis
        by (rule exI [of _ "Suc i"]) (use i True in \<open>auto simp: less_Suc_eq_0_disj add.assoc\<close>)
    qed (auto intro: exI [of _ 0])
  qed simp
  then show ?thesis by (simp add: strncmp_eq_0)
qed

end
