(* ===== verification/Mmu.thy ===== *)
theory Mmu
  imports Memory
begin

text \<open>
  The address arithmetic of \<^verbatim>\<open>mmu.h\<close>, \<^verbatim>\<open>memlayout.h\<close> and \<^verbatim>\<open>param.h\<close>: page directory and page table
  indexes, rounding to page boundaries, page table entries and the direct map between
  physical and kernel virtual addresses. All macros work on 32-bit words and wrap. The lemmas
  read them as arithmetic on natural numbers (\<open>unat_PDX\<close>, \<open>unat_PGROUNDDOWN\<close>, ...) and prove the
  split of a virtual address into directory index, table index and offset to be a bijection.
\<close>

section \<open>Constants\<close>

abbreviation (input) PGSIZE :: u32 where "PGSIZE \<equiv> 4096"
abbreviation (input) KERNBASE :: u32 where "KERNBASE \<equiv> 0x80000000"
abbreviation (input) EXTMEM :: u32 where "EXTMEM \<equiv> 0x100000"
abbreviation (input) PHYSTOP :: u32 where "PHYSTOP \<equiv> 0xE000000"
abbreviation (input) DEVSPACE :: u32 where "DEVSPACE \<equiv> 0xFE000000"
abbreviation (input) KERNLINK :: u32 where "KERNLINK \<equiv> KERNBASE + EXTMEM"
abbreviation (input) MMAPBASE :: u32 where "MMAPBASE \<equiv> 0x40000000"

abbreviation (input) PTE_P :: u32 where "PTE_P \<equiv> 0x001"
abbreviation (input) PTE_W :: u32 where "PTE_W \<equiv> 0x002"
abbreviation (input) PTE_U :: u32 where "PTE_U \<equiv> 0x004"
abbreviation (input) PTE_A :: u32 where "PTE_A \<equiv> 0x020"

section \<open>Macros\<close>

definition PDX :: "u32 \<Rightarrow> u32" where
  "PDX va = drop_bit 22 va AND 0x3FF"

definition PTX :: "u32 \<Rightarrow> u32" where
  "PTX va = drop_bit 12 va AND 0x3FF"

definition PGADDR :: "u32 \<Rightarrow> u32 \<Rightarrow> u32 \<Rightarrow> u32" where
  "PGADDR d t off = (push_bit 22 d OR push_bit 12 t OR off)"

definition PGROUNDUP :: "u32 \<Rightarrow> u32" where
  "PGROUNDUP sz = (sz + PGSIZE - 1) AND NOT (PGSIZE - 1)"

definition PGROUNDDOWN :: "u32 \<Rightarrow> u32" where
  "PGROUNDDOWN a = a AND NOT (PGSIZE - 1)"

definition PTE_ADDR :: "u32 \<Rightarrow> u32" where
  "PTE_ADDR pte = pte AND NOT 0xFFF"

definition PTE_FLAGS :: "u32 \<Rightarrow> u32" where
  "PTE_FLAGS pte = pte AND 0xFFF"

definition V2P :: "u32 \<Rightarrow> u32" where
  "V2P a = a - KERNBASE"

definition P2V :: "u32 \<Rightarrow> u32" where
  "P2V a = a + KERNBASE"

text \<open>Page alignment, as \<^verbatim>\<open>(uint)v % PGSIZE == 0\<close> tests it.\<close>

definition pg_aligned :: "u32 \<Rightarrow> bool" where
  "pg_aligned a \<longleftrightarrow> a mod PGSIZE = 0"

section \<open>Reading the macros as arithmetic\<close>

lemma and_mask12: "(x :: u32) AND 0xFFF = take_bit 12 x"
  by (simp add: take_bit_eq_mask mask_eq_exp_minus_1)

lemma and_mask10: "(x :: u32) AND 0x3FF = take_bit 10 x"
  by (simp add: take_bit_eq_mask mask_eq_exp_minus_1)

lemma and_not_mask12: "(x :: u32) AND NOT 0xFFF = push_bit 12 (drop_bit 12 x)"
proof -
  have "x AND NOT (mask 12) = push_bit 12 (drop_bit 12 x)"
    by (rule bit_word_eqI) (auto simp: bit_simps)
  then show ?thesis by (simp add: mask_eq_exp_minus_1)
qed

lemma PGROUNDDOWN_bits: "PGROUNDDOWN a = push_bit 12 (drop_bit 12 a)"
  using and_not_mask12 [of a] by (simp add: PGROUNDDOWN_def)

lemma PTE_ADDR_bits: "PTE_ADDR a = push_bit 12 (drop_bit 12 a)"
  using and_not_mask12 [of a] by (simp add: PTE_ADDR_def)

lemma PTE_FLAGS_bits: "PTE_FLAGS a = take_bit 12 a"
  by (simp add: PTE_FLAGS_def and_mask12)

lemmas unat_bit_ops = unat_div_distrib unat_mod_distrib take_bit_eq_mod drop_bit_eq_div

lemma unat_PDX: "unat (PDX va) = unat va div 4194304"
proof -
  have "unat va div 4194304 < 1024" using unat_lt32 [of va] by linarith
  then show ?thesis by (simp add: PDX_def and_mask10 unat_bit_ops)
qed

lemma unat_PTX: "unat (PTX va) = unat va div 4096 mod 1024"
  by (simp add: PTX_def and_mask10 unat_bit_ops)

lemma PDX_less [simp]: "unat (PDX va) < 1024"
proof -
  have "unat va div 4194304 < 1024" using unat_lt32 [of va] by linarith
  then show ?thesis by (simp add: unat_PDX)
qed

lemma PTX_less [simp]: "unat (PTX va) < 1024"
  by (simp add: unat_PTX)

lemma pg_aligned_unat: "pg_aligned a \<longleftrightarrow> unat a mod 4096 = 0"
  by (simp add: pg_aligned_def unat_mod_distrib flip: unat_eq_0)

lemma pg_aligned_take_bit: "pg_aligned a \<longleftrightarrow> take_bit 12 a = 0"
  by (simp add: pg_aligned_def take_bit_eq_mod)

lemma push_drop12: "push_bit 12 (drop_bit 12 (a :: u32)) = a - a mod 4096"
  by (simp add: push_bit_eq_mult drop_bit_eq_div minus_mod_eq_mult_div mult.commute)

lemma unat_round12: "unat (push_bit 12 (drop_bit 12 (a :: u32))) = 4096 * (unat a div 4096)"
proof -
  have "a mod 4096 \<le> a" by (simp add: word_le_nat_alt unat_mod_distrib)
  then have "unat (a - a mod 4096) = unat a - unat a mod 4096"
    by (simp add: unat_sub unat_mod_distrib)
  then show ?thesis by (simp add: push_drop12 minus_mod_eq_mult_div)
qed

lemma unat_PGROUNDDOWN: "unat (PGROUNDDOWN a) = 4096 * (unat a div 4096)"
  by (simp add: PGROUNDDOWN_bits unat_round12)

lemma unat_page_offset: "unat (a - PGROUNDDOWN a) = unat a mod 4096"
proof -
  have "PGROUNDDOWN a \<le> a" by (simp add: word_le_nat_alt unat_PGROUNDDOWN)
  then show ?thesis by (simp add: unat_sub unat_PGROUNDDOWN minus_mult_div_eq_mod)
qed

lemma unat_PTE_ADDR: "unat (PTE_ADDR a) = 4096 * (unat a div 4096)"
  by (simp add: PTE_ADDR_bits unat_round12)

lemma unat_PTE_FLAGS: "unat (PTE_FLAGS a) = unat a mod 4096"
  by (simp add: PTE_FLAGS_def and_mask12 unat_bit_ops)

lemma unat_PGROUNDUP:
  assumes "unat a + 4095 < 2 ^ 32"
  shows "unat (PGROUNDUP a) = 4096 * ((unat a + 4095) div 4096)"
proof -
  have "PGROUNDUP a = PGROUNDDOWN (a + 4095)"
    by (simp add: PGROUNDUP_def PGROUNDDOWN_def add_diff_eq [symmetric])
  moreover have "unat (a + 4095) = unat a + 4095"
    using assms by (simp add: unat_word_ariths)
  ultimately show ?thesis by (simp add: unat_PGROUNDDOWN)
qed

lemma pg_aligned_PGROUNDDOWN [simp]: "pg_aligned (PGROUNDDOWN a)"
  by (simp add: pg_aligned_unat unat_PGROUNDDOWN)

lemma pg_aligned_PGROUNDUP [simp]: "pg_aligned (PGROUNDUP a)"
  using pg_aligned_PGROUNDDOWN [of "a + 4095"]
  by (simp add: PGROUNDUP_def PGROUNDDOWN_def add_diff_eq [symmetric])

lemma pg_aligned_PTE_ADDR [simp]: "pg_aligned (PTE_ADDR a)"
  by (simp add: pg_aligned_unat unat_PTE_ADDR)

lemma PGROUNDDOWN_aligned [simp]: "pg_aligned a \<Longrightarrow> PGROUNDDOWN a = a"
  using mult_div_mod_eq [of 4096 "unat a"]
  by (simp add: word_unat_eq_iff unat_PGROUNDDOWN pg_aligned_unat)

lemma pg_aligned_mult: "pg_aligned a \<longleftrightarrow> (\<exists>k. a = 4096 * k)"
proof
  assume "pg_aligned a"
  then have "a = 4096 * (a div 4096)" using mult_div_mod_eq [of 4096 a] by (simp add: pg_aligned_def)
  then show "\<exists>k. a = 4096 * k" ..
next
  assume "\<exists>k. a = 4096 * k"
  then obtain k where "a = 4096 * k" ..
  then have "unat a = (4096 * unat k) mod 2 ^ 32" by (simp add: unat_word_ariths)
  then show "pg_aligned a" by (simp add: pg_aligned_unat mod_mod_cancel)
qed

lemma pg_aligned_add: "pg_aligned a \<Longrightarrow> pg_aligned b \<Longrightarrow> pg_aligned (a + b)"
  unfolding pg_aligned_mult by (metis distrib_left)

lemma pg_aligned_diff: "pg_aligned a \<Longrightarrow> pg_aligned b \<Longrightarrow> pg_aligned (a - b)"
  unfolding pg_aligned_mult by (metis right_diff_distrib)

lemma pg_aligned_consts [simp]: "pg_aligned 0" "pg_aligned PGSIZE" "pg_aligned KERNBASE"
  by (simp_all add: pg_aligned_unat)

lemma pg_aligned_P2V [simp]: "pg_aligned (P2V a) = pg_aligned a"
proof
  assume "pg_aligned (P2V a)"
  then have "pg_aligned (a + KERNBASE - KERNBASE)"
    unfolding P2V_def by (rule pg_aligned_diff) (rule pg_aligned_consts(3))
  then show "pg_aligned a" by simp
qed (simp add: P2V_def pg_aligned_add)

lemma V2P_P2V [simp]: "V2P (P2V a) = a" "P2V (V2P a) = a"
  by (simp_all add: V2P_def P2V_def)

lemma P2V_inject [simp]: "P2V a = P2V b \<longleftrightarrow> a = b"
  by (simp add: P2V_def)

section \<open>Page table entries\<close>

text \<open>An entry \<^verbatim>\<open>pa | perm | PTE_P\<close> with an aligned frame and flags below 4096.\<close>

lemma PTE_ADDR_or:
  assumes "pg_aligned pa" "unat fl < 4096"
  shows "PTE_ADDR (pa OR fl) = pa" "PTE_FLAGS (pa OR fl) = fl"
proof -
  have fl: "take_bit 12 fl = fl" using assms(2)
    by (simp add: word_unat_eq_iff take_bit_eq_mod unat_mod_distrib)
  have pa: "take_bit 12 pa = 0" using assms(1) by (simp add: pg_aligned_take_bit)
  have "\<not> bit fl n" if "12 \<le> n" for n
    using fl that bit_take_bit_iff [of 12 fl n] by simp
  moreover have "\<not> bit pa n" if "n < 12" for n
    using pa that bit_take_bit_iff [of 12 pa n] by simp
  ultimately have bits: "bit fl n \<Longrightarrow> n < 12" "bit pa n \<Longrightarrow> 12 \<le> n" for n
    by (meson not_less)+
  show "PTE_ADDR (pa OR fl) = pa" "PTE_FLAGS (pa OR fl) = fl"
    by (rule bit_word_eqI; simp add: PTE_ADDR_bits PTE_FLAGS_bits bit_simps;
        metis bits leD le_add_diff_inverse)+
qed

lemma PTE_split: "PTE_ADDR pte OR PTE_FLAGS pte = pte"
  by (rule bit_word_eqI) (auto simp: PTE_ADDR_bits PTE_FLAGS_bits bit_simps)

section \<open>Splitting and rebuilding a virtual address\<close>

lemma PGADDR_split: "PGADDR (PDX va) (PTX va) (va AND 0xFFF) = va"
proof (rule bit_word_eqI)
  fix n assume "n < LENGTH(32)"
  then show "bit (PGADDR (PDX va) (PTX va) (va AND 0xFFF)) n = bit va n"
    by (cases "n < 12"; cases "n < 22")
      (auto simp: PGADDR_def PDX_def PTX_def and_mask10 and_mask12 bit_simps)
qed

lemma page_arith:
  fixes d t off :: nat
  assumes "d < 1024" "t < 1024" "off < 4096"
  defines "n \<equiv> 4194304 * d + 4096 * t + off"
  shows "n div 4194304 = d" "n div 4096 mod 1024 = t" "n mod 4096 = off"
proof -
  show "n div 4194304 = d" using assms by linarith
  have "n div 4096 = 1024 * d + t" using assms by linarith
  then show "n div 4096 mod 1024 = t" using assms by simp
  have "n = off + 4096 * (1024 * d + t)" by (simp add: n_def)
  then have "n mod 4096 = off mod 4096" by (simp only: mod_mult_self2)
  then show "n mod 4096 = off" using assms(3) by simp
qed

lemma unat_PGADDR:
  assumes "unat d < 1024" "unat t < 1024" "unat off < 4096"
  shows "unat (PGADDR d t off) = 4194304 * unat d + 4096 * unat t + unat off"
proof -
  let ?n = "4194304 * unat d + 4096 * unat t + unat off"
  let ?va = "of_nat ?n :: u32"
  have "?n < 2 ^ 32" using assms by simp
  then have va: "unat ?va = ?n" by (rule unat_of_nat32)
  have "unat (PDX ?va) = unat d" "unat (PTX ?va) = unat t"
    unfolding unat_PDX unat_PTX va by (rule page_arith [OF assms])+
  moreover have "unat (?va AND 0xFFF) = unat off"
    using page_arith(3) [OF assms] unat_PTE_FLAGS [of ?va] unfolding PTE_FLAGS_def va by simp
  ultimately have "PDX ?va = d" "PTX ?va = t" "?va AND 0xFFF = off"
    by (simp_all only: word_unat_eq_iff)
  with PGADDR_split [of ?va] va show ?thesis by simp
qed

text \<open>
  A virtual address is exactly its page directory index, page table index and page offset:
  \<^verbatim>\<open>PGADDR\<close> rebuilds the address from \<^verbatim>\<open>PDX\<close>, \<^verbatim>\<open>PTX\<close> and the low 12 bits, and for in-range parts the
  two macros recover what \<^verbatim>\<open>PGADDR\<close> was given.
\<close>

lemma PGADDR_roundtrip:
  "PGADDR (PDX va) (PTX va) (va AND 0xFFF) = va \<and>
   (unat d < 1024 \<and> unat t < 1024 \<and> unat off < 4096 \<longrightarrow>
      PDX (PGADDR d t off) = d \<and> PTX (PGADDR d t off) = t \<and> PGADDR d t off AND 0xFFF = off)"
proof -
  have "PDX (PGADDR d t off) = d \<and> PTX (PGADDR d t off) = t \<and> PGADDR d t off AND 0xFFF = off"
    if a: "unat d < 1024" "unat t < 1024" "unat off < 4096"
  proof -
    note va = unat_PGADDR [OF a]
    have "unat (PDX (PGADDR d t off)) = unat d" "unat (PTX (PGADDR d t off)) = unat t"
      unfolding unat_PDX unat_PTX va by (rule page_arith [OF a])+
    moreover have "unat (PGADDR d t off AND 0xFFF) = unat off"
      using page_arith(3) [OF a] unat_PTE_FLAGS [of "PGADDR d t off"]
      unfolding PTE_FLAGS_def va by simp
    ultimately show ?thesis by (simp only: word_unat_eq_iff)
  qed
  then show ?thesis by (simp add: PGADDR_split)
qed

text \<open>Two page-aligned addresses with the same indexes are equal.\<close>

lemma page_index_inject:
  assumes "pg_aligned a" "pg_aligned b" "PDX a = PDX b" "PTX a = PTX b"
  shows "a = b"
proof -
  have "a AND 0xFFF = 0" "b AND 0xFFF = 0" using assms by (simp_all add: pg_aligned_take_bit and_mask12)
  then show ?thesis using assms PGADDR_split [of a] PGADDR_split [of b] by simp
qed

end
