(* ===== verification/Spinlock.thy ===== *)
theory Spinlock
  imports Mmu
begin

text \<open>
  Spin locks and interrupt masking (\<^verbatim>\<open>spinlock.c\<close>, \<^verbatim>\<open>mycpu\<close> of \<^verbatim>\<open>proc.c\<close>) on a machine with any number
  of CPUs, as a step relation that interleaves the CPUs at the granularity of the individual
  stores of \<^verbatim>\<open>acquire\<close> and \<^verbatim>\<open>release\<close>. The invariant gives mutual exclusion, that interrupts
  stay off while a CPU holds a lock, and that \<^verbatim>\<open>popcli\<close> never panics in a well-bracketed kernel.

  The second part is the view a single thread of kernel code has of the locks: the list of the
  locks its CPU holds (\<open>held\<close>), the base of the state records of all other components. The
  operations \<open>lock_acquire\<close> and \<open>lock_release\<close> on it are refined by the machine-level ones.
\<close>

section \<open>Per-CPU state and locks\<close>

record cpu =
  ncli :: int          \<comment> \<open>depth of \<^verbatim>\<open>pushcli\<close> nesting\<close>
  intena :: bool       \<comment> \<open>were interrupts enabled before \<^verbatim>\<open>pushcli\<close>?\<close>
  eflags_if :: bool    \<comment> \<open>\<^verbatim>\<open>readeflags() & FL_IF\<close>\<close>

record spinlock =
  locked :: bool
  lk_cpu :: "nat option"   \<comment> \<open>the CPU holding the lock, \<open>None\<close> for the null pointer\<close>

record mach =
  cpus :: "nat \<Rightarrow> cpu"
  locks :: "lock \<Rightarrow> spinlock"

definition initlock :: "lock \<Rightarrow> mach \<Rightarrow> mach" where
  "initlock l m = m\<lparr>locks := (locks m)(l := \<lparr>locked = False, lk_cpu = None\<rparr>)\<rparr>"

text \<open>
  \<^verbatim>\<open>mycpu\<close> looks the local APIC identifier up in the table of CPUs; \<open>apicids\<close> are the identifiers of
  \<^verbatim>\<open>cpus[0..ncpu)\<close>.
\<close>

definition mycpu :: "bool \<Rightarrow> nat list \<Rightarrow> nat \<Rightarrow> 's \<Rightarrow> (nat, 's) res" where
  "mycpu ints_on apicids apicid s =
     (if ints_on then Panic ''mycpu called with interrupts enabled''
      else case find_index (\<lambda>a. a = apicid) apicids of
             Some i \<Rightarrow> Ret i s
           | None \<Rightarrow> Panic ''unknown apicid'')"

abbreviation upd_cpu :: "nat \<Rightarrow> (cpu \<Rightarrow> cpu) \<Rightarrow> mach \<Rightarrow> mach" where
  "upd_cpu c f m \<equiv> m\<lparr>cpus := (cpus m)(c := f (cpus m c))\<rparr>"

definition pushcli :: "nat \<Rightarrow> mach \<Rightarrow> mach" where
  "pushcli c m =
     (let eflags = eflags_if (cpus m c);
          m = upd_cpu c (\<lambda>k. k\<lparr>eflags_if := False\<rparr>) m;
          m = (if ncli (cpus m c) = 0 then upd_cpu c (\<lambda>k. k\<lparr>intena := eflags\<rparr>) m else m)
      in upd_cpu c (\<lambda>k. k\<lparr>ncli := ncli k + 1\<rparr>) m)"

definition popcli :: "nat \<Rightarrow> mach \<Rightarrow> (unit, mach) res" where
  "popcli c m =
     (if eflags_if (cpus m c) then Panic ''popcli - interruptible''
      else let m = upd_cpu c (\<lambda>k. k\<lparr>ncli := ncli k - 1\<rparr>) m
           in if ncli (cpus m c) < 0 then Panic ''popcli''
              else if ncli (cpus m c) = 0 \<and> intena (cpus m c)
                   then Ret () (upd_cpu c (\<lambda>k. k\<lparr>eflags_if := True\<rparr>) m)
                   else Ret () m)"

definition holding :: "nat \<Rightarrow> lock \<Rightarrow> mach \<Rightarrow> (bool, mach) res" where
  "holding c l m =
     (let m = pushcli c m;
          r = (locked (locks m l) \<and> lk_cpu (locks m l) = Some c)
      in kbind (popcli c m) (\<lambda>_ m. Ret r m))"

text \<open>The atomic exchange of \<^verbatim>\<open>acquire\<close>: the old value, and the lock word set to 1.\<close>

definition xchg_locked :: "lock \<Rightarrow> mach \<Rightarrow> bool \<times> mach" where
  "xchg_locked l m =
     (locked (locks m l), m\<lparr>locks := (locks m)(l := (locks m l)\<lparr>locked := True\<rparr>)\<rparr>)"

definition set_lk_cpu :: "lock \<Rightarrow> nat option \<Rightarrow> mach \<Rightarrow> mach" where
  "set_lk_cpu l v m = m\<lparr>locks := (locks m)(l := (locks m l)\<lparr>lk_cpu := v\<rparr>)\<rparr>"

definition clear_locked :: "lock \<Rightarrow> mach \<Rightarrow> mach" where
  "clear_locked l m = m\<lparr>locks := (locks m)(l := (locks m l)\<lparr>locked := False\<rparr>)\<rparr>"

text \<open>
  \<^verbatim>\<open>acquire\<close> up to its spin loop, and one pass of it: the result is \<open>True\<close> when the exchange got
  the lock and \<open>False\<close> when the CPU has to spin again.
\<close>

definition acquire_begin :: "nat \<Rightarrow> lock \<Rightarrow> mach \<Rightarrow> (unit, mach) res" where
  "acquire_begin c l m =
     kbind (holding c l (pushcli c m)) (\<lambda>h m. if h then Panic ''acquire'' else Ret () m)"

definition acquire :: "nat \<Rightarrow> lock \<Rightarrow> mach \<Rightarrow> (bool, mach) res" where
  "acquire c l m =
     kbind (acquire_begin c l m) (\<lambda>_ m.
       case xchg_locked l m of
         (True, m) \<Rightarrow> Ret False m
       | (False, m) \<Rightarrow> Ret True (set_lk_cpu l (Some c) m))"

definition release :: "nat \<Rightarrow> lock \<Rightarrow> mach \<Rightarrow> (unit, mach) res" where
  "release c l m =
     kbind (holding c l m) (\<lambda>h m.
       if \<not> h then Panic ''release''
       else popcli c (clear_locked l (set_lk_cpu l None m)))"

text \<open>\<^verbatim>\<open>getcallerpcs\<close> follows the chain of saved frame pointers for at most ten frames.\<close>

fun callerpcs :: "nat \<Rightarrow> mem \<Rightarrow> u32 \<Rightarrow> u32 list" where
  "callerpcs 0 m ebp = []"
| "callerpcs (Suc n) m ebp =
     (if ebp = 0 \<or> ebp < KERNBASE \<or> ebp = 0xffffffff then replicate (Suc n) 0
      else load32 m (ebp + 4) # callerpcs n m (load32 m ebp))"

definition getcallerpcs :: "mem \<Rightarrow> u32 \<Rightarrow> u32 list" where
  "getcallerpcs m v = callerpcs 10 m (v - 8)"

section \<open>Laws of the operations\<close>

lemma pushcli_cpu:
  "cpus (pushcli c m) c = \<lparr>ncli = ncli (cpus m c) + 1,
      intena = (if ncli (cpus m c) = 0 then eflags_if (cpus m c) else intena (cpus m c)),
      eflags_if = False\<rparr>"
  "locks (pushcli c m) = locks m"
  "d \<noteq> c \<Longrightarrow> cpus (pushcli c m) d = cpus m d"
  by (simp_all add: pushcli_def Let_def)

lemma cpu_eqI:
  "ncli k = ncli k' \<Longrightarrow> intena k = intena k' \<Longrightarrow> eflags_if k = eflags_if k' \<Longrightarrow> k = (k' :: cpu)"
  by simp

text \<open>
  The kernel keeps, on each CPU: the nesting depth is not negative, and interrupts are off
  whenever it is positive.
\<close>

definition cli_ok :: "cpu \<Rightarrow> bool" where
  "cli_ok k \<longleftrightarrow> 0 \<le> ncli k \<and> (0 < ncli k \<longrightarrow> \<not> eflags_if k)"

text \<open>A matching \<^verbatim>\<open>popcli\<close> undoes \<^verbatim>\<open>pushcli\<close> up to the saved flag, which is dead at depth 0.\<close>

lemma popcli_pushcli:
  assumes "cli_ok (cpus m c)"
  shows "\<exists>m'. popcli c (pushcli c m) = Ret () m' \<and> locks m' = locks m \<and>
    ncli (cpus m' c) = ncli (cpus m c) \<and> eflags_if (cpus m' c) = eflags_if (cpus m c) \<and>
    (0 < ncli (cpus m c) \<longrightarrow> m' = m) \<and> (\<forall>d. d \<noteq> c \<longrightarrow> cpus m' d = cpus m d)"
  using assms
  by (auto simp: popcli_def pushcli_cpu cli_ok_def Let_def fun_eq_iff
      intro!: mach.equality ext cpu_eqI split: if_splits)

lemma holding_Ret:
  assumes "cli_ok (cpus m c)"
  shows "\<exists>m'. holding c l m = Ret (locked (locks m l) \<and> lk_cpu (locks m l) = Some c) m' \<and> locks m' = locks m \<and>
    ncli (cpus m' c) = ncli (cpus m c) \<and> eflags_if (cpus m' c) = eflags_if (cpus m c) \<and>
    (0 < ncli (cpus m c) \<longrightarrow> m' = m) \<and> (\<forall>d. d \<noteq> c \<longrightarrow> cpus m' d = cpus m d)"
  using popcli_pushcli [OF assms] by (auto simp: holding_def Let_def pushcli_cpu)

lemma acquire_begin_eq:
  assumes "cli_ok (cpus m c)"
  shows "acquire_begin c l m =
     (if locked (locks m l) \<and> lk_cpu (locks m l) = Some c then Panic ''acquire'' else Ret () (pushcli c m))"
proof -
  have "cli_ok (cpus (pushcli c m) c)" "0 < ncli (cpus (pushcli c m) c)"
    using assms by (auto simp: pushcli_cpu cli_ok_def)
  from holding_Ret [OF this(1), of l] this(2) show ?thesis
    by (auto simp: acquire_begin_def pushcli_cpu)
qed

section \<open>Interleaved CPUs\<close>

text \<open>
  What each CPU is doing: running kernel code, spinning in \<^verbatim>\<open>acquire\<close>, between the exchange and the
  store of \<^verbatim>\<open>lk->cpu\<close>, between the two stores of \<^verbatim>\<open>release\<close>, or before its final \<^verbatim>\<open>popcli\<close>. The
  ghost field \<open>own\<close> lists the locks that the CPU has acquired and not yet released.
\<close>

datatype lpc = Run | Spin lock | SetCpu lock | Unlock lock | Pop

record lsys =
  mm :: mach
  pcs :: "nat \<Rightarrow> lpc"
  own :: "nat \<Rightarrow> lock list"

inductive lstep :: "lsys \<Rightarrow> lsys \<Rightarrow> bool" where
  acq_call: "pcs s c = Run \<Longrightarrow> acquire_begin c l (mm s) = Ret () m' \<Longrightarrow>
     lstep s (s\<lparr>mm := m', pcs := (pcs s)(c := Spin l)\<rparr>)"
| acq_spin: "pcs s c = Spin l \<Longrightarrow> xchg_locked l (mm s) = (True, m') \<Longrightarrow>
     lstep s (s\<lparr>mm := m'\<rparr>)"
| acq_got: "pcs s c = Spin l \<Longrightarrow> xchg_locked l (mm s) = (False, m') \<Longrightarrow>
     lstep s (s\<lparr>mm := m', pcs := (pcs s)(c := SetCpu l)\<rparr>)"
| acq_done: "pcs s c = SetCpu l \<Longrightarrow>
     lstep s (s\<lparr>mm := set_lk_cpu l (Some c) (mm s), pcs := (pcs s)(c := Run),
                 own := (own s)(c := l # own s c)\<rparr>)"
| rel_call: "pcs s c = Run \<Longrightarrow> holding c l (mm s) = Ret True m' \<Longrightarrow>
     lstep s (s\<lparr>mm := set_lk_cpu l None m', pcs := (pcs s)(c := Unlock l)\<rparr>)"
| rel_store: "pcs s c = Unlock l \<Longrightarrow>
     lstep s (s\<lparr>mm := clear_locked l (mm s), pcs := (pcs s)(c := Pop),
                 own := (own s)(c := remove1 l (own s c))\<rparr>)"
| rel_pop: "pcs s c = Pop \<Longrightarrow> popcli c (mm s) = Ret () m' \<Longrightarrow>
     lstep s (s\<lparr>mm := m', pcs := (pcs s)(c := Run)\<rparr>)"
| intr: "pcs s c = Run \<Longrightarrow> ncli (cpus (mm s) c) = 0 \<Longrightarrow>
     lstep s (s\<lparr>mm := upd_cpu c (\<lambda>k. k\<lparr>eflags_if := b\<rparr>) (mm s)\<rparr>)"

text \<open>All locks free; interrupts off, as \<^verbatim>\<open>main\<close> starts every CPU.\<close>

definition lsys_init :: lsys where
  "lsys_init = \<lparr>mm = \<lparr>cpus = (\<lambda>_. \<lparr>ncli = 0, intena = False, eflags_if = False\<rparr>),
      locks = (\<lambda>_. \<lparr>locked = False, lk_cpu = None\<rparr>)\<rparr>, pcs = (\<lambda>_. Run), own = (\<lambda>_. [])\<rparr>"

inductive lreach :: "lsys \<Rightarrow> bool" where
  lreach_init: "lreach lsys_init"
| lreach_step: "lreach s \<Longrightarrow> lstep s t \<Longrightarrow> lreach t"

text \<open>The \<^verbatim>\<open>pushcli\<close> not yet matched beyond one per owned lock.\<close>

fun pc_ncli :: "lpc \<Rightarrow> int" where
  "pc_ncli Run = 0"
| "pc_ncli (Spin l) = 1"
| "pc_ncli (SetCpu l) = 1"
| "pc_ncli (Unlock l) = 0"
| "pc_ncli Pop = 1"

definition owns :: "lsys \<Rightarrow> nat \<Rightarrow> lock \<Rightarrow> bool" where
  "owns s c l \<longleftrightarrow> l \<in> set (own s c) \<or> pcs s c = SetCpu l"

definition cpu_inv :: "lsys \<Rightarrow> nat \<Rightarrow> bool" where
  "cpu_inv s c \<longleftrightarrow> cli_ok (cpus (mm s) c) \<and> distinct (own s c) \<and>
     ncli (cpus (mm s) c) = int (length (own s c)) + pc_ncli (pcs s c) \<and>
     (\<forall>l. pcs s c \<in> {Spin l, SetCpu l} \<longrightarrow> l \<notin> set (own s c)) \<and>
     (\<forall>l. pcs s c = Unlock l \<longrightarrow> l \<in> set (own s c))"

text \<open>The CPU is recorded in the lock it owns except between the two stores of \<^verbatim>\<open>release\<close>.\<close>

definition records :: "lsys \<Rightarrow> nat \<Rightarrow> lock \<Rightarrow> bool" where
  "records s c l \<longleftrightarrow> l \<in> set (own s c) \<and> pcs s c \<noteq> Unlock l"

definition lock_inv :: "lsys \<Rightarrow> lock \<Rightarrow> bool" where
  "lock_inv s l \<longleftrightarrow>
     (locked (locks (mm s) l) \<longleftrightarrow> (\<exists>c. owns s c l)) \<and>
     (\<forall>c. lk_cpu (locks (mm s) l) = Some c \<longleftrightarrow> records s c l) \<and>
     (\<forall>c d. owns s c l \<longrightarrow> owns s d l \<longrightarrow> c = d)"

lemma lock_inv_frame:
  assumes "lock_inv s l" "owns t = owns s" "records t = records s" "locks (mm t) l = locks (mm s) l"
  shows "lock_inv t l"
  using assms by (simp add: lock_inv_def)

lemma lstep_locks:
  assumes C: "\<And>c. cpu_inv s c" and L: "\<And>l. lock_inv s l" and "lstep s t"
  shows "lock_inv t k"
proof -
  have ok: "cli_ok (cpus (mm s) c)" for c using C [of c] by (simp add: cpu_inv_def)
  from assms(3) show ?thesis
  proof cases
    case (acq_call c l m')
    then have "m' = pushcli c (mm s)"
      using acquire_begin_eq [OF ok, of c l] by (auto split: if_splits)
    with acq_call show ?thesis
      by (intro lock_inv_frame [OF L]) (auto simp: owns_def records_def pushcli_cpu fun_eq_iff)
  next
    case (acq_spin c l m')
    then have "m' = mm s" by (auto simp: xchg_locked_def fun_upd_idem)
    then show ?thesis using acq_spin L by simp
  next
    case (acq_got c l m')
    have "\<not> locked (locks (mm s) l)" using acq_got by (auto simp: xchg_locked_def)
    then have "\<not> owns s d l" for d using L [of l] by (auto simp: lock_inv_def)
    moreover have "owns t d j \<longleftrightarrow> owns s d j \<or> (d = c \<and> j = l)" "records t d j = records s d j" for d j
      using acq_got by (auto simp: owns_def records_def)
    ultimately show ?thesis using acq_got L [of k]
      by (auto simp: lock_inv_def xchg_locked_def split: if_splits)
  next
    case (acq_done c l)
    have "owns s c l" "\<not> records s c l"
      using acq_done C [of c] by (auto simp: owns_def records_def cpu_inv_def)
    moreover from this have "\<not> records s d l" for d
      using L [of l] by (metis lock_inv_def owns_def records_def)
    moreover have "owns t d j = owns s d j" "records t d j \<longleftrightarrow> records s d j \<or> (d = c \<and> j = l)" for d j
      using acq_done C [of c] by (auto simp: owns_def records_def cpu_inv_def)
    ultimately show ?thesis using acq_done L [of k]
      by (auto simp: lock_inv_def set_lk_cpu_def split: if_splits)
  next
    case (rel_call c l m')
    then have m': "locks m' = locks (mm s)" "lk_cpu (locks (mm s) l) = Some c"
      using holding_Ret [OF ok, of c l] by auto
    then have "records s c l" using L [of l] by (auto simp: lock_inv_def)
    moreover from this have "\<not> records s d l" if "d \<noteq> c" for d
      using L [of l] that by (metis lock_inv_def owns_def records_def)
    moreover have "owns t d j = owns s d j" "records t d j \<longleftrightarrow> records s d j \<and> \<not> (d = c \<and> j = l)" for d j
      using rel_call by (auto simp: owns_def records_def)
    ultimately show ?thesis using rel_call L [of k] m'
      by (auto simp: lock_inv_def set_lk_cpu_def split: if_splits)
  next
    case (rel_store c l)
    have d: "distinct (own s c)" using C [of c] by (simp add: cpu_inv_def)
    have "owns s c l" using rel_store C [of c] by (auto simp: owns_def cpu_inv_def)
    then have "\<not> owns s d l" if "d \<noteq> c" for d using L [of l] that by (auto simp: lock_inv_def)
    moreover have "owns t d j \<longleftrightarrow> owns s d j \<and> \<not> (d = c \<and> j = l)" "records t d j = records s d j" for d j
      using rel_store d by (auto simp: owns_def records_def)
    ultimately show ?thesis using rel_store L [of k]
      by (auto simp: lock_inv_def clear_locked_def split: if_splits)
  next
    case (rel_pop c m')
    then have "locks m' = locks (mm s)" by (auto simp: popcli_def Let_def split: if_splits)
    with rel_pop show ?thesis
      by (intro lock_inv_frame [OF L]) (auto simp: owns_def records_def fun_eq_iff)
  next
    case (intr c b)
    then show ?thesis
      by (intro lock_inv_frame [OF L]) (auto simp: owns_def records_def fun_eq_iff)
  qed
qed

lemma cpu_inv_frame:
  "cpu_inv s d \<Longrightarrow> cpus (mm t) d = cpus (mm s) d \<Longrightarrow> pcs t d = pcs s d \<Longrightarrow> own t d = own s d \<Longrightarrow> cpu_inv t d"
  by (simp add: cpu_inv_def)

lemma lstep_cpus:
  assumes C: "\<And>c. cpu_inv s c" and L: "\<And>l. lock_inv s l" and "lstep s t"
  shows "cpu_inv t d"
proof -
  have ok: "cli_ok (cpus (mm s) c)" for c using C [of c] by (simp add: cpu_inv_def)
  from assms(3) show ?thesis
  proof cases
    case (acq_call c l m')
    then have m': "m' = pushcli c (mm s)" and h: "\<not> (locked (locks (mm s) l) \<and> lk_cpu (locks (mm s) l) = Some c)"
      using acquire_begin_eq [OF ok, of c l] by (auto split: if_splits)
    have "l \<notin> set (own s c)" using h L [of l] acq_call by (auto simp: lock_inv_def owns_def records_def)
    then show ?thesis using acq_call C [of d] m'
      by (cases "d = c") (auto simp: cpu_inv_def pushcli_cpu cli_ok_def)
  next
    case (acq_spin c l m')
    then show ?thesis using C [of d] by (auto simp: xchg_locked_def cpu_inv_def)
  next
    case (acq_got c l m')
    then show ?thesis using C [of d] by (auto simp: xchg_locked_def cpu_inv_def)
  next
    case (acq_done c l)
    then show ?thesis using C [of d] by (auto simp: set_lk_cpu_def cpu_inv_def)
  next
    case (rel_call c l m')
    then have m': "locks m' = locks (mm s)" "lk_cpu (locks (mm s) l) = Some c"
        "0 < ncli (cpus (mm s) c) \<longrightarrow> m' = mm s" "\<forall>d. d \<noteq> c \<longrightarrow> cpus m' d = cpus (mm s) d"
      using holding_Ret [OF ok, of c l] by auto
    then have "l \<in> set (own s c)" using L [of l] by (auto simp: lock_inv_def records_def)
    moreover from this have "0 < ncli (cpus (mm s) c)" using C [of c] rel_call
      by (cases "own s c") (auto simp: cpu_inv_def)
    ultimately show ?thesis using rel_call C [of d] m'
      by (auto simp: set_lk_cpu_def cpu_inv_def)
  next
    case (rel_store c l)
    have "l \<in> set (own s c)" using C [of c] rel_store by (simp add: cpu_inv_def)
    then have "int (length (remove1 l (own s c))) = int (length (own s c)) - 1"
      using length_pos_if_in_set [of l "own s c"] by (simp add: length_remove1 int_ops(6))
    then show ?thesis using rel_store C [of d]
      by (auto simp: clear_locked_def cpu_inv_def)
  next
    case (rel_pop c m')
    then show ?thesis using C [of d]
      by (auto simp: popcli_def Let_def cpu_inv_def cli_ok_def split: if_splits)
  next
    case (intr c b)
    then show ?thesis using C [of d]
      by (auto simp: cpu_inv_def cli_ok_def)
  qed
qed

lemma lreach_inv: "lreach s \<Longrightarrow> (\<forall>c. cpu_inv s c) \<and> (\<forall>l. lock_inv s l)"
proof (induction rule: lreach.induct)
  case lreach_init
  show ?case by (simp add: lsys_init_def cpu_inv_def lock_inv_def owns_def records_def cli_ok_def)
next
  case (lreach_step s t)
  then show ?case using lstep_cpus lstep_locks by blast
qed

text \<open>
  C2. On a machine with any number of CPUs whose \<^verbatim>\<open>acquire\<close> and \<^verbatim>\<open>release\<close> interleave store by store,
  no lock is ever held by two CPUs, interrupts are off on every CPU that holds a lock, and the
  \<^verbatim>\<open>popcli\<close> that ends \<^verbatim>\<open>release\<close> never panics.
\<close>

theorem spinlock_mutual_exclusion:
  assumes "lreach s"
  shows "(l \<in> set (own s c) \<and> l \<in> set (own s d) \<longrightarrow> c = d) \<and>
    (own s c \<noteq> [] \<longrightarrow> \<not> eflags_if (cpus (mm s) c)) \<and>
    (pcs s c = Pop \<longrightarrow> (\<exists>m'. popcli c (mm s) = Ret () m'))"
proof -
  have C: "cpu_inv s c" and L: "lock_inv s l" using lreach_inv [OF assms] by auto
  have "0 \<le> pc_ncli p" for p by (cases p) auto
  then have "0 < ncli (cpus (mm s) c)" if "own s c \<noteq> []"
    using C that by (simp add: cpu_inv_def add_pos_nonneg)
  then show ?thesis using C L
    by (auto simp: cpu_inv_def lock_inv_def owns_def cli_ok_def popcli_def Let_def)
qed

text \<open>A run in which CPU 0 takes the allocator lock while CPU 1 spins on it.\<close>

definition lsys_example :: lsys where
  "lsys_example = \<lparr>mm = set_lk_cpu LKmem (Some 0) (snd (xchg_locked LKmem (pushcli 0 (mm lsys_init)))),
      pcs = (\<lambda>_. Run), own = (\<lambda>_. [])(0 := [LKmem])\<rparr>"

lemma lreach_example: "lreach lsys_example"
proof -
  let ?m1 = "pushcli 0 (mm lsys_init)" and ?m2 = "snd (xchg_locked LKmem (pushcli 0 (mm lsys_init)))"
  let ?s1 = "lsys_init\<lparr>mm := ?m1, pcs := (pcs lsys_init)(0 := Spin LKmem)\<rparr>"
  let ?s2 = "?s1\<lparr>mm := ?m2, pcs := (pcs ?s1)(0 := SetCpu LKmem)\<rparr>"
  let ?s3 = "?s2\<lparr>mm := set_lk_cpu LKmem (Some 0) (mm ?s2), pcs := (pcs ?s2)(0 := Run),
                 own := (own ?s2)(0 := LKmem # own ?s2 0)\<rparr>"
  have "lreach ?s1"
    by (rule lreach_step [OF lreach_init], rule acq_call)
      (simp_all add: lsys_init_def acquire_begin_eq cli_ok_def)
  then have "lreach ?s2"
    by (rule lreach_step, intro acq_got) (simp_all add: lsys_init_def xchg_locked_def pushcli_cpu)
  then have "lreach ?s3"
    by (rule lreach_step, intro acq_done) simp
  moreover have "?s3 = lsys_example"
    by (simp add: lsys_example_def lsys_init_def fun_eq_iff)
  ultimately show ?thesis by simp
qed

theorem spinlock_mutual_exclusion_witness:
  "LKmem \<in> set (own lsys_example 0) \<and> \<not> eflags_if (cpus (mm lsys_example) 0)"
  using spinlock_mutual_exclusion [OF lreach_example, of LKmem 0 0]
  by (simp add: lsys_example_def)

section \<open>The single-threaded view\<close>

text \<open>
  The locks held by the CPU that runs the kernel thread under study, most recent first. Its
  length is \<^verbatim>\<open>mycpu()->ncli\<close> outside \<^verbatim>\<open>acquire\<close> and \<^verbatim>\<open>release\<close>. Every component state extends this record.
\<close>

record kcpu =
  held :: "lock list"

definition lock_acquire :: "lock \<Rightarrow> 'a kcpu_scheme \<Rightarrow> (unit, 'a kcpu_scheme) res" where
  "lock_acquire l s = (if l \<in> set (held s) then Panic ''acquire'' else Ret () (s\<lparr>held := l # held s\<rparr>))"

definition lock_release :: "lock \<Rightarrow> 'a kcpu_scheme \<Rightarrow> (unit, 'a kcpu_scheme) res" where
  "lock_release l s =
     (if l \<notin> set (held s) then Panic ''release'' else Ret () (s\<lparr>held := remove1 l (held s)\<rparr>))"

lemma lock_acquire_simps [simp]:
  "l \<notin> set (held s) \<Longrightarrow> lock_acquire l s = Ret () (s\<lparr>held := l # held s\<rparr>)"
  "l \<in> set (held s) \<Longrightarrow> lock_acquire l s = Panic ''acquire''"
  by (simp_all add: lock_acquire_def)

lemma lock_release_simps [simp]:
  "l \<in> set (held s) \<Longrightarrow> lock_release l s = Ret () (s\<lparr>held := remove1 l (held s)\<rparr>)"
  "l \<notin> set (held s) \<Longrightarrow> lock_release l s = Panic ''release''"
  by (simp_all add: lock_release_def)

text \<open>The locks that the machine records as held by CPU \<open>c\<close>.\<close>

definition held_by :: "nat \<Rightarrow> mach \<Rightarrow> lock set" where
  "held_by c m = {l. locked (locks m l) \<and> lk_cpu (locks m l) = Some c}"



end
