(* ===== verification/Kalloc.thy ===== *)
theory Kalloc
  imports Spinlock
begin

text \<open>
  The physical page allocator (\<^verbatim>\<open>kalloc.c\<close> of the virtual-memory tree): a free list threaded
  through the free pages themselves, with the page counter that \<^verbatim>\<open>freemem\<close> reports. The state
  holds the memory of the machine under its kernel virtual addresses. \<open>free_pages\<close> relates the
  linked list in memory to the list of free pages; the locale \<open>page_allocator\<close> states what the
  allocator promises its clients and is interpreted on \<^verbatim>\<open>kalloc\<close> and \<^verbatim>\<open>kfree\<close>.
\<close>

section \<open>State and operations\<close>

record kmem = kcpu +
  mem :: mem             \<comment> \<open>kernel virtual address \<open>\<mapsto>\<close> byte\<close>
  use_lock :: bool
  freelist :: u32        \<comment> \<open>first free page, 0 for the null pointer\<close>
  freemems :: int
  kend :: u32            \<comment> \<open>the linker symbol \<^verbatim>\<open>end\<close>\<close>

definition kmem_acquire :: "'a kmem_scheme \<Rightarrow> (unit, 'a kmem_scheme) res" where
  "kmem_acquire s = (if use_lock s then lock_acquire LKmem s else Ret () s)"

definition kmem_release :: "'a kmem_scheme \<Rightarrow> (unit, 'a kmem_scheme) res" where
  "kmem_release s = (if use_lock s then lock_release LKmem s else Ret () s)"

definition kfree :: "u32 \<Rightarrow> 'a kmem_scheme \<Rightarrow> (unit, 'a kmem_scheme) res" where
  "kfree v s =
     (if v mod PGSIZE \<noteq> 0 \<or> v < kend s \<or> V2P v \<ge> PHYSTOP then Panic ''kfree''
      else kbind (kmem_acquire (s\<lparr>mem := memset (mem s) v 1 4096\<rparr>)) (\<lambda>_ s.
           kmem_release (s\<lparr>mem := store32 (mem s) v (freelist s), freelist := v,
                           freemems := freemems s + 1\<rparr>)))"

definition kalloc :: "'a kmem_scheme \<Rightarrow> (u32, 'a kmem_scheme) res" where
  "kalloc s =
     kbind (kmem_acquire s) (\<lambda>_ s.
       let r = freelist s;
           s = (if r \<noteq> 0 then s\<lparr>freelist := load32 (mem s) r\<rparr> else s)
       in kbind (kmem_release (s\<lparr>freemems := freemems s - 1\<rparr>)) (\<lambda>_ s. Ret r s))"

text \<open>Pages that \<^verbatim>\<open>kfree\<close> accepts.\<close>

definition page_ok :: "u32 \<Rightarrow> u32 \<Rightarrow> bool" where
  "page_ok e v \<longleftrightarrow> v mod PGSIZE = 0 \<and> \<not> v < e \<and> V2P v < PHYSTOP"

lemma page_ok_range: "page_ok e v \<Longrightarrow> 0x80000000 \<le> unat v \<and> unat v + 4096 \<le> 0x8E000000"
proof -
  assume ok: "page_ok e v"
  then have "V2P v < PHYSTOP" by (simp add: page_ok_def)
  then have "KERNBASE \<le> v \<and> unat v < 0x8E000000"
    by (simp add: V2P_def word_le_nat_alt word_less_nat_alt unat_sub_if' split: if_splits)
  moreover have "unat v mod 4096 = 0" using ok by (simp add: page_ok_def flip: pg_aligned_def pg_aligned_unat)
  ultimately show ?thesis
    using multiple_gap [of "unat v" 4096 "0x8E000000"] by (simp add: word_le_nat_alt)
qed

lemma kfree_Ret_page_ok: "kfree v s = Ret u s' \<Longrightarrow> page_ok (kend s) v"
  by (auto simp: kfree_def page_ok_def not_le split: if_splits)

text \<open>
  The loop of \<^verbatim>\<open>freerange\<close>. It ends because \<^verbatim>\<open>kfree\<close> panics on any page above the end of physical
  memory, so the distance from \<open>p\<close> to it shrinks in every pass.
\<close>

function freerange_loop :: "u32 \<Rightarrow> u32 \<Rightarrow> 'a kmem_scheme \<Rightarrow> (unit, 'a kmem_scheme) res" where
  "freerange_loop p vend s =
     (if p + PGSIZE \<le> vend
      then kbind (kfree p s) (\<lambda>_ s. freerange_loop (p + PGSIZE) vend s)
      else Ret () s)"
  by pat_completeness auto
termination
proof (relation "measure (\<lambda>(p, vend, s). 0x8E000000 - unat p)")
  fix p vend :: u32 and s :: "'a kmem_scheme" and u s'
  assume "kfree p s = Ret u s'"
  then have "unat p + 4096 \<le> 0x8E000000"
    using page_ok_range kfree_Ret_page_ok by blast
  moreover from this have "unat (p + PGSIZE) = unat p + 4096"
    by (simp add: unat_word_ariths)
  ultimately show "((p + PGSIZE, vend, s'), (p, vend, s)) \<in> measure (\<lambda>(p, vend, s). 0x8E000000 - unat p)"
    by simp
qed simp

declare freerange_loop.simps [simp del]

definition freerange :: "u32 \<Rightarrow> u32 \<Rightarrow> 'a kmem_scheme \<Rightarrow> (unit, 'a kmem_scheme) res" where
  "freerange vstart vend s = freerange_loop (PGROUNDUP vstart) vend s"

definition kinit1 :: "u32 \<Rightarrow> u32 \<Rightarrow> 'a kmem_scheme \<Rightarrow> (unit, 'a kmem_scheme) res" where
  "kinit1 vstart vend s = freerange vstart vend (s\<lparr>held := removeAll LKmem (held s), use_lock := False\<rparr>)"

definition kinit2 :: "u32 \<Rightarrow> u32 \<Rightarrow> 'a kmem_scheme \<Rightarrow> (unit, 'a kmem_scheme) res" where
  "kinit2 vstart vend s = kbind (freerange vstart vend s) (\<lambda>_ s. Ret () (s\<lparr>use_lock := True\<rparr>))"

text \<open>\<^verbatim>\<open>freemem\<close> (\<^verbatim>\<open>vm.c\<close>) reports the counter.\<close>

definition freemem :: "'a kmem_scheme \<Rightarrow> int" where
  "freemem s = freemems s"

section \<open>The free list in memory\<close>

primrec flist :: "mem \<Rightarrow> u32 \<Rightarrow> u32 list \<Rightarrow> bool" where
  "flist m h [] \<longleftrightarrow> h = 0"
| "flist m h (x # xs) \<longleftrightarrow> h = x \<and> x \<noteq> 0 \<and> flist m (load32 m x) xs"

definition free_pages :: "'a kmem_scheme \<Rightarrow> u32 list \<Rightarrow> bool" where
  "free_pages s xs \<longleftrightarrow> flist (mem s) (freelist s) xs \<and> distinct xs \<and>
     (\<forall>x\<in>set xs. page_ok (kend s) x) \<and> LKmem \<notin> set (held s)"

lemma page_ok_aligned: "page_ok e v \<Longrightarrow> pg_aligned v"
  by (simp add: page_ok_def pg_aligned_def)

lemma page_ok_nonzero: "page_ok e v \<Longrightarrow> v \<noteq> 0"
  using page_ok_range [of e v] by auto

lemma pg_aligned_aligned4: "pg_aligned a \<Longrightarrow> aligned4 a"
  using mod_mod_cancel [of 4 4096 "unat a"] by (simp add: pg_aligned_unat aligned4_unat)

text \<open>Addresses inside different pages differ by at least a page.\<close>

lemma page_disjoint:
  fixes x v :: u32
  assumes "pg_aligned x" "pg_aligned v" "x \<noteq> v" "k < 4096"
  shows "\<not> unat (x + of_nat k - v) < 4096"
proof -
  have "pg_aligned (x - v)" using assms by (simp add: pg_aligned_diff)
  then have d: "unat (x - v) mod 4096 = 0" by (simp add: pg_aligned_unat)
  have "unat (x - v) \<noteq> 0" using assms(3) by (simp add: unat_eq_0)
  then have lo: "4096 \<le> unat (x - v)" using d by (meson dvd_eq_mod_eq_0 dvd_imp_le gr0I)
  from multiple_gap [OF d _ unat_lt32] have "unat (x - v) + k < 2 ^ 32" using assms(4) by simp
  then have "unat (x - v + of_nat k) = unat (x - v) + k"
    using assms(4) by (simp add: unat_word_ariths unat_of_nat)
  moreover have eq: "x + of_nat k - v = x - v + of_nat k" by simp
  ultimately show ?thesis unfolding eq using lo by simp
qed

text \<open>A memory that differs from another only inside the page at \<open>v\<close>.\<close>

definition same_outside :: "u32 \<Rightarrow> mem \<Rightarrow> mem \<Rightarrow> bool" where
  "same_outside v m m' \<longleftrightarrow> (\<forall>a. \<not> unat (a - v) < 4096 \<longrightarrow> m' a = m a)"

lemma load32_outside:
  assumes "same_outside v m m'" "pg_aligned x" "pg_aligned v" "x \<noteq> v" "k \<le> 4092"
  shows "load32 m' (x + of_nat k) = load32 m (x + of_nat k)"
proof -
  have "m' (x + of_nat (k + i)) = m (x + of_nat (k + i))" if "i < 4" for i
    using assms that page_disjoint [of x v "k + i"] by (simp add: same_outside_def)
  from this [of 0] this [of 1] this [of 2] this [of 3] show ?thesis
    by (simp add: load32_def ac_simps)
qed

lemma load32_page_outside:
  "same_outside v m m' \<Longrightarrow> pg_aligned x \<Longrightarrow> pg_aligned v \<Longrightarrow> x \<noteq> v \<Longrightarrow> load32 m' x = load32 m x"
  using load32_outside [of v m m' x 0] by simp

lemma flist_outside:
  assumes "same_outside v m m'" "pg_aligned v" "v \<notin> set xs" "\<forall>x\<in>set xs. pg_aligned x"
  shows "flist m' h xs \<longleftrightarrow> flist m h xs"
  using assms by (induction xs arbitrary: h) (auto simp: load32_page_outside)

lemma same_outside_memset: "same_outside v m (memset m v c 4096)"
  by (simp add: same_outside_def memset_apply)

lemma same_outside_store32:
  assumes "pg_aligned v"
  shows "same_outside v m (store32 m v w)"
proof -
  have "unat (v + 1 - v) < 4096" "unat (v + 2 - v) < 4096" "unat (v + 3 - v) < 4096" by simp_all
  then show ?thesis by (auto simp: same_outside_def store32_def)
qed

lemma same_outside_trans: "same_outside v m m' \<Longrightarrow> same_outside v m' m'' \<Longrightarrow> same_outside v m m''"
  by (simp add: same_outside_def)

section \<open>Specification of the operations\<close>

lemma kmem_bracket [simp]:
  "LKmem \<notin> set (held s) \<Longrightarrow> kmem_acquire s = Ret () (s\<lparr>held := (if use_lock s then [LKmem] else []) @ held s\<rparr>)"
  by (simp add: kmem_acquire_def)

lemma kmem_release_after [simp]:
  "held s = (if use_lock s then [LKmem] else []) @ h \<Longrightarrow> kmem_release s = Ret () (s\<lparr>held := h\<rparr>)"
  by (simp add: kmem_release_def)

lemma kfree_eq:
  assumes "page_ok (kend s) v" "LKmem \<notin> set (held s)"
  shows "kfree v s = Ret () (s\<lparr>mem := store32 (memset (mem s) v 1 4096) v (freelist s),
     freelist := v, freemems := freemems s + 1\<rparr>)"
  using assms by (auto simp: kfree_def page_ok_def not_le)

lemma kalloc_eq:
  assumes "LKmem \<notin> set (held s)"
  shows "kalloc s = Ret (freelist s)
     (s\<lparr>freelist := (if freelist s \<noteq> 0 then load32 (mem s) (freelist s) else freelist s),
        freemems := freemems s - 1\<rparr>)"
  using assms by (simp add: kalloc_def Let_def)

lemma kfree_free_pages:
  assumes "free_pages s xs" "page_ok (kend s) v" "v \<notin> set xs"
  shows "\<exists>s'. kfree v s = Ret () s' \<and> free_pages s' (v # xs) \<and> freemems s' = freemems s + 1 \<and>
     same_outside v (mem s) (mem s') \<and> held s' = held s \<and> kend s' = kend s"
proof -
  let ?m = "store32 (memset (mem s) v 1 4096) v (freelist s)"
  have al: "pg_aligned v" "\<forall>x\<in>set xs. pg_aligned x"
    using assms by (auto simp: free_pages_def page_ok_aligned)
  have so: "same_outside v (mem s) ?m"
    using same_outside_memset same_outside_store32 [OF al(1)] by (rule same_outside_trans)
  then have "flist ?m (freelist s) xs"
    using assms al flist_outside by (simp add: free_pages_def)
  then show ?thesis
    using assms so by (auto simp: kfree_eq free_pages_def page_ok_nonzero)
qed

lemma kalloc_free_pages:
  assumes "free_pages s xs"
  shows "\<exists>s'. kalloc s = Ret (case xs of [] \<Rightarrow> 0 | x # _ \<Rightarrow> x) s' \<and> free_pages s' (tl xs) \<and>
     freemems s' = freemems s - 1 \<and> mem s' = mem s \<and> held s' = held s \<and> kend s' = kend s"
  using assms by (cases xs) (auto simp: free_pages_def kalloc_eq)

section \<open>The allocator interface\<close>

text \<open>
  What the allocator promises: \<open>frees s xs\<close> says that the free pages of state \<open>s\<close> are \<open>xs\<close>,
  allocation takes the first of them (and returns 0 when there is none), and freeing a valid page
  that is not already free puts it in front.
\<close>

locale page_allocator =
  fixes alloc :: "'s \<Rightarrow> (u32, 's) res"
    and free :: "u32 \<Rightarrow> 's \<Rightarrow> (unit, 's) res"
    and frees :: "'s \<Rightarrow> u32 list \<Rightarrow> bool"
    and valid :: "'s \<Rightarrow> u32 \<Rightarrow> bool"
  assumes alloc_law: "frees s xs \<Longrightarrow>
      \<exists>s'. alloc s = Ret (case xs of [] \<Rightarrow> 0 | x # _ \<Rightarrow> x) s' \<and> frees s' (tl xs) \<and> valid s' = valid s"
    and free_law: "frees s xs \<Longrightarrow> valid s v \<Longrightarrow> v \<notin> set xs \<Longrightarrow>
      \<exists>s'. free v s = Ret () s' \<and> frees s' (v # xs) \<and> valid s' = valid s"
    and frees_valid: "frees s xs \<Longrightarrow> x \<in> set xs \<Longrightarrow> valid s x"
    and frees_distinct: "frees s xs \<Longrightarrow> distinct xs"
    and valid_nonzero: "valid s v \<Longrightarrow> v \<noteq> 0"
begin

text \<open>\<open>n\<close> allocations in a row, collecting the pages; the clients of the allocator do this.\<close>

primrec alloc_many :: "nat \<Rightarrow> 's \<Rightarrow> (u32 list, 's) res" where
  "alloc_many 0 s = Ret [] s"
| "alloc_many (Suc n) s = kbind (alloc s) (\<lambda>x s. kbind (alloc_many n s) (\<lambda>ys s. Ret (x # ys) s))"

primrec free_many :: "u32 list \<Rightarrow> 's \<Rightarrow> (unit, 's) res" where
  "free_many [] s = Ret () s"
| "free_many (x # xs) s = kbind (free x s) (\<lambda>_ s. free_many xs s)"

lemma alloc_many_spec:
  "frees s xs \<Longrightarrow> n \<le> length xs \<Longrightarrow>
   \<exists>s'. alloc_many n s = Ret (take n xs) s' \<and> frees s' (drop n xs) \<and> valid s' = valid s"
proof (induction n arbitrary: s xs)
  case (Suc n)
  then obtain x ys where xs: "xs = x # ys" by (cases xs) auto
  obtain s1 where s1: "alloc s = Ret x s1" "frees s1 ys" "valid s1 = valid s"
    using alloc_law [OF Suc.prems(1)] xs by auto
  with Suc.IH [of s1 ys] Suc.prems(2) xs show ?case by auto
qed simp

lemma free_many_spec:
  "frees s xs \<Longrightarrow> distinct ys \<Longrightarrow> set ys \<inter> set xs = {} \<Longrightarrow> \<forall>y\<in>set ys. valid s y \<Longrightarrow>
   \<exists>s'. free_many ys s = Ret () s' \<and> frees s' (rev ys @ xs) \<and> valid s' = valid s"
proof (induction ys arbitrary: s xs)
  case (Cons y ys)
  then obtain s1 where s1: "free y s = Ret () s1" "frees s1 (y # xs)" "valid s1 = valid s"
    using free_law [of s xs y] by auto
  with Cons.IH [of s1 "y # xs"] Cons.prems show ?case by auto
qed simp

text \<open>Pages handed out together are valid, pairwise different and no longer free.\<close>

lemma alloc_many_fresh:
  assumes "frees s xs" "n \<le> length xs"
  shows "\<exists>ps s'. alloc_many n s = Ret ps s' \<and> length ps = n \<and> distinct ps \<and>
     (\<forall>p\<in>set ps. p \<noteq> 0 \<and> valid s p) \<and> (\<exists>ys. frees s' ys \<and> set ps \<inter> set ys = {})"
proof -
  obtain s' where s': "alloc_many n s = Ret (take n xs) s'" "frees s' (drop n xs)"
    using alloc_many_spec [OF assms] by auto
  have "p \<noteq> 0 \<and> valid s p" if "p \<in> set (take n xs)" for p
    using in_set_takeD [OF that] assms(1) frees_valid valid_nonzero by blast
  moreover have "distinct xs" using assms(1) by (rule frees_distinct)
  moreover from this have "set (take n xs) \<inter> set (drop n xs) = {}"
    by (simp add: set_take_disj_set_drop_if_distinct)
  ultimately show ?thesis using s' assms(2)
    by (intro exI [of _ "take n xs"] exI [of _ s']) auto
qed

text \<open>Allocating and freeing again loses no page.\<close>

lemma alloc_free_many:
  assumes "frees s xs" "n \<le> length xs"
  shows "\<exists>ps s1 s2. alloc_many n s = Ret ps s1 \<and> free_many ps s1 = Ret () s2 \<and>
     (\<exists>ys. frees s2 ys \<and> set ys = set xs \<and> length ys = length xs)"
proof -
  obtain s1 where s1: "alloc_many n s = Ret (take n xs) s1" "frees s1 (drop n xs)" "valid s1 = valid s"
    using alloc_many_spec [OF assms] by auto
  have d: "distinct xs" using assms(1) by (rule frees_distinct)
  have "\<forall>y\<in>set (take n xs). valid s1 y" using s1(3) assms(1) frees_valid by (metis in_set_takeD)
  moreover have "set (take n xs) \<inter> set (drop n xs) = {}" "distinct (take n xs)"
    using d by (simp_all add: set_take_disj_set_drop_if_distinct)
  ultimately obtain s2 where s2: "free_many (take n xs) s1 = Ret () s2"
      "frees s2 (rev (take n xs) @ drop n xs)"
    using free_many_spec [OF s1(2)] by metis
  have "set (rev (take n xs) @ drop n xs) = set xs"
    by (metis append_take_drop_id set_append set_rev)
  moreover have "length (rev (take n xs) @ drop n xs) = length xs" using assms(2) by simp
  ultimately show ?thesis using s1(1) s2 by blast
qed

end

interpretation kalloc: page_allocator kalloc kfree free_pages "\<lambda>s. page_ok (kend s)"
proof unfold_locales
  fix s :: "'a kmem_scheme" and xs :: "u32 list"
  assume "free_pages s xs"
  then show "\<exists>s'. kalloc s = Ret (case xs of [] \<Rightarrow> 0 | x # _ \<Rightarrow> x) s' \<and> free_pages s' (tl xs) \<and>
      page_ok (kend s') = page_ok (kend s)"
    using kalloc_free_pages by fastforce
next
  fix s :: "'a kmem_scheme" and xs :: "u32 list" and v
  assume "free_pages s xs" "page_ok (kend s) v" "v \<notin> set xs"
  then show "\<exists>s'. kfree v s = Ret () s' \<and> free_pages s' (v # xs) \<and> page_ok (kend s') = page_ok (kend s)"
    using kfree_free_pages by fastforce
qed (auto simp: free_pages_def page_ok_nonzero)

section \<open>Properties\<close>

text \<open>
  C17. \<^verbatim>\<open>kalloc\<close> never hands out a page twice: \<open>n\<close> allocations in a row from a free list of at least \<open>n\<close>
  pages return \<open>n\<close> different, non-null, page-aligned pages below \<^verbatim>\<open>PHYSTOP\<close>, none of which is still
  on the free list.
\<close>

theorem kalloc_fresh:
  assumes "free_pages s xs" "n \<le> length xs"
  shows "\<exists>ps s'. kalloc.alloc_many n s = Ret ps s' \<and> length ps = n \<and> distinct ps \<and>
     (\<forall>p\<in>set ps. p \<noteq> 0 \<and> page_ok (kend s) p) \<and> (\<exists>ys. free_pages s' ys \<and> set ps \<inter> set ys = {})"
  by (rule kalloc.alloc_many_fresh [OF assms])

text \<open>A small concrete allocator state: two free pages above a kernel that ends at \<open>0x80100000\<close>.\<close>

definition kmem_ex :: kmem where
  "kmem_ex = \<lparr>held = [], mem = store32 (\<lambda>_. 0) 0x80200000 0x80201000, use_lock = True,
     freelist = 0x80200000, freemems = 2, kend = 0x80100000\<rparr>"

lemma load32_zero [simp]: "load32 (\<lambda>_. 0) a = 0"
  by (simp add: load32_def)

lemma free_pages_ex: "free_pages kmem_ex [0x80200000, 0x80201000]"
proof -
  have "load32 (store32 (\<lambda>_. 0) 0x80200000 0x80201000) 0x80201000 = 0"
    using load_store_other [of "0x80200000" "0x80201000"] by (simp add: aligned4_def)
  then show ?thesis
    by (simp add: kmem_ex_def free_pages_def page_ok_def V2P_def)
qed

theorem kalloc_fresh_witness:
  "\<exists>ps s'. kalloc.alloc_many 2 kmem_ex = Ret ps s' \<and> length ps = 2 \<and> distinct ps"
  using kalloc_fresh [OF free_pages_ex, of 2] by auto

text \<open>The page-aligned addresses of a range of \<open>n\<close> pages.\<close>

definition page_range :: "u32 \<Rightarrow> nat \<Rightarrow> u32 list" where
  "page_range p n = map (\<lambda>i. p + of_nat (4096 * i)) [0..<n]"

lemma page_range_Suc: "page_range p (Suc n) = p # page_range (p + 4096) n"
proof -
  have "[0..<Suc n] = 0 # map Suc [0..<n]" by (simp only: map_Suc_upt upt_conv_Cons zero_less_Suc)
  then show ?thesis by (simp add: page_range_def algebra_simps)
qed

lemma page_ok_in_range:
  assumes "pg_aligned p" "KERNBASE \<le> e" "e \<le> p" "unat p + 4096 \<le> 0x8E000000"
  shows "page_ok e p"
proof -
  have "KERNBASE \<le> p" using assms by simp
  then have "unat (V2P p) = unat p - 0x80000000" by (simp add: V2P_def unat_sub)
  then show ?thesis using assms
    by (simp add: page_ok_def pg_aligned_def word_less_nat_alt word_le_nat_alt)
qed

lemma freerange_loop_spec:
  fixes s :: "'a kmem_scheme"
  assumes "free_pages s xs" "pg_aligned p" "KERNBASE \<le> kend s" "kend s \<le> p"
    and "unat p + 4096 * n \<le> unat vend" "unat vend < unat p + 4096 * (n + 1)"
    and "unat vend \<le> 0x8E000000" "\<forall>x\<in>set xs. \<not> (p \<le> x \<and> x < vend)"
  shows "\<exists>s'. freerange_loop p vend s = Ret () s' \<and> free_pages s' (rev (page_range p n) @ xs) \<and>
     freemems s' = freemems s + int n \<and> held s' = held s \<and> kend s' = kend s"
  using assms
proof (induction n arbitrary: p s xs)
  case 0
  have "\<not> p + 4096 \<le> vend"
  proof -
    have "unat (p + 4096) = unat p + 4096" using 0 by (simp add: unat_word_ariths)
    then show ?thesis using 0 by (simp add: word_le_nat_alt)
  qed
  then show ?case using 0 by (simp add: freerange_loop.simps page_range_def)
next
  case (Suc n)
  have next_p: "unat (p + 4096) = unat p + 4096" using Suc.prems by (simp add: unat_word_ariths)
  have go: "p + 4096 \<le> vend" using Suc.prems next_p by (simp add: word_le_nat_alt)
  have lt: "p < p + 4096" "p < vend" using next_p Suc.prems by (simp_all add: word_less_nat_alt)
  have ok: "page_ok (kend s) p" using Suc.prems by (intro page_ok_in_range) auto
  have "p \<notin> set xs" using Suc.prems(8) lt by auto
  then obtain s1 where s1: "kfree p s = Ret () s1" "free_pages s1 (p # xs)"
      "freemems s1 = freemems s + 1" "held s1 = held s" "kend s1 = kend s"
    using kfree_free_pages [OF Suc.prems(1) ok] by blast
  have "\<forall>x\<in>set (p # xs). \<not> (p + 4096 \<le> x \<and> x < vend)"
    using Suc.prems(8) lt by (auto dest: order_trans [OF less_imp_le [OF lt(1)]])
  then obtain s2 where "freerange_loop (p + 4096) vend s1 = Ret () s2"
      "free_pages s2 (rev (page_range (p + 4096) n) @ p # xs)"
      "freemems s2 = freemems s1 + int n" "held s2 = held s1" "kend s2 = kend s1"
    using Suc.IH [OF s1(2), of "p + 4096"] Suc.prems s1(5) next_p lt
    by (auto simp: pg_aligned_add word_le_nat_alt)
  then show ?case using s1 go by (simp add: freerange_loop.simps [of p] page_range_Suc)
qed

text \<open>
  \<^verbatim>\<open>freerange(vstart, vend)\<close> puts exactly the whole pages between the two addresses on the free
  list, in front of what was there, and counts them: it terminates without a panic for any
  range between the end of the kernel and the end of physical memory that holds no free page yet.
\<close>

lemma freerange_frees_range:
  fixes s :: "'a kmem_scheme"
  assumes "free_pages s xs" "KERNBASE \<le> kend s" "kend s \<le> PGROUNDUP vstart"
    and "PGROUNDUP vstart \<le> vend" "unat vend \<le> 0x8E000000"
    and "\<forall>x\<in>set xs. \<not> (PGROUNDUP vstart \<le> x \<and> x < vend)"
  shows "\<exists>s' n. freerange vstart vend s = Ret () s' \<and>
     n = (unat vend - unat (PGROUNDUP vstart)) div 4096 \<and>
     free_pages s' (rev (page_range (PGROUNDUP vstart) n) @ xs) \<and>
     freemem s' = freemem s + int n \<and> held s' = held s"
proof -
  let ?p = "PGROUNDUP vstart"
  define n where "n = (unat vend - unat ?p) div 4096"
  have "unat ?p \<le> unat vend" using assms(4) by (simp add: word_le_nat_alt)
  then obtain d where d: "unat vend = unat ?p + d" using le_Suc_ex by blast
  then have n: "n = d div 4096" by (simp add: n_def)
  have "unat ?p + 4096 * n \<le> unat vend" unfolding n d by linarith
  moreover have "unat vend < unat ?p + 4096 * (n + 1)"
    unfolding n d using dividend_less_times_div [of 4096 d] by simp
  ultimately show ?thesis
    using freerange_loop_spec [OF assms(1) pg_aligned_PGROUNDUP assms(2,3) _ _ assms(5,6)] n_def
    by (auto simp: freerange_def freemem_def)
qed

text \<open>
  The counter behind \<^verbatim>\<open>freemem\<close> is exact only until the allocator runs out of pages: an
  allocation from a non-empty free list and every free keep it equal to the number of free
  pages, but an allocation that fails (result 0) still decrements it, so with no free page left it
  becomes negative.
\<close>

lemma freemem_counter:
  assumes "free_pages s xs" "freemem s = int (length xs)"
  shows "(\<forall>x ys. xs = x # ys \<longrightarrow>
           (\<exists>s'. kalloc s = Ret x s' \<and> free_pages s' ys \<and> freemem s' = int (length ys))) \<and>
         (\<forall>v. page_ok (kend s) v \<and> v \<notin> set xs \<longrightarrow>
           (\<exists>s'. kfree v s = Ret () s' \<and> free_pages s' (v # xs) \<and> freemem s' = int (length (v # xs)))) \<and>
         (xs = [] \<longrightarrow> (\<exists>s'. kalloc s = Ret 0 s' \<and> free_pages s' [] \<and> freemem s' = -1))"
  using kalloc_free_pages [OF assms(1)] kfree_free_pages [OF assms(1)] assms(2)
  by (fastforce simp: freemem_def)

end
