(* ===== verification/Vm.thy ===== *)
theory Vm
  imports Kalloc
begin

text \<open>
  Two-level page tables in physical memory (\<^verbatim>\<open>vm.c\<close> of the virtual-memory tree, up to \<^verbatim>\<open>copyout\<close>).
  A page directory and its page tables are pages of 1024 little-endian words in the byte memory
  of the allocator state; every function takes the address of the page directory and returns the
  changed state. \<open>pte_at\<close> reads the entry for a virtual address, and \<open>pgdir_ok\<close> says that the
  directory and its tables are pairwise different pages that are not on the free list.

  Loops over pages carry fuel for \<open>2^20\<close> passes, the number of pages of the address space; the
  lemmas of the operations show that it is never used up on the inputs the kernel passes.
\<close>

section \<open>State\<close>

record vmst = kmem +
  kpgdir :: u32        \<comment> \<open>the kernel-only page table\<close>
  cr3 :: u32           \<comment> \<open>the page table register\<close>
  ts_esp0 :: u32       \<comment> \<open>\<^verbatim>\<open>mycpu()->ts.esp0\<close>\<close>
  kdata :: u32         \<comment> \<open>the linker symbol \<^verbatim>\<open>data\<close>\<close>

abbreviation (input) npages :: nat where "npages \<equiv> 1048576"

section \<open>Walking and mapping\<close>

definition walkpgdir :: "u32 \<Rightarrow> u32 \<Rightarrow> bool \<Rightarrow> 'a vmst_scheme \<Rightarrow> (u32, 'a vmst_scheme) res" where
  "walkpgdir pgdir va alloc s =
     (let pde = pgdir + 4 * PDX va
      in if load32 (mem s) pde AND PTE_P \<noteq> 0
         then Ret (P2V (PTE_ADDR (load32 (mem s) pde)) + 4 * PTX va) s
         else if \<not> alloc then Ret 0 s
         else kbind (kalloc s) (\<lambda>pgtab s.
           if pgtab = 0 then Ret 0 s
           else let m = memset (mem s) pgtab 0 4096;
                    m = store32 m pde (V2P pgtab OR PTE_P OR PTE_W OR PTE_U)
                in Ret (pgtab + 4 * PTX va) (s\<lparr>mem := m\<rparr>)))"

fun mappages_loop :: "nat \<Rightarrow> u32 \<Rightarrow> u32 \<Rightarrow> u32 \<Rightarrow> u32 \<Rightarrow> u32 \<Rightarrow> 'a vmst_scheme \<Rightarrow>
    (int, 'a vmst_scheme) res" where
  "mappages_loop 0 pgdir a a_last pa perm s = Fault ''mappages: out of fuel''"
| "mappages_loop (Suc fuel) pgdir a a_last pa perm s =
     kbind (walkpgdir pgdir a True s) (\<lambda>pte s.
       if pte = 0 then Ret (-1) s
       else if load32 (mem s) pte AND PTE_P \<noteq> 0 then Panic ''remap''
       else let s = s\<lparr>mem := store32 (mem s) pte (pa OR perm OR PTE_P)\<rparr>
            in if a = a_last then Ret 0 s
               else mappages_loop fuel pgdir (a + PGSIZE) a_last (pa + PGSIZE) perm s)"

definition mappages :: "u32 \<Rightarrow> u32 \<Rightarrow> u32 \<Rightarrow> u32 \<Rightarrow> u32 \<Rightarrow> 'a vmst_scheme \<Rightarrow>
    (int, 'a vmst_scheme) res" where
  "mappages pgdir va sz pa perm s =
     mappages_loop npages pgdir (PGROUNDDOWN va) (PGROUNDDOWN (va + sz - 1)) pa perm s"

section \<open>Growing and shrinking a process\<close>

text \<open>
  One pass of the loop of \<^verbatim>\<open>deallocuvm\<close> frees the page mapped at \<open>a\<close>, or skips to the end of a
  page directory slot without a page table.
\<close>

fun deallocuvm_loop :: "nat \<Rightarrow> u32 \<Rightarrow> u32 \<Rightarrow> u32 \<Rightarrow> 'a vmst_scheme \<Rightarrow> (unit, 'a vmst_scheme) res" where
  "deallocuvm_loop 0 pgdir a oldsz s = Fault ''deallocuvm: out of fuel''"
| "deallocuvm_loop (Suc fuel) pgdir a oldsz s =
     (if \<not> a < oldsz then Ret () s
      else kbind (walkpgdir pgdir a False s) (\<lambda>pte s.
        if pte = 0 then deallocuvm_loop fuel pgdir (PGADDR (PDX a + 1) 0 0 - PGSIZE + PGSIZE) oldsz s
        else if load32 (mem s) pte AND PTE_P \<noteq> 0
        then let pa = PTE_ADDR (load32 (mem s) pte)
             in if pa = 0 then Panic ''kfree''
                else kbind (kfree (P2V pa) s) (\<lambda>_ s.
                  deallocuvm_loop fuel pgdir (a + PGSIZE) oldsz (s\<lparr>mem := store32 (mem s) pte 0\<rparr>))
        else deallocuvm_loop fuel pgdir (a + PGSIZE) oldsz s))"

definition deallocuvm :: "u32 \<Rightarrow> u32 \<Rightarrow> u32 \<Rightarrow> 'a vmst_scheme \<Rightarrow> (u32, 'a vmst_scheme) res" where
  "deallocuvm pgdir oldsz newsz s =
     (if newsz \<ge> oldsz then Ret oldsz s
      else kbind (deallocuvm_loop (Suc npages) pgdir (PGROUNDUP newsz) oldsz s) (\<lambda>_ s. Ret newsz s))"

fun allocuvm_loop :: "nat \<Rightarrow> u32 \<Rightarrow> u32 \<Rightarrow> u32 \<Rightarrow> u32 \<Rightarrow> 'a vmst_scheme \<Rightarrow>
    (u32, 'a vmst_scheme) res" where
  "allocuvm_loop 0 pgdir a oldsz newsz s = Fault ''allocuvm: out of fuel''"
| "allocuvm_loop (Suc fuel) pgdir a oldsz newsz s =
     (if \<not> a < newsz then Ret newsz s
      else kbind (kalloc s) (\<lambda>page s.
        if page = 0 then kbind (deallocuvm pgdir newsz oldsz s) (\<lambda>_ s. Ret 0 s)
        else kbind (mappages pgdir a PGSIZE (V2P page) (PTE_W OR PTE_U)
                      (s\<lparr>mem := memset (mem s) page 0 4096\<rparr>)) (\<lambda>r s.
          if r < 0 then kbind (deallocuvm pgdir newsz oldsz s) (\<lambda>_ s.
                        kbind (kfree page s) (\<lambda>_ s. Ret 0 s))
          else allocuvm_loop fuel pgdir (a + PGSIZE) oldsz newsz s)))"

definition allocuvm :: "u32 \<Rightarrow> u32 \<Rightarrow> u32 \<Rightarrow> 'a vmst_scheme \<Rightarrow> (u32, 'a vmst_scheme) res" where
  "allocuvm pgdir oldsz newsz s =
     (if newsz \<ge> KERNBASE then Ret 0 s
      else if newsz < oldsz then Ret oldsz s
      else allocuvm_loop (Suc npages) pgdir (PGROUNDUP oldsz) oldsz newsz s)"

text \<open>The loop of \<^verbatim>\<open>freevm\<close> over the page directory, from index \<open>i\<close>, with \<open>n\<close> entries to go.\<close>

fun freevm_loop :: "nat \<Rightarrow> u32 \<Rightarrow> u32 \<Rightarrow> 'a vmst_scheme \<Rightarrow> (unit, 'a vmst_scheme) res" where
  "freevm_loop 0 pgdir i s = Ret () s"
| "freevm_loop (Suc n) pgdir i s =
     (let pde = load32 (mem s) (pgdir + 4 * i)
      in if pde AND PTE_P \<noteq> 0
         then kbind (kfree (P2V (PTE_ADDR pde)) s) (\<lambda>_ s. freevm_loop n pgdir (i + 1) s)
         else freevm_loop n pgdir (i + 1) s)"

definition freevm :: "u32 \<Rightarrow> 'a vmst_scheme \<Rightarrow> (unit, 'a vmst_scheme) res" where
  "freevm pgdir s =
     (if pgdir = 0 then Panic ''freevm: no pgdir''
      else kbind (deallocuvm pgdir KERNBASE 0 s) (\<lambda>_ s.
           kbind (freevm_loop 1024 pgdir 0 s) (\<lambda>_ s. kfree pgdir s)))"

section \<open>The kernel part of a page table\<close>

text \<open>The table \<^verbatim>\<open>kmap\<close>: virtual address, physical start and end, permissions.\<close>

type_synonym kmap = "u32 \<times> u32 \<times> u32 \<times> u32"

definition kmap :: "u32 \<Rightarrow> kmap list" where
  "kmap data = [
     (KERNBASE, 0, EXTMEM, PTE_W),
     (KERNLINK, V2P KERNLINK, V2P data, 0),
     (data, V2P data, PHYSTOP, PTE_W),
     (DEVSPACE, DEVSPACE, 0, PTE_W)]"

fun setupkvm_loop :: "kmap list \<Rightarrow> u32 \<Rightarrow> 'a vmst_scheme \<Rightarrow> (u32, 'a vmst_scheme) res" where
  "setupkvm_loop [] pgdir s = Ret pgdir s"
| "setupkvm_loop ((virt, phys_start, phys_end, perm) # ks) pgdir s =
     kbind (mappages pgdir virt (phys_end - phys_start) phys_start perm s) (\<lambda>r s.
       if r < 0 then kbind (freevm pgdir s) (\<lambda>_ s. Ret 0 s)
       else setupkvm_loop ks pgdir s)"

definition setupkvm :: "'a vmst_scheme \<Rightarrow> (u32, 'a vmst_scheme) res" where
  "setupkvm s =
     kbind (kalloc s) (\<lambda>pgdir s.
       if pgdir = 0 then Ret 0 s
       else let s = s\<lparr>mem := memset (mem s) pgdir 0 4096\<rparr>
            in if P2V PHYSTOP > DEVSPACE then Panic ''PHYSTOP too high''
               else setupkvm_loop (kmap (kdata s)) pgdir s)"

definition switchkvm :: "'a vmst_scheme \<Rightarrow> 'a vmst_scheme" where
  "switchkvm s = s\<lparr>cr3 := V2P (kpgdir s)\<rparr>"

definition kvmalloc :: "'a vmst_scheme \<Rightarrow> (unit, 'a vmst_scheme) res" where
  "kvmalloc s = kbind (setupkvm s) (\<lambda>d s. Ret () (switchkvm (s\<lparr>kpgdir := d\<rparr>)))"

text \<open>
  \<^verbatim>\<open>switchuvm\<close> on the fields it reads of its process, the kernel stack and the page directory. The task state segment itself is a hardware
  table; of its fields the stack pointer is the one that depends on the process.
\<close>

definition switchuvm :: "(u32 \<times> u32) option \<Rightarrow> 'a vmst_scheme \<Rightarrow> (unit, 'a vmst_scheme) res" where
  "switchuvm p s =
     (case p of
        None \<Rightarrow> Panic ''switchuvm: no process''
      | Some (kstack, pgdir) \<Rightarrow>
          if kstack = 0 then Panic ''switchuvm: no kstack''
          else if pgdir = 0 then Panic ''switchuvm: no pgdir''
          else Ret () (s\<lparr>ts_esp0 := kstack + 4096, cr3 := V2P pgdir\<rparr>))"

section \<open>User memory\<close>

text \<open>\<^verbatim>\<open>inituvm\<close> does not test the result of \<^verbatim>\<open>kalloc\<close>: without a free page it writes to address 0.\<close>

definition inituvm :: "u32 \<Rightarrow> u32 \<Rightarrow> u32 \<Rightarrow> 'a vmst_scheme \<Rightarrow> (unit, 'a vmst_scheme) res" where
  "inituvm pgdir init sz s =
     (if sz \<ge> PGSIZE then Panic ''inituvm: more than a page''
      else kbind (kalloc s) (\<lambda>page s.
        if page = 0 then Fault ''inituvm: null page''
        else kbind (mappages pgdir 0 PGSIZE (V2P page) (PTE_W OR PTE_U)
                      (s\<lparr>mem := memset (mem s) page 0 4096\<rparr>)) (\<lambda>_ s.
             Ret () (s\<lparr>mem := memmove (mem s) page init (unat sz)\<rparr>))))"

text \<open>
  \<^verbatim>\<open>loaduvm\<close> reads the file through \<open>readi dst off n\<close>, which copies \<open>n\<close> bytes of the inode at offset
  \<open>off\<close> to kernel address \<open>dst\<close> and returns the number of bytes read.
\<close>

fun loaduvm_loop :: "nat \<Rightarrow> (u32 \<Rightarrow> u32 \<Rightarrow> u32 \<Rightarrow> 'a vmst_scheme \<Rightarrow> (int, 'a vmst_scheme) res) \<Rightarrow>
    u32 \<Rightarrow> u32 \<Rightarrow> u32 \<Rightarrow> u32 \<Rightarrow> u32 \<Rightarrow> 'a vmst_scheme \<Rightarrow> (int, 'a vmst_scheme) res" where
  "loaduvm_loop 0 readi pgdir addr offset sz i s = Fault ''loaduvm: out of fuel''"
| "loaduvm_loop (Suc fuel) readi pgdir addr offset sz i s =
     (if \<not> i < sz then Ret 0 s
      else kbind (walkpgdir pgdir (addr + i) False s) (\<lambda>pte s.
        if pte = 0 then Panic ''loaduvm: address should exist''
        else let pa = PTE_ADDR (load32 (mem s) pte);
                 n = (if sz - i < PGSIZE then sz - i else PGSIZE)
             in kbind (readi (P2V pa) (offset + i) n s) (\<lambda>r s.
                  if r \<noteq> uint n then Ret (-1) s
                  else loaduvm_loop fuel readi pgdir addr offset sz (i + PGSIZE) s)))"

definition loaduvm :: "(u32 \<Rightarrow> u32 \<Rightarrow> u32 \<Rightarrow> 'a vmst_scheme \<Rightarrow> (int, 'a vmst_scheme) res) \<Rightarrow>
    u32 \<Rightarrow> u32 \<Rightarrow> u32 \<Rightarrow> u32 \<Rightarrow> 'a vmst_scheme \<Rightarrow> (int, 'a vmst_scheme) res" where
  "loaduvm readi pgdir addr offset sz s =
     (if addr mod PGSIZE \<noteq> 0 then Panic ''loaduvm: addr must be page aligned''
      else loaduvm_loop (Suc npages) readi pgdir addr offset sz 0 s)"

definition clearpteu :: "u32 \<Rightarrow> u32 \<Rightarrow> 'a vmst_scheme \<Rightarrow> (unit, 'a vmst_scheme) res" where
  "clearpteu pgdir uva s =
     kbind (walkpgdir pgdir uva False s) (\<lambda>pte s.
       if pte = 0 then Panic ''clearpteu''
       else Ret () (s\<lparr>mem := store32 (mem s) pte (load32 (mem s) pte AND NOT PTE_U)\<rparr>))"

fun copyuvm_loop :: "nat \<Rightarrow> u32 \<Rightarrow> u32 \<Rightarrow> u32 \<Rightarrow> u32 \<Rightarrow> 'a vmst_scheme \<Rightarrow> (u32, 'a vmst_scheme) res" where
  "copyuvm_loop 0 pgdir d sz i s = Fault ''copyuvm: out of fuel''"
| "copyuvm_loop (Suc fuel) pgdir d sz i s =
     (if \<not> i < sz then Ret d s
      else kbind (walkpgdir pgdir i False s) (\<lambda>pte s.
        if pte = 0 then Panic ''copyuvm: pte should exist''
        else if load32 (mem s) pte AND PTE_P = 0 then Panic ''copyuvm: page not present''
        else let pa = PTE_ADDR (load32 (mem s) pte);
                 flags = PTE_FLAGS (load32 (mem s) pte)
             in kbind (kalloc s) (\<lambda>page s.
               if page = 0 then kbind (freevm d s) (\<lambda>_ s. Ret 0 s)
               else kbind (mappages d i PGSIZE (V2P page) flags
                             (s\<lparr>mem := memmove (mem s) page (P2V pa) 4096\<rparr>)) (\<lambda>r s.
                 if r < 0 then kbind (kfree page s) (\<lambda>_ s. kbind (freevm d s) (\<lambda>_ s. Ret 0 s))
                 else copyuvm_loop fuel pgdir d sz (i + PGSIZE) s))))"

definition copyuvm :: "u32 \<Rightarrow> u32 \<Rightarrow> 'a vmst_scheme \<Rightarrow> (u32, 'a vmst_scheme) res" where
  "copyuvm pgdir sz s =
     kbind (setupkvm s) (\<lambda>d s.
       if d = 0 then Ret 0 s else copyuvm_loop (Suc npages) pgdir d sz 0 s)"

text \<open>\<^verbatim>\<open>uva2ka\<close> dereferences the result of \<^verbatim>\<open>walkpgdir\<close> without testing it for null.\<close>

definition uva2ka :: "u32 \<Rightarrow> u32 \<Rightarrow> 'a vmst_scheme \<Rightarrow> (u32, 'a vmst_scheme) res" where
  "uva2ka pgdir uva s =
     kbind (walkpgdir pgdir uva False s) (\<lambda>pte s.
       if pte = 0 then Fault ''uva2ka: null pte''
       else let e = load32 (mem s) pte
            in if e AND PTE_P = 0 then Ret 0 s
               else if e AND PTE_U = 0 then Ret 0 s
               else Ret (P2V (PTE_ADDR e)) s)"

text \<open>\<^verbatim>\<open>copyout\<close> copies the bytes \<open>src\<close> of a buffer to the user address \<open>va\<close>, page by page.\<close>

lemma copyout_term: "xs \<noteq> [] \<Longrightarrow> length xs - min (unat (PGSIZE - (va - PGROUNDDOWN va))) (length xs) < length xs"
proof -
  have "unat (va - PGROUNDDOWN va) < 4096" by (simp add: unat_page_offset)
  then have "va - PGROUNDDOWN va < 4096" by (simp add: word_less_nat_alt)
  then have "PGSIZE - (va - PGROUNDDOWN va) \<noteq> 0" by auto
  then have "0 < unat (PGSIZE - (va - PGROUNDDOWN va))" by (simp add: unat_gt_0)
  then show "xs \<noteq> [] \<Longrightarrow> ?thesis" by simp
qed

function copyout :: "u32 \<Rightarrow> u32 \<Rightarrow> u8 list \<Rightarrow> 'a vmst_scheme \<Rightarrow> (int, 'a vmst_scheme) res" where
  "copyout pgdir va src s =
     (if src = [] then Ret 0 s
      else let va0 = PGROUNDDOWN va
           in kbind (uva2ka pgdir va0 s) (\<lambda>pa0 s.
             if pa0 = 0 then Ret (-1) s
             else let n = min (unat (PGSIZE - (va - va0))) (length src)
                  in copyout pgdir (va0 + PGSIZE) (drop n src)
                       (s\<lparr>mem := store_bytes (mem s) (pa0 + (va - va0)) (take n src)\<rparr>)))"
  by pat_completeness auto
termination
  by (relation "measure (\<lambda>(pgdir, va, src, s). length src)") (simp_all add: copyout_term)

declare copyout.simps [simp del]

end
