(* ===== verification/Pagetable.thy ===== *)
theory Pagetable
  imports Vm
begin

text \<open>
  What \<^verbatim>\<open>walkpgdir\<close> and \<^verbatim>\<open>mappages\<close> do to a page table. \<open>pte_at\<close> reads the entry for a virtual address
  out of the two levels in memory. \<open>vm_ok\<close> is the invariant of a page table next to the free list:
  directory and tables are valid, pairwise different pages that are not free. \<open>pt_step\<close> says what every
  operation keeps: the invariant, all pages of table and free list together, and all other memory.
\<close>

section \<open>Words inside pages\<close>

lemma page_word_addr:
  assumes "unat (i :: u32) < 1024"
  shows "v + 4 * i = v + of_nat (4 * unat i)" "4 * unat i \<le> 4092"
  using assms by simp_all

lemma aligned4_page_word:
  assumes "pg_aligned v"
  shows "aligned4 (v + 4 * i)"
proof -
  have "unat v mod 4 = 0"
    using assms mod_mod_cancel [of 4 4096 "unat v"] by (simp add: pg_aligned_unat)
  moreover have "unat (v + 4 * i) mod 4 = (unat v + 4 * unat i) mod 4"
    by (simp add: unat_word_ariths mod_add_right_eq mod_mod_cancel)
  ultimately show ?thesis by (simp add: aligned4_unat mod_add_left_eq)
qed

lemma four_inject:
  assumes "unat i < 1024" "unat j < 1024"
  shows "4 * i = 4 * j \<longleftrightarrow> i = (j :: u32)"
proof -
  have "unat (4 * i) = 4 * unat i" "unat (4 * j) = 4 * unat j"
    using assms by (simp_all add: unat_word_ariths)
  then show ?thesis by (metis mult_left_cancel word_unat_eq_iff zero_neq_numeral)
qed

lemma word_offset_in_page:
  assumes "unat (i :: u32) < 1024" "k < 4"
  shows "unat (v + 4 * i + of_nat k - v) < 4096"
proof -
  have n: "4 * unat i + k < 2 ^ 32" using assms by simp
  have "v + 4 * i + of_nat k - v = of_nat (4 * unat i + k)" by simp
  then have "unat (v + 4 * i + of_nat k - v) = 4 * unat i + k"
    using unat_of_nat32 [OF n] by (simp only:)
  with assms show ?thesis by simp
qed

lemma same_outside_store_word:
  assumes "pg_aligned v" "unat i < 1024"
  shows "same_outside v m (store32 m (v + 4 * i) w)"
  using word_offset_in_page [OF assms(2), of 0] word_offset_in_page [OF assms(2), of 1]
    word_offset_in_page [OF assms(2), of 2] word_offset_in_page [OF assms(2), of 3]
    by (auto simp: same_outside_def store32_def)

lemma load32_word_outside:
  assumes "same_outside v m m'" "pg_aligned x" "pg_aligned v" "x \<noteq> v" "unat i < 1024"
  shows "load32 m' (x + 4 * i) = load32 m (x + 4 * i)"
  using load32_outside [OF assms(1-4) page_word_addr(2) [OF assms(5)]]
  unfolding page_word_addr(1) [OF assms(5)] .

lemma load_store_word:
  assumes "pg_aligned v" "unat i < 1024" "unat j < 1024"
  shows "load32 (store32 m (v + 4 * i) w) (v + 4 * j) = (if j = i then w else load32 m (v + 4 * j))"
  using assms load_store_other [OF aligned4_page_word aligned4_page_word, of v v i j]
  by (auto simp: four_inject)

lemma load32_memset_word:
  assumes "unat i < 1024"
  shows "load32 (memset m v 0 4096) (v + 4 * i) = 0"
  using word_offset_in_page [OF assms, of 0] word_offset_in_page [OF assms, of 1]
    word_offset_in_page [OF assms, of 2] word_offset_in_page [OF assms, of 3]
    by (simp add: load32_def memset_apply)

section \<open>Reading a page table\<close>

definition pde_at :: "mem \<Rightarrow> u32 \<Rightarrow> u32 \<Rightarrow> u32" where
  "pde_at m pgdir i = load32 m (pgdir + 4 * i)"

definition table_at :: "mem \<Rightarrow> u32 \<Rightarrow> u32 \<Rightarrow> u32" where
  "table_at m pgdir i = P2V (PTE_ADDR (pde_at m pgdir i))"

definition present :: "u32 \<Rightarrow> bool" where
  "present e \<longleftrightarrow> e AND PTE_P \<noteq> 0"

definition pte_ptr :: "mem \<Rightarrow> u32 \<Rightarrow> u32 \<Rightarrow> u32" where
  "pte_ptr m pgdir va =
     (if present (pde_at m pgdir (PDX va)) then table_at m pgdir (PDX va) + 4 * PTX va else 0)"

definition pte_at :: "mem \<Rightarrow> u32 \<Rightarrow> u32 \<Rightarrow> u32" where
  "pte_at m pgdir va =
     (if present (pde_at m pgdir (PDX va)) then load32 m (pte_ptr m pgdir va) else 0)"

definition pgdir_ok :: "u32 \<Rightarrow> mem \<Rightarrow> u32 \<Rightarrow> u32 list \<Rightarrow> bool" where
  "pgdir_ok e m pgdir xs \<longleftrightarrow> page_ok e pgdir \<and> pgdir \<notin> set xs \<and>
     (\<forall>i. unat i < 1024 \<and> present (pde_at m pgdir i) \<longrightarrow>
        page_ok e (table_at m pgdir i) \<and> table_at m pgdir i \<notin> set xs \<and> table_at m pgdir i \<noteq> pgdir \<and>
        (\<forall>j. unat j < 1024 \<and> present (pde_at m pgdir j) \<and> table_at m pgdir j = table_at m pgdir i \<longrightarrow> j = i))"

definition vm_ok :: "'a vmst_scheme \<Rightarrow> u32 \<Rightarrow> u32 list \<Rightarrow> bool" where
  "vm_ok s pgdir xs \<longleftrightarrow> free_pages s xs \<and> pgdir_ok (kend s) (mem s) pgdir xs"

lemma present_0 [simp]: "\<not> present 0" by (simp add: present_def)

lemma present_or [simp]: "present (a OR 1)" "present (a OR 7)"
  by (simp_all add: present_def bit.conj_disj_distrib2)

lemma free_pages_mem_outside:
  assumes "free_pages s xs" "same_outside v (mem s) m'" "pg_aligned v" "v \<notin> set xs"
  shows "free_pages (s\<lparr>mem := m'\<rparr>) xs"
proof -
  have "\<forall>x\<in>set xs. pg_aligned x" using assms(1) by (auto simp: free_pages_def page_ok_aligned)
  then show ?thesis using assms(1) flist_outside [OF assms(2,3,4)] by (simp add: free_pages_def)
qed

text \<open>Writing an entry of a page table changes that entry alone.\<close>

lemma pte_store:
  fixes w :: u32
  assumes ok: "pgdir_ok e m pgdir xs" and pr: "present (pde_at m pgdir (PDX va))"
  defines "m' \<equiv> store32 m (pte_ptr m pgdir va) w"
  shows "\<And>i. unat i < 1024 \<Longrightarrow> pde_at m' pgdir i = pde_at m pgdir i"
    and "pte_at m' pgdir va' = (if PDX va' = PDX va \<and> PTX va' = PTX va then w else pte_at m pgdir va')"
    and "pgdir_ok e m' pgdir xs"
    and "same_outside (table_at m pgdir (PDX va)) m m'"
proof -
  let ?t = "table_at m pgdir (PDX va)"
  have t: "page_ok e ?t" "?t \<noteq> pgdir" "page_ok e pgdir" using ok pr by (auto simp: pgdir_ok_def)
  then have al: "pg_aligned ?t" "pg_aligned pgdir" by (auto simp: page_ok_aligned)
  have m': "m' = store32 m (?t + 4 * PTX va) w" using pr by (simp add: m'_def pte_ptr_def)
  show so: "same_outside ?t m m'" unfolding m' by (rule same_outside_store_word) (use al in auto)
  show pde: "pde_at m' pgdir i = pde_at m pgdir i" if "unat i < 1024" for i
    unfolding pde_at_def using so al t that by (intro load32_word_outside) auto
  then have tab: "table_at m' pgdir i = table_at m pgdir i" if "unat i < 1024" for i
    using that by (simp add: table_at_def)
  show "pgdir_ok e m' pgdir xs" using ok unfolding pgdir_ok_def by (auto simp: pde tab)
  show "pte_at m' pgdir va' = (if PDX va' = PDX va \<and> PTX va' = PTX va then w else pte_at m pgdir va')"
  proof (cases "present (pde_at m pgdir (PDX va'))")
    case True
    show ?thesis
    proof (cases "PDX va' = PDX va")
      case same: True
      then show ?thesis using True al
        by (simp add: pte_at_def pte_ptr_def pde tab) (simp add: m' load_store_word)
    next
      case False
      then have "table_at m pgdir (PDX va') \<noteq> ?t" "page_ok e (table_at m pgdir (PDX va'))"
        using ok pr True by (auto simp: pgdir_ok_def)
      then have "load32 m' (table_at m pgdir (PDX va') + 4 * PTX va') = load32 m (table_at m pgdir (PDX va') + 4 * PTX va')"
        using so al by (intro load32_word_outside) (auto simp: page_ok_aligned)
      then show ?thesis using True False by (simp add: pte_at_def pte_ptr_def pde tab)
    qed
  next
    case False
    then show ?thesis using pr by (auto simp: pte_at_def pde)
  qed
qed

text \<open>The pages a page table itself occupies.\<close>

definition pt_pages :: "mem \<Rightarrow> u32 \<Rightarrow> u32 set" where
  "pt_pages m pgdir =
     insert pgdir {table_at m pgdir i | i. unat i < 1024 \<and> present (pde_at m pgdir i)}"

text \<open>Memory changed in the given pages only.\<close>

definition changes_only :: "u32 set \<Rightarrow> mem \<Rightarrow> mem \<Rightarrow> bool" where
  "changes_only P m m' \<longleftrightarrow> (\<forall>a. PGROUNDDOWN a \<notin> P \<longrightarrow> m' a = m a)"

lemma changes_only_refl [simp]: "changes_only P m m"
  by (simp add: changes_only_def)

lemma changes_only_trans:
  "changes_only P m m' \<Longrightarrow> changes_only Q m' m'' \<Longrightarrow> P \<union> Q \<subseteq> R \<Longrightarrow> changes_only R m m''"
  unfolding changes_only_def by (metis UnI1 UnI2 subsetD)

lemma changes_only_mono: "changes_only P m m' \<Longrightarrow> P \<subseteq> Q \<Longrightarrow> changes_only Q m m'"
  by (auto simp: changes_only_def)

lemma same_outside_changes_only:
  assumes "same_outside v m m'" "pg_aligned v" "v \<in> P"
  shows "changes_only P m m'"
  unfolding changes_only_def
proof (intro allI impI)
  fix a assume a: "PGROUNDDOWN a \<notin> P"
  then have "PGROUNDDOWN a \<noteq> v" using assms(3) by auto
  then have "\<not> unat (PGROUNDDOWN a + of_nat (unat (a - PGROUNDDOWN a)) - v) < 4096"
    using assms(2) by (intro page_disjoint) (auto simp: unat_page_offset)
  then show "m' a = m a" using assms(1) by (simp add: same_outside_def)
qed

lemma changes_only_same_outside:
  assumes "changes_only P m m'" "pg_aligned x" "x \<notin> P" "unat (i :: u32) < 1024"
  shows "load32 m' (x + 4 * i) = load32 m (x + 4 * i)"
proof -
  have "m' (x + 4 * i + of_nat k) = m (x + 4 * i + of_nat k)" if "k < 4" for k
  proof -
    let ?a = "x + 4 * i + of_nat k"
    have "PGROUNDDOWN ?a = x"
    proof (rule ccontr)
      assume "PGROUNDDOWN ?a \<noteq> x"
      then have "\<not> unat (PGROUNDDOWN ?a + of_nat (unat (?a - PGROUNDDOWN ?a)) - x) < 4096"
        using assms(2) by (intro page_disjoint) (auto simp: unat_page_offset)
      with word_offset_in_page [OF assms(4) that, of x] show False by simp
    qed
    then show ?thesis using assms(1,3) by (simp add: changes_only_def)
  qed
  from this [of 0] this [of 1] this [of 2] this [of 3] show ?thesis
    by (simp add: load32_def)
qed

text \<open>A page table does not see changes outside its own pages.\<close>

lemma pt_outside:
  assumes ok: "pgdir_ok e m pgdir xs" and ch: "changes_only P m m'" and dis: "P \<inter> pt_pages m pgdir = {}"
  shows "\<And>i. unat i < 1024 \<Longrightarrow> pde_at m' pgdir i = pde_at m pgdir i"
    and "pte_at m' pgdir va = pte_at m pgdir va"
    and "pgdir_ok e m' pgdir xs"
    and "pt_pages m' pgdir = pt_pages m pgdir"
    and "pte_ptr m' pgdir va = pte_ptr m pgdir va"
proof -
  have "pg_aligned pgdir" "pgdir \<notin> P" using ok dis by (auto simp: pgdir_ok_def page_ok_aligned pt_pages_def)
  then show pde: "pde_at m' pgdir i = pde_at m pgdir i" if "unat i < 1024" for i
    unfolding pde_at_def using ch that by (intro changes_only_same_outside) auto
  then have tab: "table_at m' pgdir i = table_at m pgdir i" if "unat i < 1024" for i
    using that by (simp add: table_at_def)
  show "pgdir_ok e m' pgdir xs" using ok unfolding pgdir_ok_def by (auto simp: pde tab)
  show "pt_pages m' pgdir = pt_pages m pgdir"
    unfolding pt_pages_def
    by (intro arg_cong [of _ _ "insert pgdir"] Collect_cong ex_cong1) (auto simp: pde tab)
  show "pte_ptr m' pgdir va = pte_ptr m pgdir va" by (simp add: pte_ptr_def pde tab)
  show "pte_at m' pgdir va = pte_at m pgdir va"
  proof (cases "present (pde_at m pgdir (PDX va))")
    case True
    let ?t = "table_at m pgdir (PDX va)"
    have "?t \<in> pt_pages m pgdir" using True by (auto simp: pt_pages_def)
    then have "?t \<notin> P" using dis by auto
    moreover have "pg_aligned ?t"
      using ok True by (intro page_ok_aligned [of e]) (auto simp: pgdir_ok_def)
    ultimately have "load32 m' (?t + 4 * PTX va) = load32 m (?t + 4 * PTX va)"
      using ch by (intro changes_only_same_outside) auto
    then show ?thesis using True by (simp add: pte_at_def pte_ptr_def pde tab)
  qed (simp add: pte_at_def pde)
qed

lemma walkpgdir_read: "walkpgdir pgdir va False s = Ret (pte_ptr (mem s) pgdir va) s"
  by (simp add: walkpgdir_def pte_ptr_def table_at_def pde_at_def present_def Let_def)

lemma pte_ptr_nonzero:
  assumes "pgdir_ok e m pgdir xs"
  shows "pte_ptr m pgdir va = 0 \<longleftrightarrow> \<not> present (pde_at m pgdir (PDX va))"
proof -
  have "table_at m pgdir (PDX va) + 4 * PTX va \<noteq> 0" if "page_ok e (table_at m pgdir (PDX va))"
  proof -
    let ?t = "table_at m pgdir (PDX va)"
    have "4 * unat (PTX va) < 4294967296" using PTX_less [of va] by linarith
    then have "unat (4 * PTX va) = 4 * unat (PTX va)" by (simp add: unat_word_ariths)
    moreover have "unat ?t + 4 * unat (PTX va) < 4294967296"
      using page_ok_range [OF that] PTX_less [of va] by linarith
    ultimately have "unat (?t + 4 * PTX va) = unat ?t + 4 * unat (PTX va)"
      by (subst unat_add_no_wrap) auto
    then show ?thesis using page_ok_range [OF that] by (auto simp flip: unat_eq_0)
  qed
  then show ?thesis using assms by (auto simp: pte_ptr_def pgdir_ok_def)
qed


lemma pgdir_ok_mono: "pgdir_ok e m pgdir xs \<Longrightarrow> set ys \<subseteq> set xs \<Longrightarrow> pgdir_ok e m pgdir ys"
  by (auto simp: pgdir_ok_def)

lemma pt_pages_store:
  fixes w :: u32
  assumes "pgdir_ok e m pgdir xs" "present (pde_at m pgdir (PDX va))"
  shows "pt_pages (store32 m (pte_ptr m pgdir va) w) pgdir = pt_pages m pgdir"
  using pte_store(1) [OF assms, of _ w] unfolding pt_pages_def table_at_def
  by (intro arg_cong [of _ _ "insert pgdir"] Collect_cong ex_cong1) auto

text \<open>
  Hooking a zeroed page into an empty slot of the directory gives a page table with the same
  entries.
\<close>

lemma hook_table:
  fixes p :: u32
  assumes ok: "pgdir_ok e m pgdir (p # xs)" and p: "page_ok e p" "p \<notin> set xs"
    and no: "\<not> present (pde_at m pgdir d)" and d: "unat d < 1024"
  defines "m' \<equiv> store32 (memset m p 0 4096) (pgdir + 4 * d) (V2P p OR PTE_P OR PTE_W OR PTE_U)"
  shows "pde_at m' pgdir d = V2P p OR 7" "table_at m' pgdir d = p"
    and "pte_at m' pgdir va = pte_at m pgdir va"
    and "pgdir_ok e m' pgdir xs"
    and "pt_pages m' pgdir = insert p (pt_pages m pgdir)"
    and "changes_only {pgdir, p} m m'"
proof -
  have al: "pg_aligned p" "pg_aligned pgdir" "p \<noteq> pgdir"
    using ok p by (auto simp: pgdir_ok_def page_ok_aligned)
  let ?m = "memset m p 0 4096"
  have so: "same_outside p m ?m" by (rule same_outside_memset)
  have so': "same_outside pgdir ?m m'" unfolding m'_def using al d by (intro same_outside_store_word)
  show "changes_only {pgdir, p} m m'"
    using same_outside_changes_only [OF so al(1)] same_outside_changes_only [OF so' al(2)]
    by (rule changes_only_trans [of "{p}" _ _ "{pgdir}"]) auto
  have pde: "pde_at m' pgdir i = (if i = d then V2P p OR 7 else pde_at m pgdir i)" if "unat i < 1024" for i
    using that d al load32_word_outside [OF so al(2,1) _ that]
    by (auto simp: pde_at_def m'_def load_store_word or.assoc)
  then show "pde_at m' pgdir d = V2P p OR 7" using d by simp
  have "PTE_ADDR (V2P p OR 7) = V2P p" using al
    by (intro PTE_ADDR_or) (simp_all add: V2P_def pg_aligned_diff)
  then have tab: "table_at m' pgdir i = (if i = d then p else table_at m pgdir i)" if "unat i < 1024" for i
    using pde [OF that] by (simp add: table_at_def)
  then show "table_at m' pgdir d = p" using d by simp
  have diff: "table_at m pgdir i \<noteq> p" if "unat i < 1024" "present (pde_at m pgdir i)" for i
    using ok that by (auto simp: pgdir_ok_def)
  have "page_ok e (table_at m' pgdir i) \<and> table_at m' pgdir i \<notin> set xs \<and> table_at m' pgdir i \<noteq> pgdir \<and>
      (\<forall>j. unat j < 1024 \<and> present (pde_at m' pgdir j) \<and> table_at m' pgdir j = table_at m' pgdir i \<longrightarrow> j = i)"
    if i: "unat i < 1024" "present (pde_at m' pgdir i)" for i
  proof (cases "i = d")
    case True
    moreover have "j = d" if "unat j < 1024" "present (pde_at m' pgdir j)" "table_at m' pgdir j = p" for j
      using that pde [OF that(1)] tab [OF that(1)] diff [OF that(1)] by (auto split: if_splits)
    ultimately show ?thesis using p al(3) tab [OF d] by simp
  next
    case False
    then have "present (pde_at m pgdir i)" using i by (simp add: pde)
    then have "page_ok e (table_at m pgdir i)" "table_at m pgdir i \<notin> set xs" "table_at m pgdir i \<noteq> pgdir"
      "\<And>j. unat j < 1024 \<Longrightarrow> present (pde_at m pgdir j) \<Longrightarrow> table_at m pgdir j = table_at m pgdir i \<Longrightarrow> j = i"
      "table_at m pgdir i \<noteq> p"
      using ok i(1) diff by (auto simp: pgdir_ok_def)
    then show ?thesis using False i(1) by (auto simp: pde tab split: if_splits)
  qed
  then show "pgdir_ok e m' pgdir xs" using ok by (auto simp: pgdir_ok_def)
  show "pt_pages m' pgdir = insert p (pt_pages m pgdir)"
  proof -
    have "(x = table_at m' pgdir i \<and> unat i < 1024 \<and> present (pde_at m' pgdir i)) \<longleftrightarrow>
        (i = d \<and> x = p) \<or> (x = table_at m pgdir i \<and> unat i < 1024 \<and> present (pde_at m pgdir i))" for x i
      using no d pde [of i] tab [of i] by (cases "i = d") auto
    then show ?thesis unfolding pt_pages_def by blast
  qed
  show "pte_at m' pgdir va = pte_at m pgdir va"
  proof (cases "PDX va = d")
    case True
    have "load32 m' (p + 4 * PTX va) = load32 ?m (p + 4 * PTX va)"
      using so' al by (intro load32_word_outside) auto
    then show ?thesis using True no d by (simp add: pte_at_def pte_ptr_def pde tab load32_memset_word)
  next
    case False
    have "load32 m' (table_at m pgdir (PDX va) + 4 * PTX va) =
        load32 m (table_at m pgdir (PDX va) + 4 * PTX va)" if "present (pde_at m pgdir (PDX va))"
    proof -
      have t: "table_at m pgdir (PDX va) \<noteq> pgdir" "table_at m pgdir (PDX va) \<noteq> p"
          "page_ok e (table_at m pgdir (PDX va))"
        using ok that by (auto simp: pgdir_ok_def)
      then show ?thesis using so so' al
        by (simp add: load32_word_outside [OF so'] load32_word_outside [OF so] page_ok_aligned)
    qed
    then show ?thesis using False by (simp add: pte_at_def pte_ptr_def pde tab)
  qed
qed

lemma walkpgdir_alloc:
  fixes s :: "'a vmst_scheme"
  assumes "vm_ok s pgdir xs"
  shows "\<exists>s' xs'. walkpgdir pgdir va True s = Ret (pte_ptr (mem s') pgdir va) s' \<and>
     vm_ok s' pgdir xs' \<and> kend s' = kend s \<and> set xs' \<subseteq> set xs \<and>
     (present (pde_at (mem s') pgdir (PDX va)) \<longleftrightarrow> present (pde_at (mem s) pgdir (PDX va)) \<or> xs \<noteq> []) \<and>
     (\<forall>va. pte_at (mem s') pgdir va = pte_at (mem s) pgdir va) \<and>
     pt_pages (mem s') pgdir \<union> set xs' = pt_pages (mem s) pgdir \<union> set xs \<and>
     changes_only (pt_pages (mem s) pgdir \<union> set xs) (mem s) (mem s')"
proof (cases "present (pde_at (mem s) pgdir (PDX va))")
  case True
  then have "walkpgdir pgdir va True s = Ret (pte_ptr (mem s) pgdir va) s"
    by (simp add: walkpgdir_def pte_ptr_def table_at_def pde_at_def present_def Let_def)
  then show ?thesis using assms True by (intro exI [of _ s] exI [of _ xs]) simp
next
  case False
  have fp: "free_pages s xs" and ok: "pgdir_ok (kend s) (mem s) pgdir xs" using assms by (auto simp: vm_ok_def)
  then have nl: "LKmem \<notin> set (held s)" by (simp add: free_pages_def)
  show ?thesis
  proof (cases xs)
    case Nil
    then have fl: "freelist s = 0" using fp by (simp add: free_pages_def)
    let ?s = "s\<lparr>freemems := freemems s - 1\<rparr>"
    have "walkpgdir pgdir va True s = Ret (pte_ptr (mem s) pgdir va) ?s"
      using False fl by (simp add: walkpgdir_def pte_ptr_def pde_at_def present_def kalloc_eq [OF nl] Let_def)
    then show ?thesis using assms False Nil
      by (intro exI [of _ ?s] exI [of _ xs]) (simp add: vm_ok_def free_pages_def)
  next
    case (Cons p ys)
    then have p: "freelist s = p" "p \<noteq> 0" "page_ok (kend s) p" "p \<notin> set ys" "flist (mem s) (load32 (mem s) p) ys"
      using fp by (auto simp: free_pages_def)
    let ?m = "store32 (memset (mem s) p 0 4096) (pgdir + 4 * PDX va) (V2P p OR PTE_P OR PTE_W OR PTE_U)"
    let ?s = "s\<lparr>freelist := load32 (mem s) p, freemems := freemems s - 1, mem := ?m\<rparr>"
    note h = hook_table [OF ok [unfolded Cons] p(3,4) False PDX_less]
    have "(V2P p OR 7) AND PTE_P \<noteq> 0" using present_or(2) [of "V2P p"] unfolding present_def .
    then have w: "walkpgdir pgdir va True s = Ret (pte_ptr ?m pgdir va) ?s"
      using False p h(1,2) by (simp add: walkpgdir_def pte_ptr_def pde_at_def present_def kalloc_eq [OF nl] Let_def)
    have "free_pages (s\<lparr>freelist := load32 (mem s) p, freemems := freemems s - 1\<rparr>) ys"
      using fp Cons p by (simp add: free_pages_def)
    then have "free_pages (s\<lparr>freelist := load32 (mem s) p, freemems := freemems s - 1, mem := memset (mem s) p 0 4096\<rparr>) ys"
      using p by (drule_tac free_pages_mem_outside [where v = p and m' = "memset (mem s) p 0 4096"])
        (auto simp: same_outside_memset page_ok_aligned)
    moreover have "page_ok (kend s) pgdir" "pgdir \<notin> set ys" using ok Cons by (auto simp: pgdir_ok_def)
    ultimately have "free_pages ?s ys"
      by (drule_tac free_pages_mem_outside [where v = pgdir and m' = ?m])
        (auto simp: same_outside_store_word page_ok_aligned)
    moreover have "changes_only (pt_pages (mem s) pgdir \<union> set xs) (mem s) ?m"
      by (rule changes_only_mono [OF h(6)]) (auto simp: pt_pages_def Cons)
    ultimately show ?thesis using w h Cons
      by (intro exI [of _ ?s] exI [of _ ys]) (auto simp: vm_ok_def)
  qed
qed

lemma unat_page_step:
  fixes a :: u32
  shows "unat a + 4096 * n < 2 ^ 32 \<Longrightarrow> k \<le> n \<Longrightarrow> unat (a + 4096 * of_nat k) = unat a + 4096 * k"
proof -
  assume a: "unat a + 4096 * n < 2 ^ 32" and k: "k \<le> n"
  have kb: "4096 * k < 2 ^ 32" using a k by simp
  have "unat (of_nat (4096 * k) :: u32) = 4096 * k" using kb by (rule unat_of_nat32)
  then have "unat (4096 * of_nat k :: u32) = 4096 * k" by simp
  then show ?thesis using a k by (subst unat_add_no_wrap) auto
qed

lemma same_page_iff: "PDX va = PDX b \<and> PTX va = PTX b \<longleftrightarrow> PGROUNDDOWN va = PGROUNDDOWN b"
proof -
  have idx: "PDX (PGROUNDDOWN x) = PDX x" "PTX (PGROUNDDOWN x) = PTX x" for x
    by (simp_all add: word_unat_eq_iff unat_PDX unat_PTX unat_PGROUNDDOWN)
  show ?thesis
  proof
    assume eq: "PDX va = PDX b \<and> PTX va = PTX b"
    show "PGROUNDDOWN va = PGROUNDDOWN b"
      by (rule page_index_inject) (simp_all add: idx eq)
  next
    assume "PGROUNDDOWN va = PGROUNDDOWN b"
    then show "PDX va = PDX b \<and> PTX va = PTX b" using idx by metis
  qed
qed

text \<open>
  \<open>mappages\<close> over \<open>n + 1\<close> unmapped pages: success maps exactly these pages, one after another, and
  failure leaves a prefix of them mapped. No page is lost, and nothing outside the page table and
  the free pages is written.
\<close>

lemma page_offset_step:
  fixes x a :: u32
  assumes "pg_aligned x" "pg_aligned a" "x \<noteq> a"
  shows "unat (x - a) = unat (x - (a + 4096)) + 4096"
proof -
  have "unat (x - a) mod 4096 = 0" using assms by (simp add: pg_aligned_diff flip: pg_aligned_unat)
  moreover have "unat (x - a) \<noteq> 0" using assms(3) by (simp add: unat_eq_0)
  ultimately have "4096 \<le> unat (x - a)" by (meson dvd_eq_mod_eq_0 dvd_imp_le gr0I)
  then have "unat (x - a - 4096) = unat (x - a) - 4096" by (simp add: unat_sub word_le_nat_alt)
  moreover have "x - a - 4096 = x - (a + 4096)" by simp
  ultimately show ?thesis using \<open>4096 \<le> unat (x - a)\<close> by simp
qed

lemma page_offset_Suc:
  fixes x a :: u32
  assumes "pg_aligned x" "pg_aligned a" "4096 * j < 2 ^ 32"
  shows "unat (x - a) < 4096 * Suc j \<longleftrightarrow> x = a \<or> unat (x - (a + 4096)) < 4096 * j"
proof (cases "x = a")
  case False
  then show ?thesis using page_offset_step [OF assms(1,2)] by simp
qed simp

lemma page_offset_self:
  fixes a :: u32
  assumes "4096 * j < 2 ^ 32"
  shows "\<not> unat (a - (a + 4096)) < 4096 * j"
proof -
  have "unat (- 4096 :: u32) = 4294963200" by simp
  moreover have "4096 * j \<le> 4294963200"
    using multiple_gap [of "4096 * j" 4096 "2 ^ 32"] assms by simp
  ultimately show ?thesis by simp
qed

lemma pgdir_ok_pt_pages: "pgdir_ok e m pgdir xs \<Longrightarrow> v \<in> pt_pages m pgdir \<Longrightarrow> page_ok e v \<and> v \<notin> set xs"
  by (auto simp: pt_pages_def pgdir_ok_def)

lemma vm_ok_store_pte:
  fixes w :: u32
  assumes "vm_ok s pgdir xs" "present (pde_at (mem s) pgdir (PDX va))"
  defines "m' \<equiv> store32 (mem s) (pte_ptr (mem s) pgdir va) w"
  shows "vm_ok (s\<lparr>mem := m'\<rparr>) pgdir xs"
    and "changes_only (pt_pages (mem s) pgdir) (mem s) m'"
proof -
  let ?t = "table_at (mem s) pgdir (PDX va)"
  have ok: "pgdir_ok (kend s) (mem s) pgdir xs" and fp: "free_pages s xs" using assms by (auto simp: vm_ok_def)
  note st = pte_store [OF ok assms(2), of w, folded m'_def]
  have t: "?t \<in> pt_pages (mem s) pgdir" using assms(2) by (auto simp: pt_pages_def)
  then have "page_ok (kend s) ?t \<and> ?t \<notin> set xs" by (rule pgdir_ok_pt_pages [OF ok])
  then have "pg_aligned ?t" "?t \<notin> set xs" by (auto simp: page_ok_aligned)
  then show "vm_ok (s\<lparr>mem := m'\<rparr>) pgdir xs"
    using free_pages_mem_outside [OF fp st(4)] st(3) by (simp add: vm_ok_def)
  show "changes_only (pt_pages (mem s) pgdir) (mem s) m'"
    using st(4) t \<open>pg_aligned ?t\<close> by (intro same_outside_changes_only)
qed

text \<open>
  What an operation on the page table \<open>pgdir\<close> keeps: well-formedness with the new free list, every
  page of the page table and the free list together, and all memory outside these pages.
\<close>

definition pt_step :: "'a vmst_scheme \<Rightarrow> u32 \<Rightarrow> u32 list \<Rightarrow> 'a vmst_scheme \<Rightarrow> u32 list \<Rightarrow> bool" where
  "pt_step s pgdir xs s' xs' \<longleftrightarrow> vm_ok s' pgdir xs' \<and> kend s' = kend s \<and> set xs' \<subseteq> set xs \<and>
     pt_pages (mem s') pgdir \<union> set xs' = pt_pages (mem s) pgdir \<union> set xs \<and>
     changes_only (pt_pages (mem s) pgdir \<union> set xs) (mem s) (mem s')"

lemma pt_step_refl: "vm_ok s pgdir xs \<Longrightarrow> pt_step s pgdir xs s xs"
  by (simp add: pt_step_def)

lemma pt_step_trans: "pt_step s pgdir xs s' xs' \<Longrightarrow> pt_step s' pgdir xs' s'' xs'' \<Longrightarrow> pt_step s pgdir xs s'' xs''"
  unfolding pt_step_def by (auto intro: changes_only_trans)

lemma pt_step_vm_ok: "pt_step s pgdir xs s' xs' \<Longrightarrow> vm_ok s' pgdir xs'"
  by (simp add: pt_step_def)

lemma map_one:
  fixes s :: "'a vmst_scheme"
  assumes vm: "vm_ok s pgdir xs" and al: "pg_aligned a" and np: "\<not> present (pte_at (mem s) pgdir a)"
  shows "(\<exists>s1. walkpgdir pgdir a True s = Ret 0 s1 \<and> pt_step s pgdir xs s1 [] \<and>
       (\<forall>va. pte_at (mem s1) pgdir va = pte_at (mem s) pgdir va)) \<or>
     (\<exists>p s1 xs1. walkpgdir pgdir a True s = Ret p s1 \<and> p \<noteq> 0 \<and> load32 (mem s1) p AND PTE_P = 0 \<and>
       pt_step s pgdir xs (s1\<lparr>mem := store32 (mem s1) p w\<rparr>) xs1 \<and>
       (\<forall>va. pte_at (store32 (mem s1) p w) pgdir va = (if PGROUNDDOWN va = a then w else pte_at (mem s) pgdir va)))"
proof -
  obtain s1 xs1 where w: "walkpgdir pgdir a True s = Ret (pte_ptr (mem s1) pgdir a) s1" "pt_step s pgdir xs s1 xs1"
      "present (pde_at (mem s1) pgdir (PDX a)) \<longleftrightarrow> present (pde_at (mem s) pgdir (PDX a)) \<or> xs \<noteq> []"
      "\<And>va. pte_at (mem s1) pgdir va = pte_at (mem s) pgdir va"
    using walkpgdir_alloc [OF vm, of a] unfolding pt_step_def by blast
  have vm1: "vm_ok s1 pgdir xs1" and sub: "set xs1 \<subseteq> set xs" using w(2) by (auto simp: pt_step_def)
  then have ok1: "pgdir_ok (kend s1) (mem s1) pgdir xs1" by (simp add: vm_ok_def)
  show ?thesis
  proof (cases "present (pde_at (mem s1) pgdir (PDX a))")
    case False
    then have "pte_ptr (mem s1) pgdir a = 0" "xs1 = []"
      using pte_ptr_nonzero [OF ok1] w(3) sub by auto
    then show ?thesis using w by auto
  next
    case True
    let ?p = "pte_ptr (mem s1) pgdir a"
    let ?s2 = "s1\<lparr>mem := store32 (mem s1) ?p w\<rparr>"
    have "load32 (mem s1) ?p = pte_at (mem s1) pgdir a" using True by (simp add: pte_at_def)
    then have "load32 (mem s1) ?p AND PTE_P = 0" using np w(4) by (simp add: present_def)
    moreover have "pt_step s1 pgdir xs1 ?s2 xs1"
      using vm_ok_store_pte [OF vm1 True, of w] pt_pages_store [OF ok1 True, of w]
      by (auto simp: pt_step_def intro: changes_only_mono)
    moreover have "pte_at (store32 (mem s1) ?p w) pgdir va = (if PGROUNDDOWN va = a then w else pte_at (mem s) pgdir va)" for va
      using pte_store(2) [OF ok1 True, of w va] same_page_iff [of va a] al w(4) by simp
    moreover have "?p \<noteq> 0" using True pte_ptr_nonzero [OF ok1] by simp
    ultimately show ?thesis using w(1) pt_step_trans [OF w(2)] by blast
  qed
qed

lemma mappages_loop_spec:
  fixes s :: "'a vmst_scheme"
  assumes "vm_ok s pgdir xs" "pg_aligned a" "unat a + 4096 * n < 2 ^ 32" "n < fuel"
    and "\<And>va. unat (PGROUNDDOWN va - a) < 4096 * Suc n \<Longrightarrow> \<not> present (pte_at (mem s) pgdir va)"
  shows "\<exists>r s' xs' j. mappages_loop fuel pgdir a (a + 4096 * of_nat n) pa perm s = Ret r s' \<and>
     pt_step s pgdir xs s' xs' \<and> (r = 0 \<and> j = Suc n \<or> r = -1 \<and> j \<le> n \<and> xs' = []) \<and>
     (\<forall>va. pte_at (mem s') pgdir va =
        (if unat (PGROUNDDOWN va - a) < 4096 * j
         then (pa + (PGROUNDDOWN va - a)) OR perm OR PTE_P else pte_at (mem s) pgdir va))"
  using assms
proof (induction n arbitrary: a pa fuel s xs)
  case n: 0
  obtain fuel' where fuel: "fuel = Suc fuel'" using n.prems(4) by (cases fuel) auto
  have "\<not> present (pte_at (mem s) pgdir a)" using n.prems(2) n.prems(5) [of a] by simp
  from map_one [OF n.prems(1,2) this, of "pa OR perm OR PTE_P"] show ?case
  proof (elim disjE exE conjE)
    fix s1 assume "walkpgdir pgdir a True s = Ret 0 s1" "pt_step s pgdir xs s1 []"
      "\<forall>va. pte_at (mem s1) pgdir va = pte_at (mem s) pgdir va"
    then show ?thesis using fuel by (intro exI [of _ "-1"] exI [of _ s1] exI [of _ "[]"] exI [of _ 0]) simp
  next
    fix p s1 xs1
    assume s1: "walkpgdir pgdir a True s = Ret p s1" "p \<noteq> 0" "load32 (mem s1) p AND PTE_P = 0"
      "pt_step s pgdir xs (s1\<lparr>mem := store32 (mem s1) p (pa OR perm OR PTE_P)\<rparr>) xs1"
      "\<forall>va. pte_at (store32 (mem s1) p (pa OR perm OR PTE_P)) pgdir va =
         (if PGROUNDDOWN va = a then pa OR perm OR PTE_P else pte_at (mem s) pgdir va)"
    have "unat (PGROUNDDOWN va - a) < 4096 * Suc 0 \<longleftrightarrow> PGROUNDDOWN va = a" for va
      using page_offset_Suc [of "PGROUNDDOWN va" a 0] n.prems(2) by simp
    with s1 fuel show ?thesis
      by (intro exI [of _ 0] exI [of _ "s1\<lparr>mem := store32 (mem s1) p (pa OR perm OR PTE_P)\<rparr>"] exI [of _ xs1] exI [of _ "Suc 0"])
        (simp add: Let_def)
  qed
next
  case (Suc n)
  obtain fuel' where fuel: "fuel = Suc fuel'" "n < fuel'" using Suc.prems(4) by (cases fuel) auto
  have "\<not> present (pte_at (mem s) pgdir a)" using Suc.prems(2) Suc.prems(5) [of a] by simp
  from map_one [OF Suc.prems(1,2) this, of "pa OR perm OR PTE_P"] show ?case
  proof (elim disjE exE conjE)
    fix s1 assume "walkpgdir pgdir a True s = Ret 0 s1" "pt_step s pgdir xs s1 []"
      "\<forall>va. pte_at (mem s1) pgdir va = pte_at (mem s) pgdir va"
    then show ?thesis using fuel by (intro exI [of _ "-1"] exI [of _ s1] exI [of _ "[]"] exI [of _ 0]) simp
  next
    fix p xs1 and s1 :: "'a vmst_scheme"
    let ?w = "pa OR perm OR PTE_P"
    let ?s2 = "s1\<lparr>mem := store32 (mem s1) p ?w\<rparr>"
    assume s1: "walkpgdir pgdir a True s = Ret p s1" "p \<noteq> 0" "load32 (mem s1) p AND PTE_P = 0"
      "pt_step s pgdir xs ?s2 xs1"
      "\<forall>va. pte_at (store32 (mem s1) p ?w) pgdir va =
         (if PGROUNDDOWN va = a then ?w else pte_at (mem s) pgdir va)"
    have na: "unat (a + 4096) = unat a + 4096"
      using Suc.prems(3) by (subst unat_add_no_wrap) auto
    have nb: "4096 * Suc n < 2 ^ 32" using Suc.prems(3) by simp
    have off: "unat (PGROUNDDOWN va - a) < 4096 * Suc j \<longleftrightarrow> PGROUNDDOWN va = a \<or> unat (PGROUNDDOWN va - (a + 4096)) < 4096 * j"
      if "j \<le> Suc n" for va j
      using page_offset_Suc [of "PGROUNDDOWN va" a j] Suc.prems(2) nb that by simp
    have "\<not> present (pte_at (mem ?s2) pgdir va)" if "unat (PGROUNDDOWN va - (a + 4096)) < 4096 * Suc n" for va
    proof -
      have "PGROUNDDOWN va \<noteq> a" using page_offset_self [OF nb, of a] that by auto
      then show ?thesis using Suc.prems(5) [of va] off [of "Suc n" va] that s1(5) by simp
    qed
    then obtain r s' xs' j where ih: "mappages_loop fuel' pgdir (a + 4096) (a + 4096 + 4096 * of_nat n) (pa + 4096) perm ?s2 = Ret r s'"
       "pt_step ?s2 pgdir xs1 s' xs'" "r = 0 \<and> j = Suc n \<or> r = -1 \<and> j \<le> n \<and> xs' = []"
       "\<And>va. pte_at (mem s') pgdir va = (if unat (PGROUNDDOWN va - (a + 4096)) < 4096 * j
         then (pa + 4096 + (PGROUNDDOWN va - (a + 4096))) OR perm OR PTE_P else pte_at (mem ?s2) pgdir va)"
      using Suc.IH [of ?s2 xs1 "a + 4096" fuel' "pa + 4096"] Suc.prems(2,3) fuel(2) na s1(4)
      by (auto simp: pt_step_vm_ok pg_aligned_add)
    have j: "j \<le> Suc n" using ih(3) by auto
    have "a \<noteq> a + 4096 * of_nat (Suc n)"
    proof
      assume "a = a + 4096 * of_nat (Suc n)"
      then have "unat a = unat (a + 4096 * of_nat (Suc n))" by simp
      with unat_page_step [OF Suc.prems(3) order_refl] show False by simp
    qed
    then have run: "mappages_loop fuel pgdir a (a + 4096 * of_nat (Suc n)) pa perm s = Ret r s'"
      using fuel s1 ih(1) by (simp add: Let_def algebra_simps)
    have "pte_at (mem s') pgdir va = (if unat (PGROUNDDOWN va - a) < 4096 * Suc j
         then (pa + (PGROUNDDOWN va - a)) OR perm OR PTE_P else pte_at (mem s) pgdir va)" for va
    proof (cases "PGROUNDDOWN va = a")
      case True
      have "\<not> unat (a - (a + 4096)) < 4096 * j" using nb j by (intro page_offset_self) simp
      then show ?thesis using ih(4) [of va] True s1(5) by simp
    next
      case False
      then show ?thesis using ih(4) [of va] s1(5) off [OF j, of va] by (simp add: algebra_simps)
    qed
    then show ?thesis using run pt_step_trans [OF s1(4) ih(2)] ih(3)
      by (intro exI [of _ r] exI [of _ s'] exI [of _ xs'] exI [of _ "Suc j"]) auto
  qed
qed

section \<open>Mapping a range\<close>

lemma unat_PGROUNDDOWN_le: "unat (PGROUNDDOWN a) \<le> unat a"
  by (simp add: unat_PGROUNDDOWN)

lemma page_range_iff:
  fixes lo hi x :: u32
  assumes "pg_aligned lo" "pg_aligned x" "unat hi = unat lo + 4096 * n"
  shows "unat (x - lo) < 4096 * Suc n \<longleftrightarrow> lo \<le> x \<and> x \<le> hi"
proof (cases "lo \<le> x")
  case True
  have al: "unat x mod 4096 = 0" "unat hi mod 4096 = 0" using assms by (simp_all add: pg_aligned_unat)
  have "unat (x - lo) = unat x - unat lo" "unat lo \<le> unat x"
    using True by (simp_all add: unat_sub word_le_nat_alt)
  moreover have "unat x < unat hi + 4096 \<longleftrightarrow> unat x \<le> unat hi"
    using multiple_gap [OF al(2,1)] by linarith
  ultimately show ?thesis using True assms(3) by (auto simp: word_le_nat_alt)
next
  case False
  have "unat hi mod 4096 = 0" using assms by (simp add: pg_aligned_unat)
  then have "unat hi + 4096 \<le> 2 ^ 32" using unat_lt32 [of hi] by (intro multiple_gap) simp_all
  moreover have "unat (x - lo) = 2 ^ 32 + unat x - unat lo" using False by (simp add: unat_sub_if' word_le_nat_alt)
  ultimately show ?thesis using False assms(3) by simp
qed

lemma unat_last_byte:
  fixes va sz :: u32
  assumes "0 < sz" "unat va + unat sz \<le> 2 ^ 32"
  shows "unat (va + sz - 1) = unat va + unat sz - 1"
proof -
  have pos: "0 < unat sz" using assms(1) by (simp add: word_gt_0 unat_gt_0)
  then have "sz \<noteq> 0" by auto
  then have s1: "unat (sz - 1) = unat sz - 1" by (simp add: unat_minus_one)
  have "unat (va + (sz - 1)) = unat va + unat (sz - 1)"
    using assms(2) pos s1 by (intro unat_add_no_wrap) simp
  moreover have "va + (sz - 1) = va + sz - 1" by simp
  ultimately show ?thesis using s1 pos by simp
qed

lemma page_count:
  fixes va sz :: u32
  assumes "0 < sz" "unat va + unat sz \<le> 2 ^ 32"
  obtains n where "unat (PGROUNDDOWN (va + sz - 1)) = unat (PGROUNDDOWN va) + 4096 * n"
    "PGROUNDDOWN (va + sz - 1) = PGROUNDDOWN va + 4096 * of_nat n" "n < npages"
proof -
  let ?lo = "PGROUNDDOWN va" and ?hi = "PGROUNDDOWN (va + sz - 1)"
  define n where "n = (unat va + unat sz - 1) div 4096 - unat va div 4096"
  have "0 < unat sz" using assms(1) by (simp add: word_gt_0 unat_gt_0)
  then have "unat va div 4096 \<le> (unat va + unat sz - 1) div 4096" by (intro div_le_mono) simp
  then have n: "unat ?hi = unat ?lo + 4096 * n"
    by (simp add: unat_PGROUNDDOWN unat_last_byte [OF assms] n_def right_diff_distrib' del: One_nat_def)
  then have "?hi = ?lo + 4096 * of_nat n"
    using unat_lt32 [of ?hi] by (simp add: word_unat_eq_iff unat_page_step [of ?lo n n])
  moreover have "n < npages" using n unat_lt32 [of ?hi] by linarith
  ultimately show thesis using n that by blast
qed

lemma pte_at_PGROUNDDOWN [simp]: "pte_at m pgdir (PGROUNDDOWN x) = pte_at m pgdir x"
proof -
  have "PDX (PGROUNDDOWN x) = PDX x \<and> PTX (PGROUNDDOWN x) = PTX x" by (simp add: same_page_iff)
  then show ?thesis by (simp add: pte_at_def pte_ptr_def)
qed

lemma page_single: "pg_aligned a \<Longrightarrow> PGROUNDDOWN (a + PGSIZE - 1) = a"
proof -
  assume a: "pg_aligned a"
  have m: "unat a mod 4096 = 0" using a by (simp add: pg_aligned_unat)
  have le: "unat a + 4096 \<le> 2 ^ 32" using m unat_lt32 [of a] by (intro multiple_gap) simp_all
  have "unat (a + PGSIZE - 1) = unat a + 4095"
    using unat_last_byte [of PGSIZE a] le by simp
  moreover obtain q where "unat a = 4096 * q" using m by (metis mod_0_imp_dvd dvdE)
  ultimately show ?thesis by (simp add: word_unat_eq_iff unat_PGROUNDDOWN)
qed

lemma mappages_page:
  fixes s :: "'a vmst_scheme"
  assumes "vm_ok s pgdir xs" "pg_aligned a" "\<not> present (pte_at (mem s) pgdir a)"
  shows "\<exists>r s' xs'. mappages pgdir a PGSIZE pa perm s = Ret r s' \<and> pt_step s pgdir xs s' xs' \<and>
     (r = 0 \<and> (\<forall>x. pte_at (mem s') pgdir x = (if PGROUNDDOWN x = a then pa OR perm OR PTE_P else pte_at (mem s) pgdir x)) \<or>
      r = -1 \<and> xs' = [] \<and> (\<forall>x. pte_at (mem s') pgdir x = pte_at (mem s) pgdir x))"
proof -
  have pg: "unat (PGROUNDDOWN x - a) < 4096 * Suc 0 \<longleftrightarrow> PGROUNDDOWN x = a" for x
    using page_offset_Suc [of "PGROUNDDOWN x" a 0] assms(2) by simp
  have np: "\<not> present (pte_at (mem s) pgdir x)" if "unat (PGROUNDDOWN x - a) < 4096 * Suc 0" for x
    using that assms(3) pte_at_PGROUNDDOWN [of "mem s" pgdir x] unfolding pg by simp
  have b: "unat a + 4096 * 0 < 2 ^ 32" "0 < npages" by simp_all
  obtain r s' xs' j where m: "mappages_loop npages pgdir a (a + 4096 * of_nat 0) pa perm s = Ret r s'"
      "pt_step s pgdir xs s' xs'" "r = 0 \<and> j = Suc 0 \<or> r = -1 \<and> j \<le> 0 \<and> xs' = []"
      "\<And>x. pte_at (mem s') pgdir x = (if unat (PGROUNDDOWN x - a) < 4096 * j
         then (pa + (PGROUNDDOWN x - a)) OR perm OR PTE_P else pte_at (mem s) pgdir x)"
    using mappages_loop_spec [OF assms(1,2) b np] by blast
  have "mappages pgdir a PGSIZE pa perm s = Ret r s'"
    unfolding mappages_def page_single [OF assms(2)] using m(1) assms(2) by (simp del: mappages_loop.simps)
  then show ?thesis using m(2,3) m(4) pg
    by (intro exI [of _ r] exI [of _ s'] exI [of _ xs']) auto
qed

section \<open>Properties\<close>

text \<open>
  C32. \<^verbatim>\<open>mappages\<close> maps a range of unmapped pages: it returns 0 with exactly the pages from \<open>va\<close> to \<open>va + sz - 1\<close>
  mapped, each to its own frame from \<open>pa\<close> on and with the given permissions, or -1 when the allocator ran out of pages for
  page tables, with the last page of the range still unmapped. Every entry outside the range is unchanged; the page table stays
  well-formed, keeps its pages apart from the free list, loses none of them, and no memory outside the page table and
  the formerly free pages is written.
\<close>

theorem mappages_spec:
  fixes s :: "'a vmst_scheme"
  assumes "vm_ok s pgdir xs" "0 < sz" "unat va + unat sz \<le> 2 ^ 32"
  defines "lo \<equiv> PGROUNDDOWN va" and "hi \<equiv> PGROUNDDOWN (va + sz - 1)"
  assumes "\<And>x. lo \<le> PGROUNDDOWN x \<Longrightarrow> PGROUNDDOWN x \<le> hi \<Longrightarrow> \<not> present (pte_at (mem s) pgdir x)"
  shows "\<exists>r s' xs'. mappages pgdir va sz pa perm s = Ret r s' \<and> pt_step s pgdir xs s' xs' \<and>
     (\<forall>x. \<not> (lo \<le> PGROUNDDOWN x \<and> PGROUNDDOWN x \<le> hi) \<longrightarrow> pte_at (mem s') pgdir x = pte_at (mem s) pgdir x) \<and>
     (r = 0 \<and> (\<forall>x. lo \<le> PGROUNDDOWN x \<and> PGROUNDDOWN x \<le> hi \<longrightarrow>
          pte_at (mem s') pgdir x = (pa + (PGROUNDDOWN x - lo)) OR perm OR PTE_P) \<or>
      r = -1 \<and> xs' = [] \<and> (\<forall>x. PGROUNDDOWN x = hi \<longrightarrow> pte_at (mem s') pgdir x = pte_at (mem s) pgdir x))"
proof -
  obtain n where n: "unat hi = unat lo + 4096 * n" "hi = lo + 4096 * of_nat n" "n < npages"
    using page_count [OF assms(2,3)] unfolding lo_def hi_def by blast
  have al: "pg_aligned lo" by (simp add: lo_def)
  have rng: "unat (PGROUNDDOWN x - lo) < 4096 * Suc n \<longleftrightarrow> lo \<le> PGROUNDDOWN x \<and> PGROUNDDOWN x \<le> hi" for x
    using al n(1) by (intro page_range_iff) simp_all
  have bound: "unat lo + 4096 * n < 2 ^ 32" using n(1) unat_lt32 [of hi] by simp
  obtain r s' xs' j where m: "mappages pgdir va sz pa perm s = Ret r s'" "pt_step s pgdir xs s' xs'"
     "r = 0 \<and> j = Suc n \<or> r = -1 \<and> j \<le> n \<and> xs' = []"
     "\<And>x. pte_at (mem s') pgdir x = (if unat (PGROUNDDOWN x - lo) < 4096 * j
         then (pa + (PGROUNDDOWN x - lo)) OR perm OR PTE_P else pte_at (mem s) pgdir x)"
    using mappages_loop_spec [OF assms(1) al bound n(3), of pa perm] assms(6) rng n(2)
    unfolding mappages_def lo_def hi_def by metis
  have "4096 * j \<le> 4096 * Suc n" using m(3) by auto
  then have "\<not> unat (PGROUNDDOWN x - lo) < 4096 * j" if "\<not> (lo \<le> PGROUNDDOWN x \<and> PGROUNDDOWN x \<le> hi)" for x
    using rng [of x] that by linarith
  moreover have "unat (hi - lo) = 4096 * n" using n(1) by (simp add: unat_sub word_le_nat_alt)
  ultimately show ?thesis using m rng by (intro exI [of _ r] exI [of _ s'] exI [of _ xs']) auto
qed


text \<open>An empty page table at \<open>0x80400000\<close> next to two free pages.\<close>

definition vm_ex :: vmst where
  "vm_ex = \<lparr>held = [], mem = store32 (\<lambda>_. 0) 0x80200000 0x80201000, use_lock = True,
     freelist = 0x80200000, freemems = 2, kend = 0x80100000, kpgdir = 0, cr3 = 0, ts_esp0 = 0,
     kdata = 0x80108000\<rparr>"

abbreviation (input) pgdir_ex :: u32 where "pgdir_ex \<equiv> 0x80400000"

lemma pde_ex: "unat i < 1024 \<Longrightarrow> pde_at (mem vm_ex) pgdir_ex i = 0"
proof -
  assume i: "unat i < 1024"
  have "same_outside 0x80200000 (\<lambda>_. 0) (mem vm_ex)"
    by (simp add: vm_ex_def same_outside_store32 pg_aligned_def)
  from load32_word_outside [OF this _ _ _ i, of pgdir_ex] show ?thesis
    by (simp add: pde_at_def pg_aligned_def)
qed

lemma pte_ex: "pte_at (mem vm_ex) pgdir_ex va = 0"
  using pde_ex [OF PDX_less [of va]] by (simp add: pte_at_def)

lemma vm_ok_ex: "vm_ok vm_ex pgdir_ex [0x80200000, 0x80201000]"
proof -
  have "free_pages vm_ex [0x80200000, 0x80201000]"
    using free_pages_ex by (simp add: free_pages_def vm_ex_def kmem_ex_def)
  moreover have "pgdir_ok (kend vm_ex) (mem vm_ex) pgdir_ex [0x80200000, 0x80201000]"
    using pde_ex by (auto simp: pgdir_ok_def) (simp add: vm_ex_def page_ok_def V2P_def)
  ultimately show ?thesis by (simp add: vm_ok_def)
qed

theorem mappages_spec_witness:
  "\<exists>r s'. mappages pgdir_ex 0x1000 8192 0x5000 PTE_W vm_ex = Ret r s' \<and> (r = 0 \<or> r = -1)"
  using mappages_spec [OF vm_ok_ex, of 8192 "0x1000" "0x5000" PTE_W] by (auto simp: pte_ex)

end
