(* ===== verification/Uservm.thy ===== *)
theory Uservm
  imports Pagetable
begin

text \<open>
  User memory: what \<^verbatim>\<open>deallocuvm\<close>, \<^verbatim>\<open>freevm\<close> and \<^verbatim>\<open>allocuvm\<close> do to the user part of a page table. \<open>uvm_ok\<close>
  extends the page table invariant to the frames mapped below \<^verbatim>\<open>KERNBASE\<close>: they are valid pages, each
  mapped once, neither free nor part of the page table.
\<close>

section \<open>Mapped user pages\<close>

definition umapped :: "mem \<Rightarrow> u32 \<Rightarrow> u32 set" where
  "umapped m pgdir = {va. pg_aligned va \<and> va < KERNBASE \<and> present (pte_at m pgdir va)}"

definition uframe :: "mem \<Rightarrow> u32 \<Rightarrow> u32 \<Rightarrow> u32" where
  "uframe m pgdir va = P2V (PTE_ADDR (pte_at m pgdir va))"

definition uvm_ok :: "'a vmst_scheme \<Rightarrow> u32 \<Rightarrow> u32 list \<Rightarrow> bool" where
  "uvm_ok s pgdir xs \<longleftrightarrow> vm_ok s pgdir xs \<and> KERNBASE < kend s \<and>
     inj_on (uframe (mem s) pgdir) (umapped (mem s) pgdir) \<and>
     (\<forall>va\<in>umapped (mem s) pgdir. page_ok (kend s) (uframe (mem s) pgdir va) \<and>
        uframe (mem s) pgdir va \<notin> set xs \<union> pt_pages (mem s) pgdir)"

lemma pgdir_ok_Cons: "pgdir_ok e m pgdir xs \<Longrightarrow> f \<notin> pt_pages m pgdir \<Longrightarrow> pgdir_ok e m pgdir (f # xs)"
  by (auto simp: pgdir_ok_def pt_pages_def)

lemma present_pte_pde: "present (pte_at m pgdir va) \<Longrightarrow> present (pde_at m pgdir (PDX va))"
  by (auto simp: pte_at_def split: if_splits)

text \<open>Freeing a mapped user page and clearing its entry, one pass of \<open>deallocuvm\<close>.\<close>

lemma unmap_one:
  fixes s :: "'a vmst_scheme"
  assumes uvm: "uvm_ok s pgdir xs" and va: "va \<in> umapped (mem s) pgdir"
  defines "f \<equiv> uframe (mem s) pgdir va"
  shows "\<exists>s1. kfree f s = Ret () s1 \<and> kend s1 = kend s \<and>
     uvm_ok (s1\<lparr>mem := store32 (mem s1) (pte_ptr (mem s) pgdir va) 0\<rparr>) pgdir (f # xs) \<and>
     (\<forall>x. pte_at (store32 (mem s1) (pte_ptr (mem s) pgdir va) 0) pgdir x =
        (if PGROUNDDOWN x = va then 0 else pte_at (mem s) pgdir x)) \<and>
     pt_pages (store32 (mem s1) (pte_ptr (mem s) pgdir va) 0) pgdir = pt_pages (mem s) pgdir"
proof -
  have fp: "free_pages s xs" and ok: "pgdir_ok (kend s) (mem s) pgdir xs"
    and f: "page_ok (kend s) f" "f \<notin> set xs" "f \<notin> pt_pages (mem s) pgdir"
    and al: "pg_aligned va" and pr: "present (pte_at (mem s) pgdir va)"
    using uvm va by (auto simp: uvm_ok_def vm_ok_def f_def umapped_def)
  obtain s1 where s1: "kfree f s = Ret () s1" "free_pages s1 (f # xs)" "same_outside f (mem s) (mem s1)" "kend s1 = kend s"
    using kfree_free_pages [OF fp f(1,2)] by blast
  let ?m = "store32 (mem s1) (pte_ptr (mem s) pgdir va) 0"
  have ch: "changes_only {f} (mem s) (mem s1)"
    using s1(3) f(1) by (intro same_outside_changes_only) (auto simp: page_ok_aligned)
  have dis: "{f} \<inter> pt_pages (mem s) pgdir = {}" using f(3) by simp
  note out = pt_outside [OF ok ch dis]
  have "pgdir_ok (kend s1) (mem s1) pgdir (f # xs)"
    using out(3,4) f(3) s1(4) by (simp add: pgdir_ok_Cons)
  then have vm1: "vm_ok s1 pgdir (f # xs)" using s1(2) by (simp add: vm_ok_def)
  have pd1: "present (pde_at (mem s1) pgdir (PDX va))"
    using present_pte_pde [OF pr] out(1) by simp
  have pt: "pte_at ?m pgdir x = (if PGROUNDDOWN x = va then 0 else pte_at (mem s) pgdir x)" for x
    using pte_store(2) [OF \<open>pgdir_ok _ _ _ (f # xs)\<close> pd1, of 0 x] same_page_iff [of x va] al out(2,5) by simp
  have pages: "pt_pages ?m pgdir = pt_pages (mem s) pgdir"
    using pt_pages_store [OF \<open>pgdir_ok _ _ _ (f # xs)\<close> pd1, of 0] out(4,5) by simp
  have mapped: "umapped ?m pgdir = umapped (mem s) pgdir - {va}"
    by (auto simp: umapped_def pt)
  have frames: "uframe ?m pgdir x = uframe (mem s) pgdir x" if "x \<in> umapped (mem s) pgdir - {va}" for x
    using that by (auto simp: uframe_def pt umapped_def)
  have inj: "inj_on (uframe (mem s) pgdir) (umapped (mem s) pgdir)" using uvm by (simp add: uvm_ok_def)
  then have "inj_on (uframe (mem s) pgdir) (umapped (mem s) pgdir - {va})" by (rule inj_on_subset) auto
  then have "inj_on (uframe ?m pgdir) (umapped ?m pgdir)"
    unfolding mapped by (rule inj_on_cong [THEN iffD1, rotated]) (simp add: frames)
  moreover have "uframe (mem s) pgdir x \<noteq> f" if "x \<in> umapped (mem s) pgdir - {va}" for x
    using inj va that by (auto simp: f_def dest: inj_onD)
  moreover have "vm_ok (s1\<lparr>mem := ?m\<rparr>) pgdir (f # xs)"
    using vm_ok_store_pte(1) [OF vm1 pd1, of 0] out(5) by simp
  ultimately have "uvm_ok (s1\<lparr>mem := ?m\<rparr>) pgdir (f # xs)"
    using uvm s1(4) unfolding uvm_ok_def by (auto simp: mapped frames pages)
  then show ?thesis using s1 pt pages by auto
qed

text \<open>The user pages mapped from \<open>a\<close> up to \<open>b\<close>.\<close>

definition umapped_range :: "mem \<Rightarrow> u32 \<Rightarrow> u32 \<Rightarrow> u32 \<Rightarrow> u32 set" where
  "umapped_range m pgdir a b = {va \<in> umapped m pgdir. a \<le> va \<and> va < b}"

text \<open>The address at which the loop goes on after a directory slot without a page table.\<close>

definition next_slot :: "u32 \<Rightarrow> u32" where
  "next_slot a = PGADDR (PDX a + 1) 0 0"

lemma unat_next_slot:
  assumes "a < KERNBASE"
  shows "unat (next_slot a) = 4194304 * (unat a div 4194304 + 1)"
proof -
  have "unat a div 4194304 < 512" using assms by (simp add: word_less_nat_alt)
  then have "unat (PDX a + 1) = unat a div 4194304 + 1"
    by (subst unat_add_no_wrap) (auto simp: unat_PDX)
  then show ?thesis using \<open>unat a div 4194304 < 512\<close>
    unfolding next_slot_def by (subst unat_PGADDR) auto
qed

lemma next_slot_skip:
  assumes "a < KERNBASE" "\<not> present (pde_at m pgdir (PDX a))" "a \<le> x" "x < next_slot a"
  shows "pte_at m pgdir x = 0"
proof -
  have "unat a \<le> unat x" "unat x < 4194304 * (unat a div 4194304 + 1)"
    using assms unat_next_slot by (auto simp: word_le_nat_alt word_less_nat_alt)
  then have "unat x div 4194304 = unat a div 4194304"
    using times_div_less_eq_dividend [of 4194304 "unat a"] by (intro div_nat_eqI) (simp_all add: algebra_simps)
  then have "PDX x = PDX a" by (simp add: word_unat_eq_iff unat_PDX)
  then show ?thesis using assms(2) by (simp add: pte_at_def)
qed

text \<open>The effect of unmapping the user pages \<open>R\<close>: their entries are cleared and their frames are free.\<close>

definition unmaps :: "'a vmst_scheme \<Rightarrow> u32 \<Rightarrow> u32 list \<Rightarrow> u32 set \<Rightarrow> 'a vmst_scheme \<Rightarrow> u32 list \<Rightarrow> bool" where
  "unmaps s pgdir xs R s' xs' \<longleftrightarrow> uvm_ok s' pgdir xs' \<and> kend s' = kend s \<and>
     pt_pages (mem s') pgdir = pt_pages (mem s) pgdir \<and>
     (\<forall>x. pte_at (mem s') pgdir x = (if PGROUNDDOWN x \<in> R then 0 else pte_at (mem s) pgdir x)) \<and>
     set xs' = set xs \<union> uframe (mem s) pgdir ` R"

lemma unmaps_refl: "uvm_ok s pgdir xs \<Longrightarrow> unmaps s pgdir xs {} s xs"
  by (simp add: unmaps_def)

lemma unmaps_trans:
  assumes a: "unmaps s pgdir xs R s' xs'" and b: "unmaps s' pgdir xs' R' s'' xs''"
    and "R' \<subseteq> Collect pg_aligned" "R \<inter> R' = {}"
  shows "unmaps s pgdir xs (R \<union> R') s'' xs''"
proof -
  have "uframe (mem s') pgdir x = uframe (mem s) pgdir x" if "x \<in> R'" for x
  proof -
    have "PGROUNDDOWN x = x" "x \<notin> R" using assms(3,4) that by auto
    then show ?thesis using a by (simp add: unmaps_def uframe_def)
  qed
  then have "uframe (mem s') pgdir ` R' = uframe (mem s) pgdir ` R'" by (intro image_cong) auto
  then show ?thesis using a b by (auto simp: unmaps_def)
qed

lemma umapped_after:
  assumes "unmaps s pgdir xs R s' xs'"
  shows "umapped_range (mem s') pgdir a b = umapped_range (mem s) pgdir a b - R"
  using assms by (auto simp: unmaps_def umapped_range_def umapped_def)

lemma page_next_iff:
  fixes a x :: u32
  assumes "pg_aligned a" "pg_aligned x" "unat a + 4096 < 2 ^ 32"
  shows "a + 4096 \<le> x \<longleftrightarrow> a < x"
proof -
  have "unat (a + 4096) = unat a + 4096" using assms(3) by (subst unat_add_no_wrap) auto
  then show ?thesis using assms multiple_gap [of "unat a" 4096 "unat x"]
    by (auto simp: word_le_nat_alt word_less_nat_alt pg_aligned_unat)
qed

lemma umapped_range_split:
  assumes "pg_aligned a" "unat a + 4096 < 2 ^ 32" "a < b"
  shows "umapped_range m pgdir a b = ({a} \<inter> umapped m pgdir) \<union> umapped_range m pgdir (a + 4096) b"
proof -
  have "x \<in> umapped m pgdir \<Longrightarrow> a + 4096 \<le> x \<longleftrightarrow> a < x" for x
    using assms by (intro page_next_iff) (auto simp: umapped_def)
  then show ?thesis using assms(3) by (auto simp: umapped_range_def order_le_less)
qed

lemma next_slot_gap:
  assumes "a < KERNBASE" "pg_aligned a"
  shows "unat a + 4096 \<le> unat (next_slot a)" "pg_aligned (next_slot a)" "unat (next_slot a) \<le> 2147483648"
proof -
  let ?q = "unat a div 4194304"
  note ns = unat_next_slot [OF assms(1)]
  have d: "4194304 * (?q + 1) = 4096 * (1024 * (?q + 1))" by simp
  have m: "unat (next_slot a) mod 4096 = 0" unfolding ns d by (simp only: mod_mult_self1_is_0)
  then show "pg_aligned (next_slot a)" by (simp add: pg_aligned_unat)
  have "unat a < unat (next_slot a)" unfolding ns using dividend_less_times_div [of 4194304 "unat a"] by simp
  then show "unat a + 4096 \<le> unat (next_slot a)"
    using assms(2) m by (intro multiple_gap) (simp_all add: pg_aligned_unat)
  have "?q < 512" using assms(1) by (simp add: word_less_nat_alt)
  then show "unat (next_slot a) \<le> 2147483648" unfolding ns by simp
qed

lemma umapped_range_skip:
  assumes "a < KERNBASE" "pg_aligned a" "\<not> present (pde_at m pgdir (PDX a))"
  shows "umapped_range m pgdir a b = umapped_range m pgdir (next_slot a) b"
proof -
  have "a \<le> next_slot a" using next_slot_gap [OF assms(1,2)] by (simp add: word_le_nat_alt)
  moreover have "\<not> x < next_slot a" if "x \<in> umapped m pgdir" "a \<le> x" for x
    using next_slot_skip [OF assms(1,3) that(2)] that(1) by (auto simp: umapped_def)
  ultimately show ?thesis by (auto simp: umapped_range_def not_less)
qed

text \<open>One pass of the loop: it goes on at a later page, having unmapped the pages in between.\<close>

lemma deallocuvm_pass:
  fixes s :: "'a vmst_scheme"
  assumes uvm: "uvm_ok s pgdir xs" and al: "pg_aligned a" and lt: "a < oldsz" and b: "unat oldsz \<le> 2147483648"
  shows "\<exists>a' s1 xs1 R. deallocuvm_loop (Suc fuel) pgdir a oldsz s = deallocuvm_loop fuel pgdir a' oldsz s1 \<and>
     pg_aligned a' \<and> unat a + 4096 \<le> unat a' \<and> unmaps s pgdir xs R s1 xs1 \<and>
     umapped_range (mem s) pgdir a oldsz = R \<union> umapped_range (mem s1) pgdir a' oldsz \<and>
     R \<inter> umapped_range (mem s1) pgdir a' oldsz = {}"
proof -
  have ok: "pgdir_ok (kend s) (mem s) pgdir xs" using uvm by (simp add: uvm_ok_def vm_ok_def)
  have ltn: "unat a < unat oldsz" using lt by (simp add: word_less_nat_alt)
  then have aK: "a < KERNBASE" using b by (simp add: word_less_nat_alt)
  have na: "unat a + 4096 < 2 ^ 32" using ltn b by simp
  then have na': "unat (a + 4096) = unat a + 4096" by (subst unat_add_no_wrap) auto
  have al': "pg_aligned (a + 4096)" using al by (simp add: pg_aligned_add)
  note split = umapped_range_split [OF al na lt, of "mem s" pgdir]
  consider "\<not> present (pde_at (mem s) pgdir (PDX a))"
    | "present (pde_at (mem s) pgdir (PDX a))" "\<not> present (pte_at (mem s) pgdir a)"
    | "present (pde_at (mem s) pgdir (PDX a))" "present (pte_at (mem s) pgdir a)" by blast
  then show ?thesis
  proof cases
    case 1
    then have "pte_ptr (mem s) pgdir a = 0" using pte_ptr_nonzero [OF ok] by simp
    then have "deallocuvm_loop (Suc fuel) pgdir a oldsz s = deallocuvm_loop fuel pgdir (next_slot a) oldsz s"
      using lt by (simp add: walkpgdir_read next_slot_def)
    then show ?thesis using next_slot_gap [OF aK al] umapped_range_skip [OF aK al 1] unmaps_refl [OF uvm]
      by (intro exI [of _ "next_slot a"] exI [of _ s] exI [of _ xs] exI [of _ "{}"]) simp
  next
    case 2
    then have "pte_ptr (mem s) pgdir a \<noteq> 0" "load32 (mem s) (pte_ptr (mem s) pgdir a) AND PTE_P = 0"
      using pte_ptr_nonzero [OF ok] by (auto simp: pte_at_def present_def)
    then have "deallocuvm_loop (Suc fuel) pgdir a oldsz s = deallocuvm_loop fuel pgdir (a + 4096) oldsz s"
      using lt by (simp add: walkpgdir_read)
    moreover have "a \<notin> umapped (mem s) pgdir" using 2 by (simp add: umapped_def)
    ultimately show ?thesis using al' na' split unmaps_refl [OF uvm]
      by (intro exI [of _ "a + 4096"] exI [of _ s] exI [of _ xs] exI [of _ "{}"]) simp
  next
    case 3
    then have um: "a \<in> umapped (mem s) pgdir" using aK al by (simp add: umapped_def)
    let ?f = "uframe (mem s) pgdir a" and ?p = "pte_ptr (mem s) pgdir a"
    obtain s1 where s1: "kfree ?f s = Ret () s1" "kend s1 = kend s"
        "uvm_ok (s1\<lparr>mem := store32 (mem s1) ?p 0\<rparr>) pgdir (?f # xs)"
        "\<forall>x. pte_at (store32 (mem s1) ?p 0) pgdir x = (if PGROUNDDOWN x = a then 0 else pte_at (mem s) pgdir x)"
        "pt_pages (store32 (mem s1) ?p 0) pgdir = pt_pages (mem s) pgdir"
      using unmap_one [OF uvm um] by blast
    let ?s2 = "s1\<lparr>mem := store32 (mem s1) ?p 0\<rparr>"
    have u: "unmaps s pgdir xs {a} ?s2 (?f # xs)" using s1 by (simp add: unmaps_def)
    have "page_ok (kend s) ?f" "KERNBASE < kend s" using uvm um by (auto simp: uvm_ok_def)
    then have "?f \<noteq> P2V 0" by (auto simp: page_ok_def P2V_def)
    then have "PTE_ADDR (pte_at (mem s) pgdir a) \<noteq> 0" by (auto simp: uframe_def)
    moreover have "?p \<noteq> 0" "load32 (mem s) ?p = pte_at (mem s) pgdir a"
      using 3 pte_ptr_nonzero [OF ok] by (auto simp: pte_at_def)
    ultimately have "deallocuvm_loop (Suc fuel) pgdir a oldsz s = deallocuvm_loop fuel pgdir (a + 4096) oldsz ?s2"
      using lt s1(1) 3(2) by (simp add: walkpgdir_read present_def uframe_def)
    moreover have "a \<notin> umapped_range m pgdir (a + 4096) oldsz" for m
      using na' by (simp add: umapped_range_def word_le_nat_alt)
    ultimately show ?thesis using al' na' split um u umapped_after [OF u, of "a + 4096" oldsz]
      by (intro exI [of _ "a + 4096"] exI [of _ ?s2] exI [of _ "?f # xs"] exI [of _ "{a}"]) simp
  qed
qed

lemma deallocuvm_loop_spec:
  fixes s :: "'a vmst_scheme"
  assumes "uvm_ok s pgdir xs" "pg_aligned a" "unat oldsz \<le> 2147483648"
    and "unat oldsz \<le> unat a + 4096 * k" "k < fuel"
  shows "\<exists>s' xs'. deallocuvm_loop fuel pgdir a oldsz s = Ret () s' \<and>
     unmaps s pgdir xs (umapped_range (mem s) pgdir a oldsz) s' xs'"
  using assms
proof (induction fuel arbitrary: a k s xs)
  case (Suc fuel)
  show ?case
  proof (cases "a < oldsz")
    case False
    then have "umapped_range (mem s) pgdir a oldsz = {}" by (auto simp: umapped_range_def)
    then show ?thesis using False unmaps_refl [OF Suc.prems(1)] by (intro exI [of _ s] exI [of _ xs]) simp
  next
    case True
    obtain a' s1 xs1 R where pass: "deallocuvm_loop (Suc fuel) pgdir a oldsz s = deallocuvm_loop fuel pgdir a' oldsz s1"
        "pg_aligned a'" "unat a + 4096 \<le> unat a'" "unmaps s pgdir xs R s1 xs1"
        "umapped_range (mem s) pgdir a oldsz = R \<union> umapped_range (mem s1) pgdir a' oldsz"
        "R \<inter> umapped_range (mem s1) pgdir a' oldsz = {}"
      using deallocuvm_pass [OF Suc.prems(1,2) True Suc.prems(3)] by blast
    obtain k' where "k = Suc k'" using True Suc.prems(4) by (cases k) (auto simp: word_less_nat_alt)
    then have k': "unat oldsz \<le> unat a' + 4096 * k'" "k' < fuel" using Suc.prems(4,5) pass(3) by auto
    have uvm1: "uvm_ok s1 pgdir xs1" using pass(4) by (simp add: unmaps_def)
    obtain s' xs' where "deallocuvm_loop fuel pgdir a' oldsz s1 = Ret () s'"
        "unmaps s1 pgdir xs1 (umapped_range (mem s1) pgdir a' oldsz) s' xs'"
      using Suc.IH [OF uvm1 pass(2) Suc.prems(3) k'] by blast
    moreover have "umapped_range (mem s1) pgdir a' oldsz \<subseteq> Collect pg_aligned"
      by (auto simp: umapped_range_def umapped_def)
    ultimately show ?thesis unfolding pass(1,5) using unmaps_trans [OF pass(4) _ _ pass(6)] by blast
  qed
qed simp

lemma deallocuvm_unmaps:
  fixes s :: "'a vmst_scheme"
  assumes "uvm_ok s pgdir xs" "newsz < oldsz" "oldsz \<le> KERNBASE"
  shows "\<exists>s' xs'. deallocuvm pgdir oldsz newsz s = Ret newsz s' \<and>
     unmaps s pgdir xs (umapped_range (mem s) pgdir (PGROUNDUP newsz) oldsz) s' xs'"
proof -
  have b: "unat oldsz \<le> 2147483648" using assms(3) by (simp add: word_le_nat_alt)
  then have "unat oldsz \<le> unat (PGROUNDUP newsz) + 4096 * npages" by simp
  from deallocuvm_loop_spec [OF assms(1) pg_aligned_PGROUNDUP b this lessI] obtain s' xs' where
      "deallocuvm_loop (Suc npages) pgdir (PGROUNDUP newsz) oldsz s = Ret () s'"
      "unmaps s pgdir xs (umapped_range (mem s) pgdir (PGROUNDUP newsz) oldsz) s' xs'" by blast
  then show ?thesis using assms(2) unfolding deallocuvm_def
    by (intro exI [of _ s'] exI [of _ xs']) (auto simp del: deallocuvm_loop.simps)
qed

section \<open>freevm\<close>

text \<open>The directory slots from \<open>i\<close> on that hold a page table, and when these can be freed.\<close>

definition slots :: "mem \<Rightarrow> u32 \<Rightarrow> u32 \<Rightarrow> u32 set" where
  "slots m pgdir i = {j. i \<le> j \<and> unat j < 1024 \<and> present (pde_at m pgdir j)}"

definition tables_ok :: "u32 \<Rightarrow> mem \<Rightarrow> u32 \<Rightarrow> u32 \<Rightarrow> u32 list \<Rightarrow> bool" where
  "tables_ok e m pgdir i xs \<longleftrightarrow> page_ok e pgdir \<and> pgdir \<notin> set xs \<and>
     inj_on (table_at m pgdir) (slots m pgdir i) \<and>
     (\<forall>j\<in>slots m pgdir i. page_ok e (table_at m pgdir j) \<and> table_at m pgdir j \<notin> set xs \<and> table_at m pgdir j \<noteq> pgdir)"

lemma tables_ok_cong:
  assumes "\<And>j. unat j < 1024 \<Longrightarrow> pde_at m' pgdir j = pde_at m pgdir j"
  shows "slots m' pgdir i = slots m pgdir i"
    and "table_at m' pgdir ` slots m pgdir i = table_at m pgdir ` slots m pgdir i"
    and "tables_ok e m' pgdir i xs = tables_ok e m pgdir i xs"
proof -
  show sl: "slots m' pgdir i = slots m pgdir i" by (auto simp: slots_def assms)
  have t: "table_at m' pgdir j = table_at m pgdir j" if "j \<in> slots m pgdir i" for j
    using assms [of j] that by (simp add: table_at_def slots_def)
  then show "table_at m' pgdir ` slots m pgdir i = table_at m pgdir ` slots m pgdir i"
    by (intro image_cong) auto
  have "inj_on (table_at m' pgdir) (slots m pgdir i) = inj_on (table_at m pgdir) (slots m pgdir i)"
    using t by (intro inj_on_cong) auto
  then show "tables_ok e m' pgdir i xs = tables_ok e m pgdir i xs"
    by (simp add: tables_ok_def sl t)
qed

lemma slots_step:
  assumes "unat i < 1024"
  shows "slots m pgdir i = (if present (pde_at m pgdir i) then insert i (slots m pgdir (i + 1)) else slots m pgdir (i + 1))"
    and "i \<notin> slots m pgdir (i + 1)"
proof -
  have "unat (i + 1) = unat i + 1" using assms by (subst unat_add_no_wrap) auto
  then have "i \<le> j \<longleftrightarrow> j = i \<or> i + 1 \<le> j" "\<not> i + 1 \<le> i" for j
    by (auto simp: word_le_nat_alt word_unat_eq_iff)
  then show "slots m pgdir i = (if present (pde_at m pgdir i) then insert i (slots m pgdir (i + 1)) else slots m pgdir (i + 1))"
    and "i \<notin> slots m pgdir (i + 1)" using assms by (auto simp: slots_def)
qed

lemma tables_ok_step:
  assumes "unat i < 1024" "tables_ok e m pgdir i xs"
  shows "tables_ok e m pgdir (i + 1) (if present (pde_at m pgdir i) then table_at m pgdir i # xs else xs)"
proof (cases "present (pde_at m pgdir i)")
  case True
  then have sl: "slots m pgdir i = insert i (slots m pgdir (i + 1))" "i \<notin> slots m pgdir (i + 1)"
    using slots_step [OF assms(1), of m pgdir] by simp_all
  then have "table_at m pgdir j \<noteq> table_at m pgdir i" if "j \<in> slots m pgdir (i + 1)" for j
    using assms(2) that by (auto simp: tables_ok_def) (metis imageI)
  then show ?thesis using assms(2) True sl by (auto simp: tables_ok_def)
qed (use assms(2) slots_step [OF assms(1), of m pgdir] in \<open>simp add: tables_ok_def\<close>)

lemma freevm_loop_spec:
  fixes s :: "'a vmst_scheme"
  assumes "free_pages s xs" "tables_ok (kend s) (mem s) pgdir i xs" "unat i + n = 1024"
  shows "\<exists>s' xs'. freevm_loop n pgdir i s = Ret () s' \<and> free_pages s' xs' \<and> kend s' = kend s \<and>
     set xs' = set xs \<union> table_at (mem s) pgdir ` slots (mem s) pgdir i \<and> pgdir \<notin> set xs'"
  using assms
proof (induction n arbitrary: i s xs)
  case 0
  then have "slots (mem s) pgdir i = {}" by (auto simp: slots_def word_le_nat_alt)
  then show ?case using 0 by (auto simp: tables_ok_def)
next
  case (Suc n)
  then have i: "unat i < 1024" "unat (i + 1) + n = 1024"
    by (simp_all add: unat_word_ariths)
  show ?case
  proof (cases "present (pde_at (mem s) pgdir i)")
    case False
    then show ?thesis
      using Suc.IH [of s xs "i + 1"] Suc.prems(1) slots_step [OF i(1), of "mem s" pgdir] i(2)
        tables_ok_step [OF i(1) Suc.prems(2)]
      by (simp add: Let_def present_def pde_at_def)
  next
    case True
    let ?t = "table_at (mem s) pgdir i"
    have t: "page_ok (kend s) ?t" "?t \<notin> set xs" "?t \<noteq> pgdir" "pg_aligned pgdir"
      using Suc.prems(2) True slots_step(1) [OF i(1), of "mem s" pgdir] by (auto simp: tables_ok_def page_ok_aligned)
    obtain s1 where s1: "kfree ?t s = Ret () s1" "free_pages s1 (?t # xs)" "same_outside ?t (mem s) (mem s1)" "kend s1 = kend s"
      using kfree_free_pages [OF Suc.prems(1) t(1,2)] by blast
    have pde: "pde_at (mem s1) pgdir j = pde_at (mem s) pgdir j" if "unat j < 1024" for j
      unfolding pde_at_def using t that
      by (intro load32_word_outside [OF s1(3)]) (auto simp: page_ok_aligned)
    have "tables_ok (kend s1) (mem s1) pgdir (i + 1) (?t # xs)"
      using tables_ok_step [OF i(1) Suc.prems(2)] True s1(4) by (simp add: tables_ok_cong(3) [OF pde])
    from Suc.IH [OF s1(2) this i(2)] obtain s' xs' where
      "freevm_loop n pgdir (i + 1) s1 = Ret () s'" "free_pages s' xs'" "kend s' = kend s1"
      "set xs' = set (?t # xs) \<union> table_at (mem s1) pgdir ` slots (mem s1) pgdir (i + 1)" "pgdir \<notin> set xs'" by blast
    moreover have "freevm_loop (Suc n) pgdir i s = freevm_loop n pgdir (i + 1) s1"
      using True s1(1) by (simp add: Let_def present_def table_at_def pde_at_def)
    ultimately show ?thesis using True s1(4) slots_step(1) [OF i(1), of "mem s" pgdir]
      by (auto simp: tables_ok_cong(1,2) [OF pde] simp del: freevm_loop.simps)
  qed
qed

lemma freevm_frees:
  fixes s :: "'a vmst_scheme"
  assumes "uvm_ok s pgdir xs"
  shows "\<exists>s' xs'. freevm pgdir s = Ret () s' \<and> free_pages s' xs' \<and> kend s' = kend s \<and>
     set xs' = set xs \<union> pt_pages (mem s) pgdir \<union> uframe (mem s) pgdir ` umapped (mem s) pgdir"
proof -
  have R: "umapped_range (mem s) pgdir (PGROUNDUP 0) KERNBASE = umapped (mem s) pgdir"
    by (auto simp: umapped_range_def umapped_def PGROUNDUP_def)
  obtain s1 xs1 where d: "deallocuvm pgdir KERNBASE 0 s = Ret 0 s1" "unmaps s pgdir xs (umapped (mem s) pgdir) s1 xs1"
    using deallocuvm_unmaps [OF assms, of 0 KERNBASE] R by auto
  then have u: "uvm_ok s1 pgdir xs1" "kend s1 = kend s" "pt_pages (mem s1) pgdir = pt_pages (mem s) pgdir"
     "set xs1 = set xs \<union> uframe (mem s) pgdir ` umapped (mem s) pgdir" by (auto simp: unmaps_def)
  then have fp: "free_pages s1 xs1" and tok: "tables_ok (kend s1) (mem s1) pgdir 0 xs1"
    by (auto simp: uvm_ok_def vm_ok_def pgdir_ok_def tables_ok_def slots_def inj_on_def)
  then have ok: "page_ok (kend s) pgdir" using u(2) by (simp add: tables_ok_def)
  obtain s2 xs2 where l: "freevm_loop 1024 pgdir 0 s1 = Ret () s2" "free_pages s2 xs2" "kend s2 = kend s1"
     "set xs2 = set xs1 \<union> table_at (mem s1) pgdir ` slots (mem s1) pgdir 0" "pgdir \<notin> set xs2"
    using freevm_loop_spec [OF fp tok, of 1024] by auto
  obtain s3 where "kfree pgdir s2 = Ret () s3" "free_pages s3 (pgdir # xs2)" "kend s3 = kend s2"
    using kfree_free_pages [OF l(2) _ l(5)] ok l(3) u(2) by auto
  moreover have "pt_pages (mem s) pgdir = insert pgdir (table_at (mem s1) pgdir ` slots (mem s1) pgdir 0)"
    using u(3) by (auto simp: pt_pages_def slots_def)
  ultimately show ?thesis using d(1) l u page_ok_nonzero [OF ok]
    by (intro exI [of _ s3] exI [of _ "pgdir # xs2"]) (auto simp: freevm_def)
qed
section \<open>Growing\<close>

definition upages :: "mem \<Rightarrow> u32 \<Rightarrow> u32 set" where
  "upages m pgdir = pt_pages m pgdir \<union> uframe m pgdir ` umapped m pgdir"

definition user_perm :: "u32 \<Rightarrow> bool" where
  "user_perm e \<longleftrightarrow> PTE_FLAGS e = PTE_P OR PTE_W OR PTE_U"

definition zero_page :: "mem \<Rightarrow> u32 \<Rightarrow> bool" where
  "zero_page m v \<longleftrightarrow> (\<forall>a. PGROUNDDOWN a = v \<longrightarrow> m a = 0)"

text \<open>
  An operation that only maps further user pages: the invariant holds with the new free list, no
  page is lost, old mappings stay, and memory is written in the page table and in free pages only.
\<close>

definition grows :: "'a vmst_scheme \<Rightarrow> u32 \<Rightarrow> u32 list \<Rightarrow> u32 set \<Rightarrow> 'a vmst_scheme \<Rightarrow> u32 list \<Rightarrow> bool" where
  "grows s pgdir xs N s' xs' \<longleftrightarrow> uvm_ok s' pgdir xs' \<and> kend s' = kend s \<and> set xs' \<subseteq> set xs \<and>
     set xs' \<union> upages (mem s') pgdir = set xs \<union> upages (mem s) pgdir \<and>
     changes_only (set xs \<union> pt_pages (mem s) pgdir) (mem s) (mem s') \<and>
     pt_pages (mem s') pgdir \<subseteq> set xs \<union> pt_pages (mem s) pgdir \<and>
     (\<forall>x. PGROUNDDOWN x \<notin> N \<longrightarrow> pte_at (mem s') pgdir x = pte_at (mem s) pgdir x) \<and>
     (\<forall>x\<in>N. user_perm (pte_at (mem s') pgdir x) \<and> uframe (mem s') pgdir x \<in> set xs \<and>
        zero_page (mem s') (uframe (mem s') pgdir x))"

lemma growsD:
  assumes "grows s pgdir xs N s' xs'"
  shows "uvm_ok s' pgdir xs'" "kend s' = kend s" "set xs' \<subseteq> set xs"
    "set xs' \<union> upages (mem s') pgdir = set xs \<union> upages (mem s) pgdir"
    "changes_only (set xs \<union> pt_pages (mem s) pgdir) (mem s) (mem s')"
    "pt_pages (mem s') pgdir \<subseteq> set xs \<union> pt_pages (mem s) pgdir"
    "\<And>x. PGROUNDDOWN x \<notin> N \<Longrightarrow> pte_at (mem s') pgdir x = pte_at (mem s) pgdir x"
    "\<And>x. x \<in> N \<Longrightarrow> user_perm (pte_at (mem s') pgdir x) \<and> uframe (mem s') pgdir x \<in> set xs \<and>
        zero_page (mem s') (uframe (mem s') pgdir x)"
  using assms unfolding grows_def by blast+

lemma grows_refl: "uvm_ok s pgdir xs \<Longrightarrow> grows s pgdir xs {} s xs"
  by (simp add: grows_def)

lemma user_perm_present: "user_perm e \<Longrightarrow> present e"
proof -
  assume "user_perm e"
  then have "e AND 0xFFF = 7" by (simp add: user_perm_def PTE_FLAGS_def)
  moreover have "e AND 1 = (e AND 0xFFF) AND 1" by (simp add: and.assoc)
  ultimately show ?thesis by (simp add: present_def)
qed

lemma grows_trans:
  assumes a: "grows s pgdir xs N s' xs'" and b: "grows s' pgdir xs' N' s'' xs''"
    and al: "N \<subseteq> {va. pg_aligned va \<and> va < KERNBASE}" "N' \<subseteq> Collect pg_aligned" "N \<inter> N' = {}"
  shows "grows s pgdir xs (N \<union> N') s'' xs''"
proof -
  let ?P = "set xs \<union> pt_pages (mem s) pgdir"
  note A = growsD [OF a] and B = growsD [OF b]
  have sub: "set xs' \<union> pt_pages (mem s') pgdir \<subseteq> ?P" using A(3,6) by blast
  have new: "user_perm (pte_at (mem s'') pgdir x) \<and> uframe (mem s'') pgdir x \<in> set xs \<and>
        zero_page (mem s'') (uframe (mem s'') pgdir x)" if x: "x \<in> N" for x
  proof -
    have ax: "PGROUNDDOWN x = x" "x \<notin> N'" "pg_aligned x" "x < KERNBASE" using al x by auto
    have same: "pte_at (mem s'') pgdir x = pte_at (mem s') pgdir x" using B(7) [of x] ax by simp
    have "x \<in> umapped (mem s') pgdir" using ax A(8) [OF x] by (simp add: umapped_def user_perm_present)
    then have "uframe (mem s') pgdir x \<notin> set xs' \<union> pt_pages (mem s') pgdir" using A(1) by (simp add: uvm_ok_def)
    then have "zero_page (mem s'') (uframe (mem s') pgdir x)"
      using A(8) [OF x] B(5) unfolding zero_page_def changes_only_def by metis
    then show ?thesis using A(8) [OF x] same by (simp add: uframe_def)
  qed
  show ?thesis unfolding grows_def
  proof (intro conjI allI impI ballI)
    show "changes_only ?P (mem s) (mem s'')"
      using A(5) changes_only_mono [OF B(5) sub] by (rule changes_only_trans) simp
    show "pt_pages (mem s'') pgdir \<subseteq> ?P" "set xs'' \<subseteq> set xs" using B(3,6) A(3) sub by blast+
    show "set xs'' \<union> upages (mem s'') pgdir = set xs \<union> upages (mem s) pgdir" using A(4) B(4) by simp
    fix x assume "x \<in> N \<union> N'"
    then show "user_perm (pte_at (mem s'') pgdir x)" "uframe (mem s'') pgdir x \<in> set xs"
        "zero_page (mem s'') (uframe (mem s'') pgdir x)"
      using new B(8) A(3) by blast+
  qed (use A B in auto)
qed

lemma PTE_user_entry:
  assumes "pg_aligned p"
  shows "user_perm (V2P p OR (PTE_W OR PTE_U) OR PTE_P)" "P2V (PTE_ADDR (V2P p OR (PTE_W OR PTE_U) OR PTE_P)) = p"
proof -
  have al: "pg_aligned (V2P p)" using assms by (simp add: V2P_def pg_aligned_diff)
  have e: "V2P p OR (PTE_W OR PTE_U) OR PTE_P = V2P p OR 7" by simp
  have f: "unat (7 :: u32) < 4096" by simp
  show "user_perm (V2P p OR (PTE_W OR PTE_U) OR PTE_P)"
    unfolding e user_perm_def using PTE_ADDR_or(2) [OF al f] by simp
  show "P2V (PTE_ADDR (V2P p OR (PTE_W OR PTE_U) OR PTE_P)) = p"
    unfolding e using PTE_ADDR_or(1) [OF al f] by simp
qed

lemma zero_page_memset:
  assumes "pg_aligned p"
  shows "zero_page (memset m p 0 4096) p"
  unfolding zero_page_def
proof (intro allI impI)
  fix a assume "PGROUNDDOWN a = p"
  then have "unat (a - p) < 4096" using unat_page_offset [of a] by simp
  then show "memset m p 0 4096 a = 0" by (simp add: memset_apply)
qed

text \<open>Mapping one fresh zeroed page, the body of the loop of \<open>allocuvm\<close>, when both steps succeed or the second fails.\<close>

lemma alloc_page_ok:
  fixes s :: "'a vmst_scheme"
  assumes uvm: "uvm_ok s pgdir (p # ys)"
  obtains s1 where "kalloc s = Ret p s1" "p \<noteq> 0" "page_ok (kend s) p" "p \<notin> pt_pages (mem s) pgdir" "p \<notin> set ys"
    "vm_ok (s1\<lparr>mem := memset (mem s1) p 0 4096\<rparr>) pgdir ys" "mem s1 = mem s" "kend s1 = kend s"
    "changes_only {p} (mem s) (memset (mem s) p 0 4096)"
proof -
  have fp: "free_pages s (p # ys)" and ok: "pgdir_ok (kend s) (mem s) pgdir (p # ys)"
    using uvm by (auto simp: uvm_ok_def vm_ok_def)
  then have p: "page_ok (kend s) p" "p \<notin> set ys" by (auto simp: free_pages_def)
  have np: "p \<notin> pt_pages (mem s) pgdir" using pgdir_ok_pt_pages [OF ok] by auto
  obtain s1 where s1: "kalloc s = Ret p s1" "free_pages s1 ys" "mem s1 = mem s" "kend s1 = kend s"
    using kalloc_free_pages [OF fp] by auto
  have so: "same_outside p (mem s) (memset (mem s) p 0 4096)" by (rule same_outside_memset)
  have ch: "changes_only {p} (mem s) (memset (mem s) p 0 4096)"
    using p by (intro same_outside_changes_only [OF so]) (auto simp: page_ok_aligned)
  have "pgdir_ok (kend s) (memset (mem s) p 0 4096) pgdir (p # ys)"
    using pt_outside(3) [OF ok ch] np by simp
  then have "pgdir_ok (kend s) (memset (mem s) p 0 4096) pgdir ys" by (rule pgdir_ok_mono) auto
  moreover have "free_pages (s1\<lparr>mem := memset (mem s) p 0 4096\<rparr>) ys"
    using free_pages_mem_outside [OF s1(2), of p "memset (mem s) p 0 4096"] s1(3) so p by (simp add: page_ok_aligned)
  ultimately show thesis using that [of s1] s1 p np ch page_ok_nonzero [OF p(1)] by (simp add: vm_ok_def)
qed

lemma uvm_ok_same_ptes:
  assumes "uvm_ok s pgdir xs" "vm_ok s' pgdir xs'" "kend s' = kend s"
    and "\<And>x. pte_at (mem s') pgdir x = pte_at (mem s) pgdir x"
    and "set xs' \<union> pt_pages (mem s') pgdir \<subseteq> set xs \<union> pt_pages (mem s) pgdir"
  shows "uvm_ok s' pgdir xs'" "umapped (mem s') pgdir = umapped (mem s) pgdir"
    "uframe (mem s') pgdir = uframe (mem s) pgdir"
proof -
  show m: "umapped (mem s') pgdir = umapped (mem s) pgdir" by (simp add: umapped_def assms(4))
  show f: "uframe (mem s') pgdir = uframe (mem s) pgdir" by (simp add: uframe_def fun_eq_iff assms(4))
  show "uvm_ok s' pgdir xs'" using assms(1,2,5) unfolding uvm_ok_def m f assms(3) by blast
qed

lemma alloc_page_map:
  fixes s :: "'a vmst_scheme"
  assumes uvm: "uvm_ok s pgdir (p # ys)" and a: "pg_aligned a" "a < KERNBASE" and np: "\<not> present (pte_at (mem s) pgdir a)"
    and vm1: "vm_ok s1 pgdir ys" and m1: "mem s1 = memset (mem s) p 0 4096" and k1: "kend s1 = kend s"
    and p: "page_ok (kend s) p" "p \<notin> pt_pages (mem s) pgdir" "p \<notin> set ys"
    and ch: "changes_only {p} (mem s) (mem s1)"
  shows "\<exists>r s2 xs2. mappages pgdir a PGSIZE (V2P p) (PTE_W OR PTE_U) s1 = Ret r s2 \<and>
     (r = 0 \<and> grows s pgdir (p # ys) {a} s2 xs2 \<or>
      r = -1 \<and> xs2 = [] \<and> uvm_ok s2 pgdir [] \<and> kend s2 = kend s \<and> p \<notin> upages (mem s2) pgdir \<and>
        (\<forall>x. pte_at (mem s2) pgdir x = pte_at (mem s) pgdir x) \<and>
        insert p (upages (mem s2) pgdir) = set (p # ys) \<union> upages (mem s) pgdir)"
proof -
  have ok: "pgdir_ok (kend s) (mem s) pgdir (p # ys)" using uvm by (auto simp: uvm_ok_def vm_ok_def)
  have dis: "{p} \<inter> pt_pages (mem s) pgdir = {}" using p(2) by simp
  note out = pt_outside [OF ok ch dis]
  have alp: "pg_aligned p" using p(1) by (rule page_ok_aligned)
  have np1: "\<not> present (pte_at (mem s1) pgdir a)" using np out(2) by simp
  obtain r s2 xs2 where m: "mappages pgdir a PGSIZE (V2P p) (PTE_W OR PTE_U) s1 = Ret r s2" "pt_step s1 pgdir ys s2 xs2"
     "r = 0 \<and> (\<forall>x. pte_at (mem s2) pgdir x = (if PGROUNDDOWN x = a then V2P p OR (PTE_W OR PTE_U) OR PTE_P else pte_at (mem s) pgdir x)) \<or>
      r = -1 \<and> xs2 = [] \<and> (\<forall>x. pte_at (mem s2) pgdir x = pte_at (mem s) pgdir x)"
    using mappages_page [OF vm1 a(1) np1, of "V2P p" "PTE_W OR PTE_U"] unfolding out(2) by blast
  have st: "vm_ok s2 pgdir xs2" "kend s2 = kend s" "set xs2 \<subseteq> set ys"
      "pt_pages (mem s2) pgdir \<union> set xs2 = pt_pages (mem s) pgdir \<union> set ys"
      "changes_only (pt_pages (mem s) pgdir \<union> set ys) (mem s1) (mem s2)"
    using m(2) out(4) k1 by (simp_all add: pt_step_def)
  have old: "page_ok (kend s) (uframe (mem s) pgdir x)"
      "uframe (mem s) pgdir x \<notin> insert p (set ys) \<union> pt_pages (mem s) pgdir"
    if "x \<in> umapped (mem s) pgdir" for x using uvm that by (auto simp: uvm_ok_def)
  from m(3) show ?thesis
  proof (elim disjE conjE)
    assume r: "r = -1" "xs2 = []" and same: "\<forall>x. pte_at (mem s2) pgdir x = pte_at (mem s) pgdir x"
    have "set xs2 \<union> pt_pages (mem s2) pgdir \<subseteq> set (p # ys) \<union> pt_pages (mem s) pgdir" using st(4) by auto
    note u = uvm_ok_same_ptes [OF uvm st(1,2) _ this, OF same [rule_format]]
    have "pt_pages (mem s2) pgdir = pt_pages (mem s) pgdir \<union> set ys" using st(4) r(2) by simp
    then have "p \<notin> upages (mem s2) pgdir" "insert p (upages (mem s2) pgdir) = set (p # ys) \<union> upages (mem s) pgdir"
      using p old unfolding upages_def u(2,3) by auto
    then show ?thesis using m(1) r u(1) st(2) same by (intro exI [of _ r] exI [of _ s2] exI [of _ xs2]) simp
  next
    let ?e = "V2P p OR (PTE_W OR PTE_U) OR PTE_P"
    assume r: "r = 0" and pt: "\<forall>x. pte_at (mem s2) pgdir x = (if PGROUNDDOWN x = a then ?e else pte_at (mem s) pgdir x)"
    note e = PTE_user_entry [OF alp]
    have um: "umapped (mem s2) pgdir = insert a (umapped (mem s) pgdir)" "a \<notin> umapped (mem s) pgdir"
      using pt a np user_perm_present [OF e(1)] by (auto simp: umapped_def split: if_splits)
    have fa: "uframe (mem s2) pgdir a = p" using pt a(1) e(2) by (simp add: uframe_def)
    have fo: "uframe (mem s2) pgdir x = uframe (mem s) pgdir x" if "x \<in> umapped (mem s) pgdir" for x
    proof -
      have "PGROUNDDOWN x \<noteq> a" using um(2) that by (auto simp: umapped_def)
      then show ?thesis using pt by (simp add: uframe_def)
    qed
    have img: "uframe (mem s2) pgdir ` umapped (mem s2) pgdir = insert p (uframe (mem s) pgdir ` umapped (mem s) pgdir)"
      unfolding um(1) using fa fo by auto
    have "inj_on (uframe (mem s2) pgdir) (umapped (mem s) pgdir) = inj_on (uframe (mem s) pgdir) (umapped (mem s) pgdir)"
      by (rule inj_on_cong) (rule fo)
    then have "inj_on (uframe (mem s2) pgdir) (umapped (mem s2) pgdir)"
      unfolding um(1) using uvm old um(2) fa fo by (auto simp: uvm_ok_def)
    moreover have "page_ok (kend s) y \<and> y \<notin> set xs2 \<union> pt_pages (mem s2) pgdir"
      if "y \<in> uframe (mem s2) pgdir ` umapped (mem s2) pgdir" for y
      using that p old st(4) unfolding img by blast
    ultimately have "uvm_ok s2 pgdir xs2" using st(1,2) uvm by (simp add: uvm_ok_def)
    moreover have "zero_page (mem s2) p"
      using zero_page_memset [OF alp, of "mem s"] st(5) p(2,3) unfolding zero_page_def changes_only_def m1 by auto
    moreover have "changes_only (set (p # ys) \<union> pt_pages (mem s) pgdir) (mem s) (mem s2)"
      using ch st(5) by (rule changes_only_trans) auto
    moreover have "set xs2 \<union> upages (mem s2) pgdir = set (p # ys) \<union> upages (mem s) pgdir"
      unfolding upages_def img using st(4) by auto
    moreover have "pt_pages (mem s2) pgdir \<subseteq> set (p # ys) \<union> pt_pages (mem s) pgdir" "set xs2 \<subseteq> set (p # ys)"
      using st(3,4) by auto
    ultimately have "grows s pgdir (p # ys) {a} s2 xs2"
      unfolding grows_def using st(2) pt e(1) fa a(1) by simp
    then show ?thesis using m(1) r by blast
  qed
qed

text \<open>The page-aligned addresses from \<open>a\<close> up to \<open>b\<close>.\<close>

definition user_range :: "u32 \<Rightarrow> u32 \<Rightarrow> u32 set" where
  "user_range a b = {va. pg_aligned va \<and> a \<le> va \<and> va < b}"

text \<open>The effect of giving back the user pages in \<open>R\<close>, seen from the mapped pages only.\<close>

definition shrinks :: "'a vmst_scheme \<Rightarrow> u32 \<Rightarrow> u32 list \<Rightarrow> u32 set \<Rightarrow> 'a vmst_scheme \<Rightarrow> u32 list \<Rightarrow> bool" where
  "shrinks s pgdir xs R s' xs' \<longleftrightarrow> uvm_ok s' pgdir xs' \<and> kend s' = kend s \<and>
     umapped (mem s') pgdir = umapped (mem s) pgdir - R \<and>
     (\<forall>x\<in>umapped (mem s') pgdir. pte_at (mem s') pgdir x = pte_at (mem s) pgdir x) \<and>
     set xs' \<union> upages (mem s') pgdir = set xs \<union> upages (mem s) pgdir"

lemma unmaps_shrinks:
  assumes "unmaps s pgdir xs (umapped_range (mem s) pgdir a b) s' xs'"
  shows "shrinks s pgdir xs (user_range a b) s' xs'"
proof -
  let ?R = "umapped_range (mem s) pgdir a b" and ?U = "umapped (mem s) pgdir"
  have u: "uvm_ok s' pgdir xs'" "kend s' = kend s" "pt_pages (mem s') pgdir = pt_pages (mem s) pgdir"
      "\<And>x. pte_at (mem s') pgdir x = (if PGROUNDDOWN x \<in> ?R then 0 else pte_at (mem s) pgdir x)"
      "set xs' = set xs \<union> uframe (mem s) pgdir ` ?R"
    using assms by (auto simp: unmaps_def)
  have um: "umapped (mem s') pgdir = ?U - ?R" by (auto simp: umapped_def u(4))
  have pt: "pte_at (mem s') pgdir x = pte_at (mem s) pgdir x" if "x \<in> ?U - ?R" for x
    using that by (auto simp: u(4) umapped_def)
  then have "uframe (mem s') pgdir ` (?U - ?R) = uframe (mem s) pgdir ` (?U - ?R)"
    by (intro image_cong) (auto simp: uframe_def)
  moreover have "?R \<subseteq> ?U" by (auto simp: umapped_range_def)
  ultimately have "set xs' \<union> upages (mem s') pgdir = set xs \<union> upages (mem s) pgdir"
    unfolding upages_def um u(3,5) by blast
  moreover have "?U - ?R = ?U - user_range a b" by (auto simp: umapped_range_def umapped_def user_range_def)
  ultimately show ?thesis using u(1,2) um pt by (simp add: shrinks_def)
qed

lemma deallocuvm_shrinks:
  fixes s :: "'a vmst_scheme"
  assumes "uvm_ok s pgdir xs" "newsz < oldsz" "oldsz \<le> KERNBASE"
  shows "\<exists>s' xs'. deallocuvm pgdir oldsz newsz s = Ret newsz s' \<and>
     shrinks s pgdir xs (user_range (PGROUNDUP newsz) oldsz) s' xs'"
  using deallocuvm_unmaps [OF assms] unmaps_shrinks by blast

lemma grows_shrinks:
  assumes g: "grows s pgdir xs N s' xs'" and sh: "shrinks s' pgdir xs' R s'' xs''" and "N \<subseteq> R"
  shows "shrinks s pgdir xs R s'' xs''"
proof -
  have eq: "pte_at (mem s') pgdir x = pte_at (mem s) pgdir x" if "pg_aligned x" "x \<notin> R" for x
    using growsD(7) [OF g, of x] that assms(3) by auto
  then have "umapped (mem s') pgdir - R = umapped (mem s) pgdir - R"
    using assms(3) by (auto simp: umapped_def)
  moreover from this have "pte_at (mem s'') pgdir x = pte_at (mem s) pgdir x" if "x \<in> umapped (mem s) pgdir - R" for x
    using sh that eq [of x] by (auto simp: shrinks_def umapped_def)
  ultimately show ?thesis using sh growsD(2,4) [OF g] by (simp add: shrinks_def)
qed

lemma user_range_split:
  assumes "pg_aligned a" "a < b" "b \<le> KERNBASE"
  shows "user_range a b = insert a (user_range (a + 4096) b)" "a \<notin> user_range (a + 4096) b"
    "unat (a + 4096) = unat a + 4096"
proof -
  have na: "unat a + 4096 < 2 ^ 32" using assms(2,3) by (simp add: word_less_nat_alt word_le_nat_alt)
  then show na': "unat (a + 4096) = unat a + 4096" by (subst unat_add_no_wrap) auto
  then show "a \<notin> user_range (a + 4096) b" by (simp add: user_range_def word_le_nat_alt)
  show "user_range a b = insert a (user_range (a + 4096) b)"
    using page_next_iff [OF assms(1) _ na] assms(1,2) by (auto simp: user_range_def order_le_less)
qed

lemma uvm_ok_freemems: "uvm_ok (s\<lparr>freemems := n\<rparr>) pgdir xs = uvm_ok s pgdir xs"
  by (simp add: uvm_ok_def vm_ok_def free_pages_def)

lemma uvm_ok_kfree:
  fixes s :: "'a vmst_scheme"
  assumes uvm: "uvm_ok s pgdir xs" and p: "page_ok (kend s) p" "p \<notin> set xs" "p \<notin> upages (mem s) pgdir"
  shows "\<exists>s'. kfree p s = Ret () s' \<and> uvm_ok s' pgdir (p # xs) \<and> kend s' = kend s \<and>
    (\<forall>x. pte_at (mem s') pgdir x = pte_at (mem s) pgdir x) \<and> upages (mem s') pgdir = upages (mem s) pgdir"
proof -
  have fp: "free_pages s xs" and ok: "pgdir_ok (kend s) (mem s) pgdir xs" using uvm by (auto simp: uvm_ok_def vm_ok_def)
  obtain s' where s': "kfree p s = Ret () s'" "free_pages s' (p # xs)" "same_outside p (mem s) (mem s')" "kend s' = kend s"
    using kfree_free_pages [OF fp p(1,2)] by blast
  have ch: "changes_only {p} (mem s) (mem s')"
    using p(1) by (intro same_outside_changes_only [OF s'(3)]) (auto simp: page_ok_aligned)
  have dis: "{p} \<inter> pt_pages (mem s) pgdir = {}" using p(3) by (simp add: upages_def)
  note out = pt_outside [OF ok ch dis]
  have um: "umapped (mem s') pgdir = umapped (mem s) pgdir" by (simp add: umapped_def out(2))
  have uf: "uframe (mem s') pgdir = uframe (mem s) pgdir" by (simp add: uframe_def fun_eq_iff out(2))
  have "pgdir_ok (kend s) (mem s') pgdir (p # xs)" using out(3,4) dis by (simp add: pgdir_ok_Cons)
  then have "uvm_ok s' pgdir (p # xs)"
    using uvm s'(2,4) p(3) unfolding uvm_ok_def vm_ok_def um uf out(4) upages_def by auto
  then show ?thesis using s' out(2,4) um uf by (simp add: upages_def)
qed

text \<open>The second error path of \<open>allocuvm\<close>: the pages mapped so far are given back, then the page in hand.\<close>

lemma allocuvm_undo:
  fixes s2 :: "'a vmst_scheme"
  assumes uvm: "uvm_ok s2 pgdir []" and k: "kend s2 = kend s" and p: "page_ok (kend s) p" "p \<notin> upages (mem s2) pgdir"
    and same: "\<forall>x. pte_at (mem s2) pgdir x = pte_at (mem s) pgdir x"
    and cons: "insert p (upages (mem s2) pgdir) = set xs \<union> upages (mem s) pgdir"
    and sz: "oldsz < newsz" "newsz \<le> KERNBASE"
  shows "\<exists>s' xs'. kbind (deallocuvm pgdir newsz oldsz s2) (\<lambda>_ s. kbind (kfree p s) (\<lambda>_ s. Ret 0 s)) = Ret (0 :: u32) s' \<and>
     shrinks s pgdir xs (user_range (PGROUNDUP oldsz) newsz) s' xs'"
proof -
  obtain s3 xs3 where d: "deallocuvm pgdir newsz oldsz s2 = Ret oldsz s3"
      and sh: "shrinks s2 pgdir [] (user_range (PGROUNDUP oldsz) newsz) s3 xs3"
    using deallocuvm_shrinks [OF uvm sz] by blast
  then have c: "uvm_ok s3 pgdir xs3" "kend s3 = kend s" "set xs3 \<union> upages (mem s3) pgdir = upages (mem s2) pgdir"
    using k by (auto simp: shrinks_def)
  have p3: "page_ok (kend s3) p" "p \<notin> set xs3" "p \<notin> upages (mem s3) pgdir" using p c(2,3) by auto
  obtain s4 where s4: "kfree p s3 = Ret () s4" "uvm_ok s4 pgdir (p # xs3)" "kend s4 = kend s3"
     "\<forall>x. pte_at (mem s4) pgdir x = pte_at (mem s3) pgdir x" "upages (mem s4) pgdir = upages (mem s3) pgdir"
    using uvm_ok_kfree [OF c(1) p3] by blast
  have "umapped (mem s4) pgdir = umapped (mem s3) pgdir" "umapped (mem s2) pgdir = umapped (mem s) pgdir"
    by (simp_all add: umapped_def s4(4) same)
  then have "shrinks s pgdir xs (user_range (PGROUNDUP oldsz) newsz) s4 (p # xs3)"
    using sh s4 c cons same by (simp add: shrinks_def)
  then show ?thesis using d s4(1) by auto
qed

lemma allocuvm_loop_spec:
  fixes s :: "'a vmst_scheme"
  assumes "uvm_ok s pgdir xs" "pg_aligned a" "PGROUNDUP oldsz \<le> a" "oldsz < newsz" "newsz \<le> KERNBASE"
    and "unat newsz \<le> unat a + 4096 * k" "k < fuel"
    and "\<forall>va\<in>user_range a newsz. \<not> present (pte_at (mem s) pgdir va)"
  shows "\<exists>r s' xs'. allocuvm_loop fuel pgdir a oldsz newsz s = Ret r s' \<and>
     (r = newsz \<and> grows s pgdir xs (user_range a newsz) s' xs' \<or>
      r = 0 \<and> shrinks s pgdir xs (user_range (PGROUNDUP oldsz) newsz) s' xs')"
  using assms
proof (induction fuel arbitrary: a k s xs)
  case (Suc fuel)
  let ?R = "user_range (PGROUNDUP oldsz) newsz"
  show ?case
  proof (cases "a < newsz")
    case False
    then have "user_range a newsz = {}" by (auto simp: user_range_def)
    then show ?thesis using False grows_refl [OF Suc.prems(1)]
      by (intro exI [of _ newsz] exI [of _ s] exI [of _ xs]) simp
  next
    case True
    note sp = user_range_split [OF Suc.prems(2) True Suc.prems(5)]
    have aK: "a < KERNBASE" using True Suc.prems(5) by simp
    have aR: "{a} \<subseteq> ?R" using True Suc.prems(2,3) by (simp add: user_range_def)
    have aU: "{a} \<subseteq> {va. pg_aligned va \<and> va < KERNBASE}" using Suc.prems(2) aK by simp
    have np: "\<not> present (pte_at (mem s) pgdir a)" using Suc.prems(8) sp(1) by simp
    show ?thesis
    proof (cases xs)
      case Nil
      have fp: "free_pages s []" using Suc.prems(1) Nil by (simp add: uvm_ok_def vm_ok_def)
      have k: "kalloc s = Ret 0 (s\<lparr>freemems := freemems s - 1\<rparr>)"
        using fp by (simp add: kalloc_eq free_pages_def)
      have "uvm_ok (s\<lparr>freemems := freemems s - 1\<rparr>) pgdir []" using Suc.prems(1) Nil by (simp add: uvm_ok_freemems)
      from deallocuvm_shrinks [OF this Suc.prems(4,5)] obtain s' xs' where
        "deallocuvm pgdir newsz oldsz (s\<lparr>freemems := freemems s - 1\<rparr>) = Ret oldsz s'"
        "shrinks (s\<lparr>freemems := freemems s - 1\<rparr>) pgdir [] ?R s' xs'" by blast
      then show ?thesis using True k Nil
        by (intro exI [of _ 0] exI [of _ s'] exI [of _ xs']) (simp add: shrinks_def)
    next
      case (Cons p ys)
      obtain s1 where s1: "kalloc s = Ret p s1" "p \<noteq> 0" "page_ok (kend s) p" "p \<notin> pt_pages (mem s) pgdir" "p \<notin> set ys"
          "vm_ok (s1\<lparr>mem := memset (mem s1) p 0 4096\<rparr>) pgdir ys" "mem s1 = mem s" "kend s1 = kend s"
          "changes_only {p} (mem s) (memset (mem s) p 0 4096)"
        using alloc_page_ok [OF Suc.prems(1) [unfolded Cons]] by blast
      let ?s1 = "s1\<lparr>mem := memset (mem s1) p 0 4096\<rparr>"
      obtain r s2 xs2 where m: "mappages pgdir a PGSIZE (V2P p) (PTE_W OR PTE_U) ?s1 = Ret r s2"
        "r = 0 \<and> grows s pgdir (p # ys) {a} s2 xs2 \<or>
         r = -1 \<and> xs2 = [] \<and> uvm_ok s2 pgdir [] \<and> kend s2 = kend s \<and> p \<notin> upages (mem s2) pgdir \<and>
           (\<forall>x. pte_at (mem s2) pgdir x = pte_at (mem s) pgdir x) \<and>
           insert p (upages (mem s2) pgdir) = set (p # ys) \<union> upages (mem s) pgdir"
        using alloc_page_map [OF Suc.prems(1) [unfolded Cons] Suc.prems(2) aK np s1(6)] s1 by auto
      show ?thesis
      proof (cases "r = 0")
        case False
        then obtain s' xs' where "kbind (deallocuvm pgdir newsz oldsz s2) (\<lambda>_ s. kbind (kfree p s) (\<lambda>_ s. Ret 0 s)) = Ret (0 :: u32) s'"
            "shrinks s pgdir (p # ys) ?R s' xs'"
          using allocuvm_undo [where s = s and ?s2.0 = s2 and xs = "p # ys", OF _ _ s1(3) _ _ _ Suc.prems(4,5)] m(2) by blast
        then show ?thesis using True Cons s1(1,2) m False
          by (intro exI [of _ 0] exI [of _ s'] exI [of _ xs']) auto
      next
        case r: True
        then have g: "grows s pgdir (p # ys) {a} s2 xs2" using m(2) by auto
        obtain k' where k': "k = Suc k'" using True Suc.prems(6) by (cases k) (auto simp: word_less_nat_alt)
        have "\<forall>va\<in>user_range (a + 4096) newsz. \<not> present (pte_at (mem s2) pgdir va)"
          using Suc.prems(8) sp(1,2) growsD(7) [OF g] by (auto simp: user_range_def)
        moreover have "PGROUNDUP oldsz \<le> a + 4096" using Suc.prems(3) sp(3) by (simp add: word_le_nat_alt)
        ultimately obtain r' s' xs' where ih: "allocuvm_loop fuel pgdir (a + 4096) oldsz newsz s2 = Ret r' s'"
          "r' = newsz \<and> grows s2 pgdir xs2 (user_range (a + 4096) newsz) s' xs' \<or> r' = 0 \<and> shrinks s2 pgdir xs2 ?R s' xs'"
          using Suc.IH [OF growsD(1) [OF g] _ _ Suc.prems(4,5), of "a + 4096" k'] Suc.prems(2,6,7) k' sp(3)
          by (auto simp: pg_aligned_add)
        have "grows s2 pgdir xs2 (user_range (a + 4096) newsz) s' xs' \<Longrightarrow> grows s pgdir xs (user_range a newsz) s' xs'"
          using grows_trans [OF g _ aU] sp(1,2) Cons by (auto simp: user_range_def)
        moreover have "shrinks s2 pgdir xs2 ?R s' xs' \<Longrightarrow> shrinks s pgdir xs ?R s' xs'"
          using grows_shrinks [OF g _ aR] Cons by simp
        moreover have "allocuvm_loop (Suc fuel) pgdir a oldsz newsz s = Ret r' s'"
          using True s1(1,2) m(1) r ih(1) by simp
        ultimately show ?thesis using ih(2) by blast
      qed
    qed
  qed
qed simp

lemma allocuvm_cases:
  fixes s :: "'a vmst_scheme"
  assumes "uvm_ok s pgdir xs"
    and "\<forall>va\<in>user_range (PGROUNDUP oldsz) newsz. \<not> present (pte_at (mem s) pgdir va)"
    and sz: "newsz < KERNBASE" "oldsz \<le> newsz"
  shows "\<exists>r s' xs'. allocuvm pgdir oldsz newsz s = Ret r s' \<and>
     (r = newsz \<and> grows s pgdir xs (user_range (PGROUNDUP oldsz) newsz) s' xs' \<or>
      r = 0 \<and> shrinks s pgdir xs (user_range (PGROUNDUP oldsz) newsz) s' xs')"
proof (cases "oldsz = newsz")
  case True
  have "unat (oldsz) < 2147483648" using sz True by (simp add: word_less_nat_alt)
  then have "\<not> PGROUNDUP oldsz < oldsz" using unat_PGROUNDUP [of oldsz] by (simp add: word_less_nat_alt)
  moreover from this have "user_range (PGROUNDUP oldsz) newsz = {}" using True by (auto simp: user_range_def)
  moreover from this have "allocuvm_loop (Suc npages) pgdir (PGROUNDUP oldsz) oldsz newsz s = Ret newsz s"
    unfolding allocuvm_loop.simps using True calculation by simp
  ultimately show ?thesis using True sz grows_refl [OF assms(1)]
    by (intro exI [of _ newsz] exI [of _ s] exI [of _ xs]) (auto simp: allocuvm_def simp del: allocuvm_loop.simps)
next
  case False
  then have lt: "oldsz < newsz" using sz(2) by simp
  have eq: "allocuvm pgdir oldsz newsz s = allocuvm_loop (Suc npages) pgdir (PGROUNDUP oldsz) oldsz newsz s"
    using sz lt by (auto simp: allocuvm_def simp del: allocuvm_loop.simps)
  have "unat newsz \<le> unat (PGROUNDUP oldsz) + 4096 * npages" using unat_lt32 [of newsz] by linarith
  from allocuvm_loop_spec [OF assms(1) pg_aligned_PGROUNDUP order_refl lt less_imp_le [OF sz(1)] this lessI assms(2)]
  show ?thesis unfolding eq .
qed

section \<open>Properties\<close>

text \<open>
  C10. \<^verbatim>\<open>allocuvm\<close> grows a process or leaves its memory as it was. A size at or above \<^verbatim>\<open>KERNBASE\<close> is refused
  with 0 and a smaller size returns the old one, without touching the state. Otherwise, with the pages
  in between unmapped, it returns the new size with every page in between mapped user-writable to a
  zeroed page that was free; or it returns 0 with exactly the old mappings. In both cases the
  invariant holds and no page is lost: free list, page table and user pages together are the same set.
\<close>

theorem allocuvm_spec:
  fixes s :: "'a vmst_scheme"
  assumes "uvm_ok s pgdir xs"
    and "\<forall>va\<in>user_range (PGROUNDUP oldsz) newsz. \<not> present (pte_at (mem s) pgdir va)"
  shows "(newsz \<ge> KERNBASE \<longrightarrow> allocuvm pgdir oldsz newsz s = Ret 0 s) \<and>
    (newsz < KERNBASE \<and> newsz < oldsz \<longrightarrow> allocuvm pgdir oldsz newsz s = Ret oldsz s) \<and>
    (newsz < KERNBASE \<and> oldsz \<le> newsz \<longrightarrow>
      (\<exists>r s' xs'. allocuvm pgdir oldsz newsz s = Ret r s' \<and>
         uvm_ok s' pgdir xs' \<and> set xs' \<union> upages (mem s') pgdir = set xs \<union> upages (mem s) pgdir \<and>
         (r = newsz \<and>
            (\<forall>x. PGROUNDDOWN x \<notin> user_range (PGROUNDUP oldsz) newsz \<longrightarrow>
               pte_at (mem s') pgdir x = pte_at (mem s) pgdir x) \<and>
            (\<forall>x\<in>user_range (PGROUNDUP oldsz) newsz. user_perm (pte_at (mem s') pgdir x) \<and>
               uframe (mem s') pgdir x \<in> set xs \<and> zero_page (mem s') (uframe (mem s') pgdir x)) \<or>
          r = 0 \<and> umapped (mem s') pgdir = umapped (mem s) pgdir \<and>
            (\<forall>x\<in>umapped (mem s) pgdir. pte_at (mem s') pgdir x = pte_at (mem s) pgdir x))))"
proof (intro conjI impI)
  let ?R = "user_range (PGROUNDUP oldsz) newsz"
  assume "newsz < KERNBASE \<and> oldsz \<le> newsz"
  then obtain r s' xs' where run: "allocuvm pgdir oldsz newsz s = Ret r s'"
     "r = newsz \<and> grows s pgdir xs ?R s' xs' \<or> r = 0 \<and> shrinks s pgdir xs ?R s' xs'"
    using allocuvm_cases [OF assms] by blast
  have "umapped (mem s') pgdir = umapped (mem s) pgdir" if "shrinks s pgdir xs ?R s' xs'"
    using that assms(2) by (auto simp: shrinks_def umapped_def)
  then show "\<exists>r s' xs'. allocuvm pgdir oldsz newsz s = Ret r s' \<and>
         uvm_ok s' pgdir xs' \<and> set xs' \<union> upages (mem s') pgdir = set xs \<union> upages (mem s) pgdir \<and>
         (r = newsz \<and>
            (\<forall>x. PGROUNDDOWN x \<notin> user_range (PGROUNDUP oldsz) newsz \<longrightarrow>
               pte_at (mem s') pgdir x = pte_at (mem s) pgdir x) \<and>
            (\<forall>x\<in>user_range (PGROUNDUP oldsz) newsz. user_perm (pte_at (mem s') pgdir x) \<and>
               uframe (mem s') pgdir x \<in> set xs \<and> zero_page (mem s') (uframe (mem s') pgdir x)) \<or>
          r = 0 \<and> umapped (mem s') pgdir = umapped (mem s) pgdir \<and>
            (\<forall>x\<in>umapped (mem s) pgdir. pte_at (mem s') pgdir x = pte_at (mem s) pgdir x))"
    using run growsD [of s pgdir xs ?R s' xs'] unfolding shrinks_def by metis
qed (auto simp: allocuvm_def)

text \<open>
  C30. \<^verbatim>\<open>deallocuvm\<close> shrinks a process: it always returns (the loop needs no more passes than the address space
  has pages), a size that does not shrink changes nothing, and otherwise it unmaps exactly the
  mapped pages from the new size, rounded up, to the old size, puts exactly their frames on the free list and leaves
  every other entry as it was.
\<close>

theorem deallocuvm_spec:
  fixes s :: "'a vmst_scheme"
  assumes "uvm_ok s pgdir xs" "oldsz \<le> KERNBASE"
  shows "(oldsz \<le> newsz \<longrightarrow> deallocuvm pgdir oldsz newsz s = Ret oldsz s) \<and>
    (newsz < oldsz \<longrightarrow>
      (\<exists>s' xs'. deallocuvm pgdir oldsz newsz s = Ret newsz s' \<and> uvm_ok s' pgdir xs' \<and>
        (\<forall>x. pte_at (mem s') pgdir x =
           (if PGROUNDDOWN x \<in> umapped_range (mem s) pgdir (PGROUNDUP newsz) oldsz then 0
            else pte_at (mem s) pgdir x)) \<and>
        set xs' = set xs \<union> uframe (mem s) pgdir ` umapped_range (mem s) pgdir (PGROUNDUP newsz) oldsz))"
proof (intro conjI impI)
  assume "newsz < oldsz"
  from deallocuvm_unmaps [OF assms(1) this assms(2)]
  show "\<exists>s' xs'. deallocuvm pgdir oldsz newsz s = Ret newsz s' \<and> uvm_ok s' pgdir xs' \<and>
        (\<forall>x. pte_at (mem s') pgdir x =
           (if PGROUNDDOWN x \<in> umapped_range (mem s) pgdir (PGROUNDUP newsz) oldsz then 0
            else pte_at (mem s) pgdir x)) \<and>
        set xs' = set xs \<union> uframe (mem s) pgdir ` umapped_range (mem s) pgdir (PGROUNDUP newsz) oldsz"
    unfolding unmaps_def by blast
qed (simp add: deallocuvm_def)

text \<open>
  C31. \<^verbatim>\<open>freevm\<close> gives back every page of an address space: afterwards the free list holds what it held before
  and the page directory, all page tables and all user pages, each exactly once.
\<close>

theorem freevm_spec:
  fixes s :: "'a vmst_scheme"
  assumes "uvm_ok s pgdir xs"
  shows "\<exists>s' xs'. freevm pgdir s = Ret () s' \<and> free_pages s' xs' \<and> distinct xs' \<and>
     set xs' = set xs \<union> upages (mem s) pgdir"
proof -
  obtain s' xs' where "freevm pgdir s = Ret () s'" "free_pages s' xs'"
      "set xs' = set xs \<union> pt_pages (mem s) pgdir \<union> uframe (mem s) pgdir ` umapped (mem s) pgdir"
    using freevm_frees [OF assms] by blast
  then show ?thesis by (intro exI [of _ s'] exI [of _ xs']) (simp add: upages_def free_pages_def Un_assoc)
qed

section \<open>Witnesses\<close>

lemma uvm_ok_ex: "uvm_ok vm_ex pgdir_ex [0x80200000, 0x80201000]"
proof -
  have "umapped (mem vm_ex) pgdir_ex = {}" by (simp add: umapped_def pte_ex)
  moreover have "KERNBASE < kend vm_ex" by (simp add: vm_ex_def)
  ultimately show ?thesis using vm_ok_ex by (simp add: uvm_ok_def)
qed

theorem allocuvm_spec_witness:
  "\<exists>r s'. allocuvm pgdir_ex 0 4096 vm_ex = Ret r s' \<and> (r = 4096 \<or> r = 0)"
proof -
  have "\<forall>va\<in>user_range (PGROUNDUP 0) 4096. \<not> present (pte_at (mem vm_ex) pgdir_ex va)" by (simp add: pte_ex)
  from allocuvm_spec [OF uvm_ok_ex this] show ?thesis by auto
qed

theorem deallocuvm_spec_witness:
  "(\<exists>s'. deallocuvm pgdir_ex 8192 0 vm_ex = Ret 0 s') \<and> deallocuvm pgdir_ex 0 8192 vm_ex = Ret 0 vm_ex"
  using deallocuvm_spec [OF uvm_ok_ex, of 8192 0] deallocuvm_spec [OF uvm_ok_ex, of 0 8192] by auto

theorem freevm_spec_witness:
  "\<exists>s' xs'. freevm pgdir_ex vm_ex = Ret () s' \<and> free_pages s' xs' \<and> pgdir_ex \<in> set xs'"
  using freevm_spec [OF uvm_ok_ex] by (auto simp: upages_def pt_pages_def)

end
