(* ===== verification/Umem.thy ===== *)
theory Umem
  imports Uservm
begin

text \<open>
  Access to user memory: the kernel address behind a user address (\<open>uaddr\<close>), and what \<^verbatim>\<open>copyout\<close> stores through a page table.
\<close>

section \<open>User addresses\<close>

definition uaddr :: "mem \<Rightarrow> u32 \<Rightarrow> u32 \<Rightarrow> u32" where
  "uaddr m pgdir a = P2V (PTE_ADDR (pte_at m pgdir a)) + (a - PGROUNDDOWN a)"

definition umem_ok :: "mem \<Rightarrow> u32 \<Rightarrow> u32 \<Rightarrow> bool" where
  "umem_ok m pgdir a \<longleftrightarrow> a < KERNBASE \<and> present (pte_at m pgdir a) \<and> pte_at m pgdir a AND PTE_U \<noteq> 0"

lemma uaddr_frame: "uaddr m pgdir a = uframe m pgdir (PGROUNDDOWN a) + (a - PGROUNDDOWN a)"
  by (simp add: uaddr_def uframe_def)

lemma umem_page:
  assumes "umem_ok m pgdir a"
  shows "PGROUNDDOWN a \<in> umapped m pgdir"
proof -
  have "PGROUNDDOWN a \<le> a" by (simp add: word_le_nat_alt unat_PGROUNDDOWN_le)
  then show ?thesis using assms by (auto simp: umapped_def umem_ok_def)
qed

lemma uaddr_page:
  assumes "uvm_ok s pgdir xs" "umem_ok (mem s) pgdir a"
  shows "PGROUNDDOWN (uaddr (mem s) pgdir a) = uframe (mem s) pgdir (PGROUNDDOWN a)"
    "uaddr (mem s) pgdir a - PGROUNDDOWN (uaddr (mem s) pgdir a) = a - PGROUNDDOWN a"
proof -
  let ?f = "uframe (mem s) pgdir (PGROUNDDOWN a)"
  have p: "page_ok (kend s) ?f" using assms(1) umem_page [OF assms(2)] by (simp add: uvm_ok_def)
  have f: "unat ?f mod 4096 = 0" using page_ok_aligned [OF p] by (simp add: pg_aligned_unat)
  have o: "unat (a - PGROUNDDOWN a) < 4096" by (simp add: unat_page_offset)
  have u: "unat (uaddr (mem s) pgdir a) = unat ?f + unat (a - PGROUNDDOWN a)"
    unfolding uaddr_frame using page_ok_range [OF p] o by (intro unat_add_no_wrap) simp
  obtain q where q: "unat ?f = 4096 * q" using f by (metis mod_0_imp_dvd dvdE)
  then have "unat (uaddr (mem s) pgdir a) div 4096 = q" using u o by simp
  then show r: "PGROUNDDOWN (uaddr (mem s) pgdir a) = ?f" using q by (simp add: word_unat_eq_iff unat_PGROUNDDOWN)
  show "uaddr (mem s) pgdir a - PGROUNDDOWN (uaddr (mem s) pgdir a) = a - PGROUNDDOWN a"
    unfolding r by (simp add: uaddr_frame)
qed

lemma uaddr_inject:
  assumes "uvm_ok s pgdir xs" "umem_ok (mem s) pgdir a" "umem_ok (mem s) pgdir b" "uaddr (mem s) pgdir a = uaddr (mem s) pgdir b"
  shows "a = b"
proof -
  note A = uaddr_page [OF assms(1,2)] and B = uaddr_page [OF assms(1,3)]
  have "inj_on (uframe (mem s) pgdir) (umapped (mem s) pgdir)" using assms(1) by (simp add: uvm_ok_def)
  then have p: "PGROUNDDOWN a = PGROUNDDOWN b"
    using A(1) B(1) assms(4) umem_page [OF assms(2)] umem_page [OF assms(3)] by (metis inj_onD)
  moreover have "a - PGROUNDDOWN a = b - PGROUNDDOWN b" using A(2) B(2) assms(4) by simp
  ultimately show ?thesis by (metis diff_add_cancel)
qed

lemma copyout_chunk:
  fixes s :: "'a vmst_scheme"
  assumes uvm: "uvm_ok s pgdir xs" and a: "umem_ok (mem s) pgdir va" and n: "unat (va - PGROUNDDOWN va) + length ys \<le> 4096"
  defines "m \<equiv> store_bytes (mem s) (uaddr (mem s) pgdir va) ys"
  shows "pte_at m pgdir x = pte_at (mem s) pgdir x" "uvm_ok (s\<lparr>mem := m\<rparr>) pgdir xs"
    and "i < length ys \<Longrightarrow> m (uaddr (mem s) pgdir va + of_nat i) = ys ! i"
    and "(\<forall>i<length ys. b \<noteq> uaddr (mem s) pgdir va + of_nat i) \<Longrightarrow> m b = mem s b"
proof -
  let ?f = "uframe (mem s) pgdir (PGROUNDDOWN va)"
  note p = umem_page [OF a] and u = uaddr_page [OF uvm a]
  have f: "page_ok (kend s) ?f" "?f \<notin> set xs" "?f \<notin> pt_pages (mem s) pgdir" using uvm p by (auto simp: uvm_ok_def)
  have ok: "pgdir_ok (kend s) (mem s) pgdir xs" and fp: "free_pages s xs" using uvm by (simp_all add: uvm_ok_def vm_ok_def)
  have so: "same_outside ?f (mem s) m"
    unfolding same_outside_def
  proof (intro allI impI)
    fix b assume b: "\<not> unat (b - ?f) < 4096"
    have "\<not> unat (b - uaddr (mem s) pgdir va) < length ys"
    proof
      assume l: "unat (b - uaddr (mem s) pgdir va) < length ys"
      have "b - ?f = (va - PGROUNDDOWN va) + (b - uaddr (mem s) pgdir va)" by (simp add: uaddr_frame)
      also have "unat \<dots> = unat (va - PGROUNDDOWN va) + unat (b - uaddr (mem s) pgdir va)"
        using l n by (intro unat_add_no_wrap) simp
      finally show False using b l n by simp
    qed
    then show "m b = mem s b" by (simp add: m_def store_bytes_def)
  qed
  have ch: "changes_only {?f} (mem s) m" using so page_ok_aligned [OF f(1)] by (intro same_outside_changes_only) auto
  note out = pt_outside [OF ok ch]
  show "pte_at m pgdir x = pte_at (mem s) pgdir x" for x using pt_outside(2) [OF ok ch, of x] f(3) by simp
  show "i < length ys \<Longrightarrow> m (uaddr (mem s) pgdir va + of_nat i) = ys ! i"
    using n by (simp add: m_def store_bytes_def unsigned_of_nat take_bit_nat_eq_self)
  show "(\<forall>i<length ys. b \<noteq> uaddr (mem s) pgdir va + of_nat i) \<Longrightarrow> m b = mem s b"
    by (force simp: m_def store_bytes_def)
  have "vm_ok (s\<lparr>mem := m\<rparr>) pgdir xs"
    using free_pages_mem_outside [OF fp so page_ok_aligned [OF f(1)] f(2)] out(3) f(3) by (simp add: vm_ok_def)
  then show "uvm_ok (s\<lparr>mem := m\<rparr>) pgdir xs"
    using pt_outside(2,4) [OF ok ch] f(3) by (intro uvm_ok_same_ptes(1) [OF uvm]) simp_all
qed


lemma uva2ka_user: "uvm_ok s pgdir xs \<Longrightarrow> umem_ok (mem s) pgdir va \<Longrightarrow> uva2ka pgdir (PGROUNDDOWN va) s = Ret (uframe (mem s) pgdir (PGROUNDDOWN va)) s"
proof -
  assume ok: "uvm_ok s pgdir xs" and a: "umem_ok (mem s) pgdir va"
  let ?v = "PGROUNDDOWN va"
  have e: "pte_at (mem s) pgdir ?v = pte_at (mem s) pgdir va" by simp
  have "present (pte_at (mem s) pgdir ?v)" unfolding e using a by (simp add: umem_ok_def)
  then have pd: "present (pde_at (mem s) pgdir (PDX ?v))" by (rule present_pte_pde)
  have l: "load32 (mem s) (pte_ptr (mem s) pgdir ?v) = pte_at (mem s) pgdir ?v" using pd by (simp add: pte_at_def)
  have "pte_ptr (mem s) pgdir ?v \<noteq> 0" using ok pte_ptr_nonzero [of "kend s" "mem s" pgdir xs ?v] pd by (simp add: uvm_ok_def vm_ok_def)
  then show ?thesis using a l by (simp add: uva2ka_def walkpgdir_read umem_ok_def present_def uframe_def)
qed

lemma page_bytes:
  fixes va :: u32
  assumes "unat va mod 4096 + i < 4096" "unat va + i < 2 ^ 32"
  shows "uaddr m pgdir (va + of_nat i) = uaddr m pgdir va + of_nat i"
proof -
  have u: "unat (va + of_nat i) = unat va + i" using unat_add_nat [OF assms(2)] .
  have "(unat va + i) div 4096 = unat va div 4096" using assms(1) by (metis div_mult_self4 div_less add.right_neutral add.assoc mult_div_mod_eq zero_neq_numeral)
  then have p: "PGROUNDDOWN (va + of_nat i) = PGROUNDDOWN va" by (simp add: word_unat_eq_iff unat_PGROUNDDOWN u)
  have "pte_at m pgdir (va + of_nat i) = pte_at m pgdir va" using pte_at_PGROUNDDOWN [of m pgdir "va + of_nat i"] p by simp
  then show ?thesis by (simp add: uaddr_def p)
qed

lemma copyout_Ret:
  fixes s :: "'a vmst_scheme"
  assumes "uvm_ok s pgdir xs" "unat va + length src \<le> 0x80000000" "\<forall>i<length src. umem_ok (mem s) pgdir (va + of_nat i)"
  shows "\<exists>t. copyout pgdir va src s = Ret 0 t \<and> uvm_ok t pgdir xs \<and> (\<forall>x. pte_at (mem t) pgdir x = pte_at (mem s) pgdir x) \<and>
    (\<forall>i<length src. mem t (uaddr (mem s) pgdir (va + of_nat i)) = src ! i) \<and>
    (\<forall>b. (\<forall>i<length src. b \<noteq> uaddr (mem s) pgdir (va + of_nat i)) \<longrightarrow> mem t b = mem s b)"
  using assms
proof (induction pgdir va src s rule: copyout.induct)
  case (1 pgdir va src s)
  show ?case
  proof (cases "src = []")
    case True
    then show ?thesis using 1(2) by (simp add: copyout.simps)
  next
    case False
    let ?U = "uaddr (mem s) pgdir" and ?va0 = "PGROUNDDOWN va"
    define n where "n = min (unat (PGSIZE - (va - ?va0))) (length src)"
    let ?f = "uframe (mem s) pgdir ?va0"
    let ?m = "store_bytes (mem s) (?U va) (take n src)"
    have a: "umem_ok (mem s) pgdir va" using 1(4) False by force
    have f0: "?f \<noteq> 0" using 1(2) umem_page [OF a] page_ok_range [of "kend s" ?f] by (auto simp: uvm_ok_def)
    have o: "unat (va - ?va0) < 4096" "unat (va - ?va0) = unat va mod 4096" by (simp_all add: unat_page_offset)
    have k: "unat (PGSIZE - (va - ?va0)) = 4096 - unat (va - ?va0)" using o(1) by (simp add: unat_sub word_le_nat_alt)
    have nn: "unat (va - ?va0) + length (take n src) \<le> 4096" "0 < n" "n \<le> length src" "unat va mod 4096 + n \<le> 4096" using o k False by (auto simp: n_def)
    note ch = copyout_chunk [OF 1(2) a nn(1)]
    let ?s = "s\<lparr>mem := ?m\<rparr>"
    have U': "uaddr ?m pgdir x = ?U x" "umem_ok ?m pgdir x = umem_ok (mem s) pgdir x" for x using ch(1) by (simp_all add: uaddr_def umem_ok_def)
    have run: "copyout pgdir va src s = copyout pgdir (?va0 + PGSIZE) (drop n src) ?s"
      using False f0 by (simp add: copyout.simps [of pgdir va src] uva2ka_user [OF 1(2) a] Let_def uaddr_frame n_def)
    have nxt: "?va0 + PGSIZE = va + of_nat n" if "drop n src \<noteq> []"
    proof -
      have "n = 4096 - unat (va - ?va0)" using that k by (auto simp: n_def)
      then have "(of_nat n :: u32) = 4096 - (va - ?va0)" using o(1) by (simp add: of_nat_diff)
      then show ?thesis by simp
    qed
    have U1: "?U (va + of_nat i) = ?U va + of_nat i" if i: "i < n" for i
    proof (rule page_bytes)
      show "unat va mod 4096 + i < 4096" using i nn(4) by linarith
      show "unat va + i < 2 ^ 32" using i nn(3) 1(3) by simp
    qed
    have "\<exists>t. copyout pgdir (?va0 + PGSIZE) (drop n src) ?s = Ret 0 t \<and> uvm_ok t pgdir xs \<and> (\<forall>x. pte_at (mem t) pgdir x = pte_at ?m pgdir x) \<and>
      (\<forall>i<length src - n. mem t (?U (va + of_nat (n + i))) = src ! (n + i)) \<and>
      (\<forall>b. (\<forall>i<length src - n. b \<noteq> ?U (va + of_nat (n + i))) \<longrightarrow> mem t b = ?m b)"
    proof (cases "drop n src = []")
      case True
      then show ?thesis using ch(2) by (simp add: copyout.simps)
    next
      case False
      note x = nxt [OF False]
      have ux: "unat (va + of_nat n) = unat va + n" using unat_add_nat [of va n] 1(3) nn(3) by simp
      have IH: "\<exists>t. copyout pgdir (va + of_nat n) (drop n src) ?s = Ret 0 t \<and> uvm_ok t pgdir xs \<and> (\<forall>x. pte_at (mem t) pgdir x = pte_at (mem ?s) pgdir x) \<and>
        (\<forall>i<length (drop n src). mem t (uaddr (mem ?s) pgdir (va + of_nat n + of_nat i)) = drop n src ! i) \<and>
        (\<forall>b. (\<forall>i<length (drop n src). b \<noteq> uaddr (mem ?s) pgdir (va + of_nat n + of_nat i)) \<longrightarrow> mem t b = mem ?s b)"
      proof (rule 1(1) [OF \<open>src \<noteq> []\<close> refl uva2ka_user [OF 1(2) a] f0 n_def, folded uaddr_frame, unfolded x])
        show "uvm_ok ?s pgdir xs" by (rule ch(2))
        show "unat (va + of_nat n) + length (drop n src) \<le> 0x80000000" using ux 1(3) nn(3) by simp
        show "\<forall>i<length (drop n src). umem_ok (mem ?s) pgdir (va + of_nat n + of_nat i)"
        proof (intro allI impI)
          fix i assume "i < length (drop n src)"
          then have "n + i < length src" by simp
          then have u: "umem_ok (mem s) pgdir (va + of_nat (n + i))" using 1(4) by blast
          have m: "mem ?s = ?m" by simp
          show "umem_ok (mem ?s) pgdir (va + of_nat n + of_nat i)"
            unfolding m U'(2) using u by (simp only: of_nat_add add.assoc)
        qed
      qed
      then show ?thesis unfolding x using nn(3) by (simp add: U' add.assoc)
    qed
    then obtain t where t: "copyout pgdir (?va0 + PGSIZE) (drop n src) ?s = Ret 0 t" "uvm_ok t pgdir xs" "\<forall>x. pte_at (mem t) pgdir x = pte_at ?m pgdir x"
      "\<And>i. i < length src - n \<Longrightarrow> mem t (?U (va + of_nat (n + i))) = src ! (n + i)"
      "\<And>b. (\<forall>i<length src - n. b \<noteq> ?U (va + of_nat (n + i))) \<Longrightarrow> mem t b = ?m b"
      by blast
    have inj: "i = j" if "?U (va + of_nat i) = ?U (va + of_nat j)" "i < length src" "j < length src" for i j
    proof -
      have "va + of_nat i = va + of_nat j" using uaddr_inject [OF 1(2) _ _ that(1)] 1(4) that(2,3) by blast
      then have "(of_nat i :: u32) = of_nat j" by (rule add_left_imp_eq)
      then have "unat (of_nat i :: u32) = unat (of_nat j :: u32)" by (rule arg_cong)
      moreover have "i < 2 ^ 32" "j < 2 ^ 32" using that(2,3) 1(3) by simp_all
      ultimately show ?thesis by (simp only: unat_of_nat32)
    qed
    have "mem t (?U (va + of_nat i)) = src ! i" if i: "i < length src" for i
    proof (cases "i < n")
      case True
      have "mem t (?U (va + of_nat i)) = ?m (?U (va + of_nat i))" using inj [OF _ i] True nn(3) by (intro t(5)) fastforce
      also have "\<dots> = src ! i" using ch(3) [of i] True i by (simp add: U1)
      finally show ?thesis .
    next
      case False
      then show ?thesis using t(4) [of "i - n"] i by simp
    qed
    moreover have "mem t b = mem s b" if b: "\<forall>i<length src. b \<noteq> ?U (va + of_nat i)" for b
    proof -
      have "\<forall>i<length src - n. b \<noteq> ?U (va + of_nat (n + i))"
      proof (intro allI impI)
        fix i assume "i < length src - n"
        then have "n + i < length src" by simp
        then show "b \<noteq> ?U (va + of_nat (n + i))" using b by blast
      qed
      then have "mem t b = ?m b" by (rule t(5))
      also have "\<dots> = mem s b"
      proof (rule ch(4), intro allI impI)
        fix i assume "i < length (take n src)"
        then have i: "i < n" "i < length src" by simp_all
        then show "b \<noteq> ?U va + of_nat i" using b U1 [OF i(1)] by metis
      qed
      finally show ?thesis .
    qed
    ultimately show ?thesis using run t(1-3) ch(1) by auto
  qed
qed



text \<open>An address space with one mapped page.\<close>

lemma uvm_one_ex:
  assumes "pg_aligned v" "v < KERNBASE"
  shows "\<exists>s xs. uvm_ok s pgdir_ex xs \<and> (\<forall>x. PGROUNDDOWN x = v \<longrightarrow> pte_at (mem (s :: vmst)) pgdir_ex x = 0x300007)"
proof -
  obtain s xs where s: "vm_ok s pgdir_ex xs" "kend s = kend vm_ex" "pt_step vm_ex pgdir_ex [0x80200000, 0x80201000] s xs"
    "present (pde_at (mem s) pgdir_ex (PDX v))" "\<And>va. pte_at (mem s) pgdir_ex va = pte_at (mem vm_ex) pgdir_ex va"
    using walkpgdir_alloc [OF vm_ok_ex, of v] unfolding pt_step_def by blast
  let ?m = "store32 (mem s) (pte_ptr (mem s) pgdir_ex v) 0x300007"
  have ok: "pgdir_ok (kend s) (mem s) pgdir_ex xs" using s(1) by (simp add: vm_ok_def)
  have pte: "pte_at ?m pgdir_ex x = (if PGROUNDDOWN x = v then 0x300007 else 0)" for x
    using pte_store(2) [OF ok s(4), of "0x300007" x] same_page_iff [of x v] s(5) by (simp add: pte_ex assms)
  have "x = v" if "pg_aligned x" "PGROUNDDOWN x = v" for x :: u32 using that by simp
  then have "umapped ?m pgdir_ex = {v}"
    using assms by (auto simp: umapped_def pte present_def split: if_splits)
  moreover have "uframe ?m pgdir_ex v = 0x80300000" using assms by (simp add: uframe_def pte PTE_ADDR_def P2V_def)
  moreover have "pt_pages (mem s) pgdir_ex \<union> set xs = {0x80400000, 0x80200000, 0x80201000}"
    using s(3) pde_ex by (auto simp: pt_step_def pt_pages_def)
  then have "0x80300000 \<notin> pt_pages (mem s) pgdir_ex \<union> set xs" by simp
  moreover have "page_ok (kend s) 0x80300000" "KERNBASE < kend s" by (simp_all add: s(2) vm_ex_def page_ok_def V2P_def)
  moreover have "vm_ok (s\<lparr>mem := ?m\<rparr>) pgdir_ex xs" by (rule vm_ok_store_pte(1) [OF s(1,4)])
  moreover have "pt_pages ?m pgdir_ex = pt_pages (mem s) pgdir_ex" by (rule pt_pages_store [OF ok s(4)])
  ultimately have "uvm_ok (s\<lparr>mem := ?m\<rparr>) pgdir_ex xs" by (auto simp: uvm_ok_def)
  then show ?thesis using pte by (intro exI [of _ "s\<lparr>mem := ?m\<rparr>"] exI [of _ xs]) simp
qed


end
