(* ===== verification/Print.thy ===== *)
theory Print
  imports Umem
begin

text \<open>
  Console output (\<^verbatim>\<open>console.c\<close>, first half): the formatter \<^verbatim>\<open>printint\<close>/\<^verbatim>\<open>cprintf\<close> with the field widths
  this kernel adds, and the CGA cursor arithmetic of \<^verbatim>\<open>cgaputc\<close>. Output is the sequence of characters given
  to \<^verbatim>\<open>consputc\<close>. The lemmas show that numbers are printed in a form that reads back to the same
  number, that a field is padded to its width on the right, and that the cursor never leaves the screen.
\<close>

section \<open>Formatting\<close>

text \<open>An argument of \<^verbatim>\<open>cprintf\<close>: a word for \<^verbatim>\<open>%d\<close>, \<^verbatim>\<open>%x\<close>, \<^verbatim>\<open>%p\<close>, or a string pointer for \<^verbatim>\<open>%s\<close> (\<open>None\<close> is null).\<close>

datatype parg = AInt u32 | AStr "string option"

definition digit :: "nat \<Rightarrow> char" where
  "digit d = ''0123456789abcdef'' ! d"

text \<open>The digits of \<open>x\<close>, least significant first, as the loop of \<^verbatim>\<open>printint\<close> fills \<^verbatim>\<open>buf\<close>.\<close>

fun digits_rev :: "nat \<Rightarrow> nat \<Rightarrow> string" where
  "digits_rev b x =
     (if x < b \<or> b < 2 then [digit (x mod b)] else digit (x mod b) # digits_rev b (x div b))"

declare digits_rev.simps [simp del]

definition printint :: "u32 \<Rightarrow> nat \<Rightarrow> bool \<Rightarrow> nat \<Rightarrow> string" where
  "printint xx b sign width =
     (let neg = sign \<and> sint xx < 0;
          x = (if neg then - xx else xx);
          buf = digits_rev b (unat x) @ (if neg then ''-'' else [])
      in rev buf @ replicate (width - length buf) CHR '' '')"

text \<open>The decimal width after a percent sign, and the rest of the format.\<close>

fun fmt_width :: "nat \<Rightarrow> string \<Rightarrow> nat \<times> string" where
  "fmt_width w [] = (w, [])"
| "fmt_width w (c # cs) =
     (if 48 \<le> (of_char c :: nat) \<and> (of_char c :: nat) \<le> 57
      then fmt_width (w * 10 + of_char c - 48) cs else (w, c # cs))"

lemma fmt_width_less: "(w', d # ds) = fmt_width w cs \<Longrightarrow> length ds < length cs"
  by (induction w cs rule: fmt_width.induct) (auto split: if_splits)

definition print_str :: "string option \<Rightarrow> nat \<Rightarrow> string" where
  "print_str s width =
     (let t = (case s of None \<Rightarrow> ''(null)'' | Some t \<Rightarrow> t)
      in t @ replicate (width - length t) CHR '' '')"

text \<open>
  The loop of \<^verbatim>\<open>cprintf\<close> over the format. \<open>None\<close> stands for reading an argument that the caller did not
  pass, or of the wrong type, which is undefined in C.
\<close>

function cfmt :: "string \<Rightarrow> parg list \<Rightarrow> string option" where
  "cfmt [] args = Some []"
| "cfmt (c # cs) args =
     (if c \<noteq> CHR ''%'' then map_option ((#) c) (cfmt cs args)
      else let (width, rest) = fmt_width 0 cs
           in case rest of
                [] \<Rightarrow> Some []
              | d # ds \<Rightarrow>
                  if d = CHR ''d'' then
                    (case args of AInt x # as \<Rightarrow> map_option ((@) (printint x 10 True width)) (cfmt ds as)
                     | _ \<Rightarrow> None)
                  else if d = CHR ''x'' \<or> d = CHR ''p'' then
                    (case args of AInt x # as \<Rightarrow> map_option ((@) (printint x 16 False width)) (cfmt ds as)
                     | _ \<Rightarrow> None)
                  else if d = CHR ''s'' then
                    (case args of AStr t # as \<Rightarrow> map_option ((@) (print_str t width)) (cfmt ds as)
                     | _ \<Rightarrow> None)
                  else if d = CHR ''%'' then map_option ((#) CHR ''%'') (cfmt ds args)
                  else map_option ((@) [CHR ''%'', d]) (cfmt ds args))"
  by pat_completeness auto
termination
  by (relation "measure (\<lambda>(cs, _). length cs)") (auto dest!: fmt_width_less)

section \<open>Console state\<close>

record const = vmst +
  con_out :: string        \<comment> \<open>what was sent to the serial port\<close>
  cons_locking :: bool     \<comment> \<open>\<^verbatim>\<open>cons.locking\<close>\<close>
  cga_pos :: nat           \<comment> \<open>the cursor register\<close>
  crt :: "nat \<Rightarrow> u16"      \<comment> \<open>CGA memory, by cell\<close>

text \<open>A character given to \<^verbatim>\<open>consputc\<close>, or the code \<^verbatim>\<open>BACKSPACE\<close>.\<close>

datatype cchar = Ch char | BACKSPACE

definition cga_scroll :: "nat \<Rightarrow> (nat \<Rightarrow> u16) \<Rightarrow> (nat \<Rightarrow> u16)" where
  "cga_scroll pos m = (\<lambda>i. if pos \<le> i \<and> i < 24 * 80 then 0 else if i < 23 * 80 then m (i + 80) else m i)"

definition cga_cell :: "char \<Rightarrow> u16" where
  "cga_cell c = of_char c OR 0x0700"

definition cgaputc :: "cchar \<Rightarrow> 'a const_scheme \<Rightarrow> (unit, 'a const_scheme) res" where
  "cgaputc c s =
     (let pos = cga_pos s;
          (pos, m) = (case c of
             Ch c \<Rightarrow> if c = CHR 0x0A then (pos + (80 - pos mod 80), crt s)
                     else (pos + 1, (crt s)(pos := cga_cell c))
           | BACKSPACE \<Rightarrow> (if pos > 0 then pos - 1 else pos, crt s))
      in if pos > 25 * 80 then Panic ''pos under/overflow''
         else let (pos, m) = (if pos div 80 \<ge> 24 then (pos - 80, cga_scroll (pos - 80) m) else (pos, m))
              in Ret () (s\<lparr>cga_pos := pos, crt := m(pos := cga_cell CHR '' '')\<rparr>))"

definition consputc :: "cchar \<Rightarrow> 'a const_scheme \<Rightarrow> (unit, 'a const_scheme) res" where
  "consputc c s =
     (let out = (case c of Ch c \<Rightarrow> [c] | BACKSPACE \<Rightarrow> [CHR 0x08, CHR '' '', CHR 0x08])
      in cgaputc c (s\<lparr>con_out := con_out s @ out\<rparr>))"

primrec consputs :: "string \<Rightarrow> 'a const_scheme \<Rightarrow> (unit, 'a const_scheme) res" where
  "consputs [] s = Ret () s"
| "consputs (c # cs) s = kbind (consputc (Ch c) s) (\<lambda>_ s. consputs cs s)"

text \<open>\<^verbatim>\<open>cprintf\<close> under the console lock.\<close>

definition cprintf :: "string \<Rightarrow> parg list \<Rightarrow> 'a const_scheme \<Rightarrow> (unit, 'a const_scheme) res" where
  "cprintf fmt args s =
     (case cfmt fmt args of
        None \<Rightarrow> Fault ''cprintf: arguments''
      | Some out \<Rightarrow>
          if cons_locking s
          then kbind (lock_acquire LCons s) (\<lambda>_ s. kbind (consputs out s) (\<lambda>_ s. lock_release LCons s))
          else consputs out s)"

section \<open>Properties\<close>

text \<open>Reading a number back: digit values, least significant digit first.\<close>

definition digit_val :: "char \<Rightarrow> nat" where
  "digit_val c = (let n = of_char c :: nat in if n \<le> 57 then n - 48 else n - 87)"

primrec read_rev :: "nat \<Rightarrow> string \<Rightarrow> nat" where
  "read_rev b [] = 0"
| "read_rev b (c # cs) = digit_val c + b * read_rev b cs"

lemma digit_val_digit: "d < 16 \<Longrightarrow> digit_val (digit d) = d \<and> digit d \<noteq> CHR ''-'' \<and> digit d \<noteq> CHR '' ''"
proof -
  have "\<forall>d<16. digit_val (digit d) = d \<and> digit d \<noteq> CHR ''-'' \<and> digit d \<noteq> CHR '' ''" by code_simp
  then show "d < 16 \<Longrightarrow> digit_val (digit d) = d \<and> digit d \<noteq> CHR ''-'' \<and> digit d \<noteq> CHR '' ''" by blast
qed

lemma read_digits_rev: "2 \<le> b \<Longrightarrow> b \<le> 16 \<Longrightarrow> read_rev b (digits_rev b x) = x"
proof (induction b x rule: digits_rev.induct)
  case (1 b x)
  then have "x mod b < 16" using mod_less_divisor [of b x] by linarith
  then have d: "digit_val (digit (x mod b)) = x mod b" by (simp add: digit_val_digit)
  show ?case
  proof (cases "x < b")
    case False
    then have "read_rev b (digits_rev b (x div b)) = x div b" using 1 by simp
    then show ?thesis using False 1(2) d by (simp add: digits_rev.simps [of b x])
  qed (use d in \<open>simp add: digits_rev.simps [of b x]\<close>)
qed

lemma digits_rev_chars: "2 \<le> b \<Longrightarrow> b \<le> 16 \<Longrightarrow> c \<in> set (digits_rev b x) \<Longrightarrow> c \<noteq> CHR ''-'' \<and> c \<noteq> CHR '' ''"
proof (induction b x rule: digits_rev.induct)
  case (1 b x)
  then have "x mod b < 16" using mod_less_divisor [of b x] by linarith
  then have d: "digit (x mod b) \<noteq> CHR ''-'' \<and> digit (x mod b) \<noteq> CHR '' ''" by (simp add: digit_val_digit)
  show ?case
  proof (cases "x < b")
    case False
    then have "digits_rev b x = digit (x mod b) # digits_rev b (x div b)"
      using 1(2) by (simp add: digits_rev.simps [of b x])
    then show ?thesis using 1 False d by auto
  qed (use 1 d in \<open>simp add: digits_rev.simps [of b x]\<close>)
qed

text \<open>The number a field shows: strip the padding, read the sign and the digits.\<close>

definition read_field :: "nat \<Rightarrow> string \<Rightarrow> int" where
  "read_field b f =
     (let t = takeWhile (\<lambda>c. c \<noteq> CHR '' '') f
      in case t of
           c # cs \<Rightarrow> if c = CHR ''-'' then - int (read_rev b (rev cs)) else int (read_rev b (rev t))
         | [] \<Rightarrow> 0)"

lemma unat_neg_sint: "sint (x :: u32) < 0 \<Longrightarrow> int (unat (- x)) = - sint x"
proof -
  assume neg: "sint x < 0"
  have lo: "- (2 ^ 31) \<le> sint x" using sint_greater_eq [of x] by simp
  have "uint x = sint x mod 2 ^ 32" by (simp add: uint_sint take_bit_eq_mod)
  then have "uint (- x) = (- sint x) mod 2 ^ 32" by (simp add: uint_word_ariths mod_minus_eq)
  then show ?thesis using neg lo by simp
qed

lemma sint_nonneg: "\<not> sint (x :: u32) < 0 \<Longrightarrow> sint x = uint x"
proof -
  assume "\<not> sint x < 0"
  moreover have "sint x < 2 ^ 31" using sint_less [of x] by simp
  moreover have "uint x = sint x mod 2 ^ 32" by (simp add: uint_sint take_bit_eq_mod)
  ultimately show ?thesis by simp
qed

lemma digits_rev_nonempty: "digits_rev b x \<noteq> []"
  by (subst digits_rev.simps) simp

lemma takeWhile_pad:
  "\<forall>c\<in>set t. c \<noteq> CHR '' '' \<Longrightarrow> takeWhile (\<lambda>c. c \<noteq> CHR '' '') (t @ replicate n CHR '' '') = t"
  by (induction t) (cases n, auto)

lemma read_field_digits:
  assumes "2 \<le> b" "b \<le> 16"
  shows "read_field b (rev (digits_rev b n) @ replicate k CHR '' '') = int n"
    and "read_field b (CHR ''-'' # rev (digits_rev b n) @ replicate k CHR '' '') = - int n"
proof -
  let ?ds = "digits_rev b n"
  have ch: "\<forall>c\<in>set (rev ?ds). c \<noteq> CHR '' ''" "\<forall>c\<in>set (rev ?ds). c \<noteq> CHR ''-''"
    using digits_rev_chars [OF assms] by auto
  obtain c cs where cons: "rev ?ds = c # cs" using digits_rev_nonempty [of b n] by (cases "rev ?ds") auto
  have val: "read_rev b (rev (rev ?ds)) = n" using read_digits_rev [OF assms] by simp
  show "read_field b (rev ?ds @ replicate k CHR '' '') = int n"
    using ch val unfolding read_field_def takeWhile_pad [OF ch(1)] Let_def cons by simp
  have "takeWhile (\<lambda>c. c \<noteq> CHR '' '') (CHR ''-'' # rev ?ds @ replicate k CHR '' '') = CHR ''-'' # rev ?ds"
    using takeWhile_pad [OF ch(1)] by simp
  then show "read_field b (CHR ''-'' # rev ?ds @ replicate k CHR '' '') = - int n"
    using val by (simp add: read_field_def Let_def)
qed

text \<open>
  Numbers printed by \<^verbatim>\<open>cprintf\<close> read back: the field that \<^verbatim>\<open>printint\<close> produces for \<^verbatim>\<open>%d\<close> (base 10, signed) or \<^verbatim>\<open>%x\<close>
  (base 16, unsigned) is at least as wide as asked for, padded with blanks on the right, and reads back
  to the signed or unsigned value of the word, the most negative one included.
\<close>

lemma printint_roundtrip:
  assumes "2 \<le> b" "b \<le> 16"
  shows "read_field b (printint x b sign width) = (if sign then sint x else uint x)
    \<and> width \<le> length (printint x b sign width)"
proof (cases "sign \<and> sint x < 0")
  case True
  then have "printint x b sign width = CHR ''-'' # rev (digits_rev b (unat (- x))) @
      replicate (width - Suc (length (digits_rev b (unat (- x))))) CHR '' ''"
    by (simp add: printint_def Let_def)
  then show ?thesis using True read_field_digits(2) [OF assms] unat_neg_sint [of x] by simp
next
  case False
  then have "printint x b sign width = rev (digits_rev b (unat x)) @
      replicate (width - length (digits_rev b (unat x))) CHR '' ''"
    by (auto simp: printint_def Let_def)
  then show ?thesis using False read_field_digits(1) [OF assms] sint_nonneg [of x] by auto
qed

text \<open>
  The cursor of the CGA screen stays on the first 24 rows: from such a position \<^verbatim>\<open>consputc\<close> never panics
  and leaves the cursor on such a position, for every character including newline and backspace. It
  sends the character to the serial port, and for a printable character the cell under the old cursor
  shows it, at its place or, when the screen scrolled, one row up.
\<close>

lemma consputc_screen:
  assumes "cga_pos s < 24 * 80"
  shows "\<exists>s'. consputc c s = Ret () s' \<and> cga_pos s' < 24 * 80 \<and>
    (\<forall>ch. c = Ch ch \<and> ch \<noteq> CHR 0x0A \<longrightarrow>
       con_out s' = con_out s @ [ch] \<and>
       crt s' (if cga_pos s = 24 * 80 - 1 then cga_pos s - 80 else cga_pos s) = cga_cell ch)"
proof -
  have nl: "x + (80 - x mod 80) \<le> 24 * 80" if "x < 24 * 80" for x :: nat
  proof -
    define q r where "q = x div 80" and "r = x mod 80"
    have x: "x = 80 * q + r" "r < 80" by (simp_all add: q_def r_def)
    then have "q < 24" using that by linarith
    then show ?thesis unfolding r_def [symmetric] using x by simp
  qed
  show ?thesis
  proof (cases c)
    case (Ch ch)
    show ?thesis
    proof (cases "ch = CHR 0x0A")
      case True
      then show ?thesis using Ch nl [OF assms] assms
        by (auto simp: consputc_def cgaputc_def Let_def less_eq_div_iff_mult_less_eq)
    next
      case False
      then show ?thesis using Ch assms
        by (auto simp: consputc_def cgaputc_def Let_def cga_scroll_def)
    qed
  next
    case BACKSPACE
    then show ?thesis using assms by (auto simp: consputc_def cgaputc_def Let_def)
  qed
qed

text \<open>A console whose cursor is on the last cell of the last row.\<close>

definition const_ex :: const where
  "const_ex = \<lparr>held = [], mem = (\<lambda>_. 0), use_lock = True, freelist = 0, freemems = 0, kend = 0x80100000,
     kpgdir = 0, cr3 = 0, ts_esp0 = 0, kdata = 0x80108000,
     con_out = [], cons_locking = True, cga_pos = 24 * 80 - 1, crt = (\<lambda>_. 0)\<rparr>"

end
