(* ===== verification/Proc.thy ===== *)
theory Proc
  imports Print
begin

text \<open>
  The process table and the scheduler (\<^verbatim>\<open>proc.c\<close>, \<^verbatim>\<open>proc.h\<close> of the virtual-memory tree). The table is a list
  of process records, pointers to processes are indexes, and \<open>None\<close> is the null pointer. The state
  is what one CPU sees: \<open>cpu_proc\<close> is \<^verbatim>\<open>mycpu()->proc\<close>.

  A context switch splits a function in two. \<^verbatim>\<open>sleep\<close>, \<^verbatim>\<open>yield\<close> and \<^verbatim>\<open>wait\<close> end in the outcome \<open>Sleep\<close> with the
  state at the switch; what the thread does when the scheduler switches back to it are
  \<open>sleep_resume\<close> and \<open>yield_resume\<close>. \<open>scheduler_scan\<close> is the scheduler up to the switch to the process
  it has chosen, \<open>scheduler_back\<close> its continuation. \<^verbatim>\<open>fork\<close>, \<^verbatim>\<open>exit\<close>, \<^verbatim>\<open>userinit\<close> and \<^verbatim>\<open>forkret\<close>, which call the file
  system, are modelled after it.
\<close>

section \<open>Data\<close>

datatype procstate = UNUSED | EMBRYO | SLEEPING | RUNNABLE | RUNNING | ZOMBIE

record proc =
  p_sz :: u32
  p_pgdir :: u32
  p_kstack :: u32
  p_state :: procstate
  p_pid :: int
  p_parent :: "nat option"
  p_tf :: u32                 \<comment> \<open>address of the trap frame\<close>
  p_context :: u32            \<comment> \<open>address of the saved context\<close>
  p_chan :: chan
  p_killed :: bool
  p_ofile :: "nat option list" \<comment> \<open>indexes into the file table\<close>
  p_cwd :: "nat option"       \<comment> \<open>index into the inode cache\<close>
  p_name :: string            \<comment> \<open>up to the terminating NUL\<close>
  p_nice :: int
  p_weight :: int
  p_vruntime_high :: u32
  p_vruntime_low :: u32
  p_aruntime :: u32
  p_aruntime_prev :: u32
  p_timeslice :: u32

definition weights :: "int list" where
  "weights = [88761, 71755, 56483, 46273, 36291, 29154, 23254, 18705, 14949, 11916,
     9548, 7620, 6100, 4904, 3906, 3121, 2501, 1991, 1586, 1277,
     1024, 820, 655, 526, 423, 335, 272, 215, 172, 137,
     110, 87, 70, 56, 45, 36, 29, 23, 18, 15]"

record ptab = const +
  procs :: "proc list"        \<comment> \<open>\<^verbatim>\<open>ptable.proc\<close>\<close>
  nextpid :: int
  initproc :: "nat option"
  cpu_proc :: "nat option"
  ticks :: u32
  forkret_addr :: u32         \<comment> \<open>address of the code of \<^verbatim>\<open>forkret\<close>\<close>
  trapret_addr :: u32         \<comment> \<open>address of the code of \<^verbatim>\<open>trapret\<close>\<close>

text \<open>Storing into a process.\<close>

definition updp :: "nat \<Rightarrow> (proc \<Rightarrow> proc) \<Rightarrow> 'a ptab_scheme \<Rightarrow> 'a ptab_scheme" where
  "updp i f s = s\<lparr>procs := (procs s)[i := f (procs s ! i)]\<rparr>"

text \<open>C division of two \<^verbatim>\<open>int\<close>s rounds towards 0.\<close>

definition cdiv :: "int \<Rightarrow> int \<Rightarrow> int" where
  "cdiv a b = sgn a * sgn b * (\<bar>a\<bar> div \<bar>b\<bar>)"

section \<open>Creating and destroying processes\<close>

definition pinit :: "'a ptab_scheme \<Rightarrow> 'a ptab_scheme" where
  "pinit s = s\<lparr>held := removeAll LPtable (held s)\<rparr>"

text \<open>\<^verbatim>\<open>nextpid++\<close> on the largest \<^verbatim>\<open>int\<close> is a signed overflow.\<close>

definition alloc_slot :: "nat \<Rightarrow> 'a ptab_scheme \<Rightarrow> 'a ptab_scheme" where
  "alloc_slot i s =
     (updp i (\<lambda>p. p\<lparr>p_state := EMBRYO, p_pid := nextpid s, p_nice := 20, p_weight := weights ! 20,
         p_vruntime_high := 0, p_vruntime_low := 0, p_aruntime := 0, p_aruntime_prev := 0,
         p_timeslice := 0\<rparr>) s)\<lparr>nextpid := nextpid s + 1\<rparr>"

definition alloc_kstack :: "nat \<Rightarrow> 'a ptab_scheme \<Rightarrow> (nat option, 'a ptab_scheme) res" where
  "alloc_kstack i s =
     kbind (kalloc s) (\<lambda>k s.
       if k = 0 then Ret None (updp i (\<lambda>p. p\<lparr>p_kstack := 0, p_state := UNUSED\<rparr>) s)
       else let sp = k + 4096;
                tf = sp - 76;
                sp = tf - 4;
                m = store32 (mem s) sp (trapret_addr s);
                ctx = sp - 20;
                m = memset m ctx 0 20;
                m = store32 m (ctx + 16) (forkret_addr s)
            in Ret (Some i)
                 (updp i (\<lambda>p. p\<lparr>p_kstack := k, p_tf := tf, p_context := ctx\<rparr>) (s\<lparr>mem := m\<rparr>)))"

definition allocproc :: "'a ptab_scheme \<Rightarrow> (nat option, 'a ptab_scheme) res" where
  "allocproc s =
     kbind (lock_acquire LPtable s) (\<lambda>_ s.
       case find_index (\<lambda>p. p_state p = UNUSED) (procs s) of
         None \<Rightarrow> kbind (lock_release LPtable s) (\<lambda>_ s. Ret None s)
       | Some i \<Rightarrow>
           if nextpid s = 2147483647 then Fault ''allocproc: pid overflow''
           else kbind (lock_release LPtable (alloc_slot i s)) (\<lambda>_ s. alloc_kstack i s))"

text \<open>The address space of the process with index \<open>i\<close>, as \<^verbatim>\<open>switchuvm\<close> takes it.\<close>

definition uvm_of :: "nat option \<Rightarrow> 'a ptab_scheme \<Rightarrow> (u32 \<times> u32) option" where
  "uvm_of i s = map_option (\<lambda>i. (p_kstack (procs s ! i), p_pgdir (procs s ! i))) i"

definition growproc :: "int \<Rightarrow> 'a ptab_scheme \<Rightarrow> (int, 'a ptab_scheme) res" where
  "growproc n s =
     (case cpu_proc s of
        None \<Rightarrow> Fault ''growproc: null process''
      | Some i \<Rightarrow>
          let sz = p_sz (procs s ! i); pgdir = p_pgdir (procs s ! i);
              grown = (if n > 0 then allocuvm pgdir sz (sz + word_of_int n) s
                       else if n < 0 then deallocuvm pgdir sz (sz + word_of_int n) s
                       else Ret sz s)
          in kbind grown (\<lambda>sz s.
               if n \<noteq> 0 \<and> sz = 0 then Ret (-1) s
               else kbind (switchuvm (uvm_of (Some i) s) (updp i (\<lambda>p. p\<lparr>p_sz := sz\<rparr>) s)) (\<lambda>_ s. Ret 0 s)))"

section \<open>Scheduling\<close>

definition sched :: "'a ptab_scheme \<Rightarrow> (unit, 'a ptab_scheme) res" where
  "sched s =
     (case cpu_proc s of
        None \<Rightarrow> if LPtable \<notin> set (held s) then Panic ''sched ptable.lock''
                else if length (held s) \<noteq> 1 then Panic ''sched locks'' else Fault ''sched: null process''
      | Some i \<Rightarrow>
          if LPtable \<notin> set (held s) then Panic ''sched ptable.lock''
          else if length (held s) \<noteq> 1 then Panic ''sched locks''
          else if p_state (procs s ! i) = RUNNING then Panic ''sched running''
          else Ret () s)"

text \<open>
  \<^verbatim>\<open>sleep\<close> up to the switch. The channel \<open>c\<close> and the lock are arguments; \<open>None\<close> is a null lock.
\<close>

definition sleep :: "chan \<Rightarrow> lock option \<Rightarrow> 'a ptab_scheme \<Rightarrow> ('r, 'a ptab_scheme) res" where
  "sleep c lk s =
     (case cpu_proc s of
        None \<Rightarrow> Panic ''sleep''
      | Some i \<Rightarrow>
          (case lk of
             None \<Rightarrow> Panic ''sleep without lk''
           | Some l \<Rightarrow>
               kbind (if l \<noteq> LPtable
                      then kbind (lock_acquire LPtable s) (\<lambda>_ s. lock_release l s) else Ret () s) (\<lambda>_ s.
               kbind (sched (updp i (\<lambda>p. p\<lparr>p_chan := c, p_state := SLEEPING\<rparr>) s)) (\<lambda>_ s. Sleep c s))))"

definition sleep_resume :: "nat \<Rightarrow> lock \<Rightarrow> 'a ptab_scheme \<Rightarrow> (unit, 'a ptab_scheme) res" where
  "sleep_resume i l s =
     (let s = updp i (\<lambda>p. p\<lparr>p_chan := ChNull\<rparr>) s
      in if l \<noteq> LPtable then kbind (lock_release LPtable s) (\<lambda>_ s. lock_acquire l s) else Ret () s)"

definition yield :: "'a ptab_scheme \<Rightarrow> ('r, 'a ptab_scheme) res" where
  "yield s =
     kbind (lock_acquire LPtable s) (\<lambda>_ s.
       case cpu_proc s of
         None \<Rightarrow> Fault ''yield: null process''
       | Some i \<Rightarrow> kbind (sched (updp i (\<lambda>p. p\<lparr>p_state := RUNNABLE\<rparr>) s)) (\<lambda>_ s. Sleep ChNull s))"

definition yield_resume :: "'a ptab_scheme \<Rightarrow> (unit, 'a ptab_scheme) res" where
  "yield_resume s = lock_release LPtable s"

definition compare_vruntime :: "proc \<Rightarrow> proc \<Rightarrow> int" where
  "compare_vruntime p1 p2 =
     (if p_vruntime_high p1 > p_vruntime_high p2 then 1
      else if p_vruntime_high p1 < p_vruntime_high p2 then 0
      else if p_vruntime_low p1 > p_vruntime_low p2 then 1
      else if p_vruntime_low p1 < p_vruntime_low p2 then 0
      else 0)"

text \<open>One pass of the inner loop of \<^verbatim>\<open>scheduler\<close>, on the minimum and the weight so far.\<close>

definition sched_inner_step :: "proc list \<Rightarrow> nat \<times> u32 \<Rightarrow> nat \<Rightarrow> nat \<times> u32" where
  "sched_inner_step ps acc t =
     (let (min_p, total_weight) = acc
      in if p_state (ps ! t) = RUNNABLE
         then (if compare_vruntime (ps ! min_p) (ps ! t) \<noteq> 0 then t else min_p,
               total_weight + word_of_int (p_weight (ps ! t)))
         else acc)"

definition sched_inner :: "proc list \<Rightarrow> nat \<Rightarrow> nat \<times> u32" where
  "sched_inner ps p = foldl (sched_inner_step ps) (p, 0) [0..<length ps]"

text \<open>
  \<^verbatim>\<open>p->weight / total_weight\<close> is a division of unsigned words: it truncates, and traps when the total is 0.
\<close>

definition timeslice_of :: "int \<Rightarrow> u32 \<Rightarrow> u32" where
  "timeslice_of weight total_weight = 10000 * (word_of_int weight div total_weight)"

definition weight_of_nice :: "int \<Rightarrow> int option" where
  "weight_of_nice n = (if 0 \<le> n \<and> n < 40 then Some (weights ! nat n) else None)"

definition scheduler_switch :: "nat \<Rightarrow> u32 \<Rightarrow> 'a ptab_scheme \<Rightarrow> (nat option, 'a ptab_scheme) res" where
  "scheduler_switch i total_weight s =
     (let s = s\<lparr>cpu_proc := Some i\<rparr>
      in case weight_of_nice (p_nice (procs s ! i)) of
           None \<Rightarrow> Fault ''scheduler: weights index''
         | Some w \<Rightarrow>
             let s = updp i (\<lambda>p. p\<lparr>p_weight := w\<rparr>) s
             in kbind (switchuvm (uvm_of (Some i) s) s) (\<lambda>_ s.
                  if total_weight = 0 then Fault ''scheduler: division by zero''
                  else Ret (Some i) (updp i (\<lambda>p. p\<lparr>p_state := RUNNING,
                         p_timeslice := timeslice_of w total_weight\<rparr>) s)))"

text \<open>
  The outer loop from slot \<open>k\<close>: it returns the process it switches to, or \<open>None\<close> after the last slot with
  the lock released.
\<close>

function scheduler_scan :: "nat \<Rightarrow> 'a ptab_scheme \<Rightarrow> (nat option, 'a ptab_scheme) res" where
  "scheduler_scan k s =
     (if length (procs s) \<le> k then kbind (lock_release LPtable s) (\<lambda>_ s. Ret None s)
      else if p_state (procs s ! k) \<noteq> RUNNABLE then scheduler_scan (Suc k) s
      else let (m, total_weight) = sched_inner (procs s) k
           in scheduler_switch m total_weight s)"
  by pat_completeness auto
termination by (relation "measure (\<lambda>(k, s). length (procs s) - k)") auto

declare scheduler_scan.simps [simp del]

definition scheduler :: "'a ptab_scheme \<Rightarrow> (nat option, 'a ptab_scheme) res" where
  "scheduler s = kbind (lock_acquire LPtable s) (\<lambda>_ s. scheduler_scan 0 s)"

definition scheduler_back :: "nat \<Rightarrow> 'a ptab_scheme \<Rightarrow> (nat option, 'a ptab_scheme) res" where
  "scheduler_back i s = scheduler_scan (Suc i) ((switchkvm s)\<lparr>cpu_proc := None\<rparr>)"

section \<open>Waking up\<close>

text \<open>The first loop of \<^verbatim>\<open>wakeup1\<close>: the smallest virtual runtime of the runnable processes, if any.\<close>

definition min_step :: "(u32 \<times> u32) option \<Rightarrow> proc \<Rightarrow> (u32 \<times> u32) option" where
  "min_step acc p =
     (if p_state p \<noteq> RUNNABLE then acc
      else let (h, l) = (case acc of None \<Rightarrow> (p_vruntime_high p, p_vruntime_low p) | Some a \<Rightarrow> a)
           in if h > p_vruntime_high p then Some (p_vruntime_high p, p_vruntime_low p)
              else if h = p_vruntime_high p \<and> l > p_vruntime_low p then Some (h, p_vruntime_low p)
              else Some (h, l))"

definition min_vruntime :: "proc list \<Rightarrow> (u32 \<times> u32) option" where
  "min_vruntime ps = foldl min_step None ps"

definition wake_proc :: "(u32 \<times> u32) option \<Rightarrow> proc \<Rightarrow> proc" where
  "wake_proc m p =
     (let vh = (case m of Some (h, l) \<Rightarrow> h | None \<Rightarrow> 0);
          vl = (case m of Some (h, l) \<Rightarrow> l - word_of_int (cdiv 1024000 (p_weight p)) | None \<Rightarrow> 0);
          (vh, vl) = (if vl < 0 then (if vh > 0 then (vh - 1, vl + 1000000000) else (vh, 0)) else (vh, vl))
      in p\<lparr>p_state := RUNNABLE, p_vruntime_high := vh, p_vruntime_low := vl\<rparr>)"

definition sleeps_on :: "chan \<Rightarrow> proc \<Rightarrow> bool" where
  "sleeps_on c p \<longleftrightarrow> p_state p = SLEEPING \<and> p_chan p = c"

definition wakeup1 :: "chan \<Rightarrow> 'a ptab_scheme \<Rightarrow> (unit, 'a ptab_scheme) res" where
  "wakeup1 c s =
     (let m = min_vruntime (procs s)
      in if m \<noteq> None \<and> (\<exists>p\<in>set (procs s). sleeps_on c p \<and> p_weight p = 0)
         then Fault ''wakeup1: division by zero''
         else Ret () (s\<lparr>procs := map (\<lambda>p. if sleeps_on c p then wake_proc m p else p) (procs s)\<rparr>))"

definition wakeup :: "chan \<Rightarrow> 'a ptab_scheme \<Rightarrow> (unit, 'a ptab_scheme) res" where
  "wakeup c s = kbind (lock_acquire LPtable s) (\<lambda>_ s. kbind (wakeup1 c s) (\<lambda>_ s. lock_release LPtable s))"

definition kill :: "int \<Rightarrow> 'a ptab_scheme \<Rightarrow> (int, 'a ptab_scheme) res" where
  "kill pid s =
     kbind (lock_acquire LPtable s) (\<lambda>_ s.
       case find_index (\<lambda>p. p_pid p = pid) (procs s) of
         Some i \<Rightarrow>
           let s = updp i (\<lambda>p. p\<lparr>p_killed := True,
                 p_state := (if p_state p = SLEEPING then RUNNABLE else p_state p)\<rparr>) s
           in kbind (lock_release LPtable s) (\<lambda>_ s. Ret 0 s)
       | None \<Rightarrow> kbind (lock_release LPtable s) (\<lambda>_ s. Ret (-1) s))"

text \<open>
  \<^verbatim>\<open>wait\<close> up to its return or its \<^verbatim>\<open>sleep\<close>; on resumption it scans again (\<open>wait_scan\<close>). The scan stops at the first
  zombie child.
\<close>

definition wait_reap :: "nat \<Rightarrow> 'a ptab_scheme \<Rightarrow> (int, 'a ptab_scheme) res" where
  "wait_reap i s =
     (let pid = p_pid (procs s ! i)
      in kbind (kfree (p_kstack (procs s ! i)) s) (\<lambda>_ s.
         kbind (freevm (p_pgdir (procs s ! i)) (updp i (\<lambda>p. p\<lparr>p_kstack := 0\<rparr>) s)) (\<lambda>_ s.
         kbind (lock_release LPtable (updp i (\<lambda>p. p\<lparr>p_pid := 0, p_parent := None, p_name := [],
                  p_killed := False, p_state := UNUSED\<rparr>) s)) (\<lambda>_ s. Ret pid s))))"

definition wait_scan :: "nat \<Rightarrow> 'a ptab_scheme \<Rightarrow> (int, 'a ptab_scheme) res" where
  "wait_scan me s =
     (case find_index (\<lambda>p. p_parent p = Some me \<and> p_state p = ZOMBIE) (procs s) of
        Some i \<Rightarrow> wait_reap i s
      | None \<Rightarrow>
          if \<not> (\<exists>p\<in>set (procs s). p_parent p = Some me) \<or> p_killed (procs s ! me)
          then kbind (lock_release LPtable s) (\<lambda>_ s. Ret (-1) s)
          else sleep (ChProc me) (Some LPtable) s)"

definition wait :: "'a ptab_scheme \<Rightarrow> (int, 'a ptab_scheme) res" where
  "wait s =
     kbind (lock_acquire LPtable s) (\<lambda>_ s.
       case cpu_proc s of None \<Rightarrow> Fault ''wait: null process'' | Some me \<Rightarrow> wait_scan me s)"

section \<open>Nice values and listings\<close>

definition getpname :: "int \<Rightarrow> 'a ptab_scheme \<Rightarrow> (int, 'a ptab_scheme) res" where
  "getpname pid s =
     kbind (lock_acquire LPtable s) (\<lambda>_ s.
       case find_index (\<lambda>p. p_pid p = pid) (procs s) of
         Some i \<Rightarrow> kbind (cprintf (''%s'' @ [CHR 0x0A]) [AStr (Some (p_name (procs s ! i)))] s) (\<lambda>_ s.
                   kbind (lock_release LPtable s) (\<lambda>_ s. Ret 0 s))
       | None \<Rightarrow> kbind (lock_release LPtable s) (\<lambda>_ s. Ret (-1) s))"

definition getnice :: "int \<Rightarrow> 'a ptab_scheme \<Rightarrow> (int, 'a ptab_scheme) res" where
  "getnice pid s =
     (if pid \<le> 0 then Ret (-1) s
      else kbind (lock_acquire LPtable s) (\<lambda>_ s.
        case find_index (\<lambda>p. p_pid p = pid) (procs s) of
          Some i \<Rightarrow> let result = p_nice (procs s ! i)
                    in kbind (lock_release LPtable s) (\<lambda>_ s. Ret result s)
        | None \<Rightarrow> kbind (lock_release LPtable s) (\<lambda>_ s. Ret (-1) s)))"

definition setnice :: "int \<Rightarrow> int \<Rightarrow> 'a ptab_scheme \<Rightarrow> (int, 'a ptab_scheme) res" where
  "setnice pid val s =
     (if val < 0 \<or> val > 39 \<or> pid \<le> 0 then Ret (-1) s
      else kbind (lock_acquire LPtable s) (\<lambda>_ s.
        case find_index (\<lambda>p. p_pid p = pid) (procs s) of
          Some i \<Rightarrow> kbind (lock_release LPtable
                       (updp i (\<lambda>p. p\<lparr>p_nice := val, p_weight := weights ! nat val\<rparr>) s)) (\<lambda>_ s. Ret 0 s)
        | None \<Rightarrow> kbind (lock_release LPtable s) (\<lambda>_ s. Ret (-1) s)))"

fun digit_count :: "nat \<Rightarrow> nat" where
  "digit_count n = (if n = 0 then 0 else Suc (digit_count (n div 10)))"

declare digit_count.simps [simp del]

text \<open>The argument of \<^verbatim>\<open>get_digit_count\<close> is an \<^verbatim>\<open>int\<close>; division rounds towards 0, so the sign does not matter.\<close>

definition get_digit_count :: "u32 \<Rightarrow> nat" where
  "get_digit_count x = digit_count (nat \<bar>sint x\<bar>)"

definition stateName :: "procstate \<Rightarrow> string" where
  "stateName st = (case st of UNUSED \<Rightarrow> ''UNUSED'' | EMBRYO \<Rightarrow> ''EMBRYO'' | SLEEPING \<Rightarrow> ''SLEEPING''
     | RUNNABLE \<Rightarrow> ''RUNNABLE'' | RUNNING \<Rightarrow> ''RUNNING'' | ZOMBIE \<Rightarrow> ''ZOMBIE'')"

definition ps_header :: "'a ptab_scheme \<Rightarrow> (unit, 'a ptab_scheme) res" where
  "ps_header s =
     kbind (cprintf ''%20s%20s%20s%20s%20s%20s%20s%5s%d''
              (map (\<lambda>t. AStr (Some t)) [''name'', ''pid'', ''state'', ''priority'', ''runtime/weight'',
                 ''runtime'', ''vruntime'', ''tick''] @ [AInt (ticks s)]) s) (\<lambda>_ s.
     cprintf (''000'' @ [CHR 0x0A]) [] s)"

text \<open>
  The loop \<^verbatim>\<open>while (zero_count--)\<close> ends only for a count that is not negative: from a negative one it runs down to the
  smallest \<^verbatim>\<open>int\<close> and overflows.
\<close>

fun ps_zeros :: "nat \<Rightarrow> 'a ptab_scheme \<Rightarrow> (unit, 'a ptab_scheme) res" where
  "ps_zeros 0 s = Ret () s"
| "ps_zeros (Suc n) s = kbind (cprintf ''0'' [] s) (\<lambda>_ s. ps_zeros n s)"

definition ps_vruntime :: "proc \<Rightarrow> 'a ptab_scheme \<Rightarrow> (unit, 'a ptab_scheme) res" where
  "ps_vruntime p s =
     (if p_vruntime_high p \<noteq> 0
      then let zero_count = 9 - int (get_digit_count (p_vruntime_low p))
           in kbind (cprintf ''%d'' [AInt (p_vruntime_high p)] s) (\<lambda>_ s.
              kbind (if zero_count < 0 then Fault ''ps: zero_count'' else ps_zeros (nat zero_count) s) (\<lambda>_ s.
              cprintf (''%d'' @ [CHR 0x0A]) [AInt (p_vruntime_low p)] s))
      else cprintf (''%20d'' @ [CHR 0x0A]) [AInt (p_vruntime_low p)] s)"

definition ps_line :: "proc \<Rightarrow> 'a ptab_scheme \<Rightarrow> (unit, 'a ptab_scheme) res" where
  "ps_line p s =
     (if p_weight p = 0 then Fault ''ps: division by zero''
      else kbind (cprintf ''%20s%20d%20s%20d%20d%20d''
              [AStr (Some (p_name p)), AInt (word_of_int (p_pid p)), AStr (Some (stateName (p_state p))),
               AInt (word_of_int (p_nice p)), AInt (p_aruntime p div word_of_int (p_weight p)),
               AInt (p_aruntime p)] s) (\<lambda>_ s. ps_vruntime p s))"

fun ps_lines :: "proc list \<Rightarrow> 'a ptab_scheme \<Rightarrow> (unit, 'a ptab_scheme) res" where
  "ps_lines [] s = Ret () s"
| "ps_lines (p # ps) s = kbind (ps_line p s) (\<lambda>_ s. ps_lines ps s)"

definition ps_print :: "int \<Rightarrow> 'a ptab_scheme \<Rightarrow> (unit, 'a ptab_scheme) res" where
  "ps_print pid s =
     (if pid < 0 then Ret () s
      else kbind (lock_acquire LPtable s) (\<lambda>_ s.
        if pid \<noteq> 0 then
          (case find_index (\<lambda>p. p_pid p = pid \<and> p_state p \<noteq> UNUSED) (procs s) of
             Some i \<Rightarrow> kbind (ps_header s) (\<lambda>_ s. kbind (ps_line (procs s ! i) s) (\<lambda>_ s.
                       lock_release LPtable s))
           | None \<Rightarrow> lock_release LPtable s)
        else let temp = filter (\<lambda>p. p_state p \<noteq> UNUSED) (procs s)
             in kbind (if temp \<noteq> [] then ps_header s else Ret () s) (\<lambda>_ s.
                kbind (ps_lines temp s) (\<lambda>_ s. lock_release LPtable s))))"

definition dumpName :: "procstate \<Rightarrow> string" where
  "dumpName st = (case st of UNUSED \<Rightarrow> ''unused'' | EMBRYO \<Rightarrow> ''embryo'' | SLEEPING \<Rightarrow> ''sleep ''
     | RUNNABLE \<Rightarrow> ''runble'' | RUNNING \<Rightarrow> ''run   '' | ZOMBIE \<Rightarrow> ''zombie'')"

fun dump_pcs :: "u32 list \<Rightarrow> 'a ptab_scheme \<Rightarrow> (unit, 'a ptab_scheme) res" where
  "dump_pcs [] s = Ret () s"
| "dump_pcs (pc # rest) s =
     (if pc = 0 then Ret () s else kbind (cprintf '' %p'' [AInt pc] s) (\<lambda>_ s. dump_pcs rest s))"

text \<open>The saved \<^verbatim>\<open>ebp\<close> is the fourth word of the context.\<close>

fun procdump_loop :: "proc list \<Rightarrow> 'a ptab_scheme \<Rightarrow> (unit, 'a ptab_scheme) res" where
  "procdump_loop [] s = Ret () s"
| "procdump_loop (p # ps) s =
     (if p_state p = UNUSED then procdump_loop ps s
      else kbind (cprintf ''%d %s %s'' [AInt (word_of_int (p_pid p)), AStr (Some (dumpName (p_state p))),
                    AStr (Some (p_name p))] s) (\<lambda>_ s.
           kbind (if p_state p = SLEEPING
                  then dump_pcs (getcallerpcs (mem s) (load32 (mem s) (p_context p + 12) + 8)) s
                  else Ret () s) (\<lambda>_ s.
           kbind (cprintf [CHR 0x0A] [] s) (\<lambda>_ s. procdump_loop ps s))))"

definition procdump :: "'a ptab_scheme \<Rightarrow> (unit, 'a ptab_scheme) res" where
  "procdump s = procdump_loop (procs s) s"

end
