(* ===== verification/Sched.thy ===== *)
theory Sched
  imports Proc
begin

text \<open>
  The process table of \<^verbatim>\<open>proc.c\<close>: the invariant that every kernel operation on it keeps (pids are unique, the weight of a
  live process is the one of its nice value), the choice of the scheduler, the effect of \<^verbatim>\<open>wakeup\<close>, \<^verbatim>\<open>kill\<close> and of the nice
  system calls.
\<close>

section \<open>Memory operations leave the process table alone\<close>

definition keeps :: "'a vmst_scheme \<Rightarrow> ('b, 'a vmst_scheme) res \<Rightarrow> bool" where
  "keeps s r \<longleftrightarrow> post (\<lambda>s'. vmst.more s' = vmst.more s) r"

lemma keeps_simps [simp]:
  "keeps s (Ret a s') \<longleftrightarrow> vmst.more s' = vmst.more s" "keeps s (Panic m)" "keeps s (Fault m)"
  by (simp_all add: keeps_def)

lemma keeps_kbind:
  "keeps s m \<Longrightarrow> (\<And>a s'. vmst.more s' = vmst.more s \<Longrightarrow> keeps s (f a s')) \<Longrightarrow> keeps s (kbind m f)"
  unfolding keeps_def by (rule post_kbind)

lemma keeps_trans: "keeps s' r \<Longrightarrow> vmst.more s' = vmst.more s \<Longrightarrow> keeps s r"
  by (simp add: keeps_def)

lemma keeps_kalloc: "keeps s (kalloc s)"
  by (simp add: kalloc_def kmem_acquire_def kmem_release_def lock_acquire_def lock_release_def Let_def)

lemma keeps_kfree: "keeps s (kfree v s)"
  by (simp add: kfree_def kmem_acquire_def kmem_release_def lock_acquire_def lock_release_def Let_def)

lemma keeps_walkpgdir: "keeps s (walkpgdir pgdir va al s)"
  by (auto simp: walkpgdir_def Let_def intro!: keeps_kbind keeps_kalloc)

lemma keeps_mappages_loop: "keeps s (mappages_loop fuel pgdir a b pa perm s)"
proof (induction fuel arbitrary: s a pa)
  case (Suc fuel)
  show ?case
    by (auto simp: Let_def intro!: keeps_kbind keeps_walkpgdir keeps_trans [OF Suc])
qed simp

lemma keeps_mappages: "keeps s (mappages pgdir va sz pa perm s)"
  by (simp add: mappages_def keeps_mappages_loop del: mappages_loop.simps)

lemma keeps_deallocuvm_loop: "keeps s (deallocuvm_loop fuel pgdir a oldsz s)"
proof (induction fuel arbitrary: s a)
  case (Suc fuel)
  show ?case
    by (auto simp: Let_def intro!: keeps_kbind keeps_walkpgdir keeps_trans [OF keeps_kfree] keeps_trans [OF Suc])
qed simp

lemma keeps_deallocuvm: "keeps s (deallocuvm pgdir oldsz newsz s)"
  by (auto simp: deallocuvm_def simp del: deallocuvm_loop.simps intro!: keeps_kbind keeps_deallocuvm_loop)

lemma keeps_allocuvm_loop: "keeps s (allocuvm_loop fuel pgdir a oldsz newsz s)"
proof (induction fuel arbitrary: s a)
  case (Suc fuel)
  show ?case
    by (auto intro!: keeps_kbind keeps_kalloc keeps_trans [OF keeps_deallocuvm] keeps_trans [OF keeps_mappages]
        keeps_trans [OF keeps_kfree] keeps_trans [OF Suc])
qed simp

lemma keeps_allocuvm: "keeps s (allocuvm pgdir oldsz newsz s)"
  by (auto simp: allocuvm_def simp del: allocuvm_loop.simps intro!: keeps_allocuvm_loop)

lemma keeps_freevm_loop: "keeps s (freevm_loop n pgdir i s)"
proof (induction n arbitrary: s i)
  case (Suc n)
  show ?case
    by (auto simp: Let_def intro!: keeps_kbind keeps_kfree keeps_trans [OF Suc])
qed auto

lemma keeps_freevm: "keeps s (freevm pgdir s)"
  by (auto simp: freevm_def simp del: freevm_loop.simps
      intro!: keeps_kbind keeps_deallocuvm keeps_trans [OF keeps_freevm_loop] keeps_trans [OF keeps_kfree])

text \<open>The parts of the process state, which lie in the extension of the memory state.\<close>

definition pview :: "'a ptab_scheme \<Rightarrow> proc list \<times> int \<times> nat option \<times> nat option" where
  "pview s = (procs s, nextpid s, initproc s, cpu_proc s)"

lemma pview_more: "vmst.more (s' :: 'a ptab_scheme) = vmst.more s \<Longrightarrow> pview s' = pview s"
  by (cases s, cases s') (simp add: pview_def)

lemmas keeps_ops = keeps_kalloc keeps_kfree keeps_freevm keeps_allocuvm keeps_deallocuvm

lemma keeps_pview: "keeps s r \<Longrightarrow> post (\<lambda>s'. pview s' = pview (s :: 'a ptab_scheme)) r"
  unfolding keeps_def by (erule post_mono) (rule pview_more)


section \<open>The process table invariant\<close>

text \<open>
  A slot: its pid has been given out or is 0, a slot in use has one, and a slot with a pid has a nice
  value in range and the weight that belongs to it.
\<close>

definition slot_ok :: "int \<Rightarrow> proc \<Rightarrow> bool" where
  "slot_ok n p \<longleftrightarrow> 0 \<le> p_pid p \<and> p_pid p < n \<and> (p_state p \<noteq> UNUSED \<longrightarrow> p_pid p \<noteq> 0) \<and>
     (p_pid p \<noteq> 0 \<longrightarrow> 0 \<le> p_nice p \<and> p_nice p < 40 \<and> p_weight p = weights ! nat (p_nice p))"

definition procs_ok :: "proc list \<Rightarrow> int \<Rightarrow> bool" where
  "procs_ok ps n \<longleftrightarrow> length ps = 64 \<and> 0 < n \<and> (\<forall>i<64. slot_ok n (ps ! i)) \<and>
     (\<forall>i<64. \<forall>j<64. p_pid (ps ! i) = p_pid (ps ! j) \<and> p_pid (ps ! i) \<noteq> 0 \<longrightarrow> i = j)"

definition ptab_ok :: "'a ptab_scheme \<Rightarrow> bool" where
  "ptab_ok s \<longleftrightarrow> procs_ok (procs s) (nextpid s) \<and>
     (\<forall>i. cpu_proc s = Some i \<longrightarrow> i < 64 \<and> p_pid (procs s ! i) \<noteq> 0)"

lemma weights_range: "0 \<le> v \<Longrightarrow> v < 40 \<Longrightarrow> 15 \<le> weights ! nat v \<and> weights ! nat v \<le> 88761"
proof -
  have "\<forall>i<40. 15 \<le> weights ! i \<and> weights ! i \<le> 88761" by code_simp
  then show "0 \<le> v \<Longrightarrow> v < 40 \<Longrightarrow> 15 \<le> weights ! nat v \<and> weights ! nat v \<le> 88761"
    by (metis nat_less_iff of_nat_numeral)
qed

lemma slot_ok_weight: "slot_ok n p \<Longrightarrow> p_state p \<noteq> UNUSED \<Longrightarrow> 15 \<le> p_weight p \<and> p_weight p \<le> 88761"
  using weights_range [of "p_nice p"] by (auto simp: slot_ok_def)

lemma nth_upd: "j < length xs \<Longrightarrow> xs[i := x] ! j = (if j = i then x else xs ! j)"
  by auto

lemma procs_ok_set:
  assumes ps: "length ps = 64" "0 < n" "\<And>j. j < 64 \<Longrightarrow> j \<noteq> i \<Longrightarrow> slot_ok n (ps ! j)" "slot_ok n p'"
    and un: "\<forall>i<64. \<forall>j<64. p_pid (ps ! i) = p_pid (ps ! j) \<and> p_pid (ps ! i) \<noteq> 0 \<longrightarrow> i = j"
    and new: "\<And>j. j < 64 \<Longrightarrow> j \<noteq> i \<Longrightarrow> p_pid p' \<noteq> 0 \<Longrightarrow> p_pid (ps ! j) \<noteq> p_pid p'"
  shows "procs_ok (ps[i := p']) n"
proof -
  have nth: "ps[i := p'] ! j = (if j = i then p' else ps ! j)" if "j < 64" for j
    using that ps(1) by (simp add: nth_upd)
  have "a = b" if "a < 64" "b < 64" "p_pid (ps[i := p'] ! a) = p_pid (ps[i := p'] ! b)" "p_pid (ps[i := p'] ! a) \<noteq> 0" for a b
  proof (cases "a = i \<or> b = i")
    case True
    then show ?thesis using that new [of a] new [of b] by (auto simp: nth split: if_splits)
  next
    case False
    then show ?thesis using that un by (simp add: nth)
  qed
  moreover have "slot_ok n (ps[i := p'] ! j)" if "j < 64" for j using ps that by (simp add: nth)
  ultimately show ?thesis using ps(1,2) unfolding procs_ok_def by simp
qed

lemma procs_ok_upd:
  assumes ok: "procs_ok ps n" and "slot_ok n p'" and pid: "p_pid p' = p_pid (ps ! i) \<or> p_pid p' = 0"
  shows "procs_ok (ps[i := p']) n"
proof (cases "i < 64")
  case True
  have un: "\<forall>i<64. \<forall>j<64. p_pid (ps ! i) = p_pid (ps ! j) \<and> p_pid (ps ! i) \<noteq> 0 \<longrightarrow> i = j"
    using ok by (simp add: procs_ok_def)
  have "p_pid (ps ! j) \<noteq> p_pid p'" if "j < 64" "j \<noteq> i" "p_pid p' \<noteq> 0" for j
    using un True that pid by metis
  then show ?thesis using assms un by (intro procs_ok_set) (auto simp: procs_ok_def)
qed (use ok in \<open>simp add: procs_ok_def\<close>)

lemma procs_ok_map:
  assumes "procs_ok ps n" "\<And>p. slot_ok n p \<Longrightarrow> slot_ok n (f p)" "\<And>p. p_pid (f p) = p_pid p"
  shows "procs_ok (map f ps) n"
  using assms by (auto simp: procs_ok_def)

lemma procs_ok_new:
  assumes "procs_ok ps n" "slot_ok (n + 1) p'" "p_pid p' = n"
  shows "procs_ok (ps[i := p']) (n + 1)"
proof -
  have "slot_ok (n + 1) (ps ! j)" "p_pid (ps ! j) \<noteq> n" if "j < 64" for j
    using assms(1) that by (auto simp: procs_ok_def slot_ok_def)
  then show ?thesis using assms by (intro procs_ok_set) (auto simp: procs_ok_def)
qed

lemma updp_simps [simp]:
  "procs (updp i f s) = (procs s)[i := f (procs s ! i)]" "nextpid (updp i f s) = nextpid s"
  "cpu_proc (updp i f s) = cpu_proc s" "initproc (updp i f s) = initproc s" "held (updp i f s) = held s"
  "mem (updp i f s) = mem s"
  by (simp_all add: updp_def)

lemma ptab_ok_updp:
  assumes ok: "ptab_ok s" and sl: "slot_ok (nextpid s) (procs s ! i) \<Longrightarrow> slot_ok (nextpid s) (f (procs s ! i))"
    and pid: "p_pid (f (procs s ! i)) = p_pid (procs s ! i) \<or> p_pid (f (procs s ! i)) = 0 \<and> cpu_proc s \<noteq> Some i"
  shows "ptab_ok (updp i f s)"
proof (cases "i < length (procs s)")
  case True
  have len: "length (procs s) = 64" using ok by (simp add: ptab_ok_def procs_ok_def)
  have "slot_ok (nextpid s) (procs s ! i)" using True ok by (auto simp: ptab_ok_def procs_ok_def)
  then have "procs_ok (procs (updp i f s)) (nextpid s)" using sl pid ok by (auto simp: ptab_ok_def procs_ok_upd)
  moreover have "p_pid (procs (updp i f s) ! c) \<noteq> 0" if "cpu_proc s = Some c" for c
    using ok pid that len by (auto simp: ptab_ok_def nth_upd)
  ultimately show ?thesis using ok by (simp add: ptab_ok_def)
qed (use ok in \<open>simp add: ptab_ok_def list_update_beyond\<close>)

lemma ptab_ok_pview: "pview s' = pview s \<Longrightarrow> ptab_ok s' = ptab_ok s"
  by (simp add: pview_def ptab_ok_def)

lemma post_lock:
  assumes "\<And>h. P (s\<lparr>held := h\<rparr>)"
  shows "post P (lock_acquire l s)" "post P (lock_release l s)"
  using assms by (simp_all add: lock_acquire_def lock_release_def)

lemma ptab_ok_simps [simp]:
  "ptab_ok (s\<lparr>held := h\<rparr>) = ptab_ok s" "ptab_ok (s\<lparr>mem := m\<rparr>) = ptab_ok s"
  "ptab_ok (s\<lparr>cr3 := x\<rparr>) = ptab_ok s" "ptab_ok (s\<lparr>ts_esp0 := y\<rparr>) = ptab_ok s"
  by (simp_all add: ptab_ok_def)

lemma post_vm:
  fixes s :: "'a ptab_scheme"
  assumes "keeps s r" "ptab_ok s"
  shows "post ptab_ok r"
  by (rule post_mono [OF keeps_pview [OF assms(1)]]) (use assms(2) ptab_ok_pview in blast)

lemmas post_ok = post_kbind post_lock post_vm [OF keeps_kalloc] post_vm [OF keeps_kfree]
  post_vm [OF keeps_freevm] post_vm [OF keeps_allocuvm] post_vm [OF keeps_deallocuvm]

lemma post_switchuvm: "ptab_ok s \<Longrightarrow> post ptab_ok (switchuvm p s)"
  by (auto simp: switchuvm_def split: option.splits)

lemma post_sched: "ptab_ok s \<Longrightarrow> post ptab_ok (sched s)"
  by (simp add: sched_def split: option.splits)

lemma ptab_ok_new:
  assumes "ptab_ok s" "slot_ok (nextpid s + 1) (f (procs s ! i))" "p_pid (f (procs s ! i)) = nextpid s"
  shows "ptab_ok ((updp i f s)\<lparr>nextpid := nextpid s + 1\<rparr>)"
proof -
  have len: "length (procs s) = 64" "0 < nextpid s" using assms(1) by (auto simp: ptab_ok_def procs_ok_def)
  have "procs_ok ((procs s)[i := f (procs s ! i)]) (nextpid s + 1)"
    using assms by (simp add: ptab_ok_def procs_ok_new)
  then show ?thesis using assms len by (auto simp: ptab_ok_def nth_upd)
qed

lemma ptab_ok_alloc_slot: "ptab_ok s \<Longrightarrow> ptab_ok (alloc_slot i s)"
proof -
  assume ok: "ptab_ok s"
  then have "0 < nextpid s" by (simp add: ptab_ok_def procs_ok_def)
  then show ?thesis unfolding alloc_slot_def using ok by (intro ptab_ok_new) (auto simp: slot_ok_def)
qed

lemma post_alloc_kstack: "ptab_ok s \<Longrightarrow> post ptab_ok (alloc_kstack i s)"
  unfolding alloc_kstack_def by (intro post_ok) (auto simp: Let_def slot_ok_def intro!: ptab_ok_updp)

lemma post_allocproc: "ptab_ok s \<Longrightarrow> post ptab_ok (allocproc s)"
  unfolding allocproc_def
  by (intro post_ok) (auto intro!: post_ok post_alloc_kstack simp: ptab_ok_alloc_slot split: option.split)

lemma post_growproc: "ptab_ok s \<Longrightarrow> post ptab_ok (growproc n s)"
  unfolding growproc_def
  by (auto intro!: post_ok post_switchuvm ptab_ok_updp simp: Let_def slot_ok_def split: option.split)

lemma post_suspend:
  assumes "ptab_ok s" "cpu_proc s = Some i" "\<And>p. p_pid (f p) = p_pid p \<and> p_nice (f p) = p_nice p \<and> p_weight (f p) = p_weight p"
  shows "post ptab_ok (kbind (sched (updp i f s)) (\<lambda>_ s. Sleep c s))"
  using assms by (auto intro!: post_kbind post_sched ptab_ok_updp simp: slot_ok_def ptab_ok_def)

lemma post_sleep: "ptab_ok s \<Longrightarrow> post ptab_ok (sleep c lk s)"
  unfolding sleep_def
  by (auto split: option.split simp: lock_acquire_def lock_release_def intro!: post_suspend)

lemma post_yield: "ptab_ok s \<Longrightarrow> post ptab_ok (yield s)"
  unfolding yield_def by (auto split: option.split simp: lock_acquire_def intro!: post_suspend)

lemma wake_proc_simps [simp]:
  "p_pid (wake_proc m p) = p_pid p" "p_nice (wake_proc m p) = p_nice p" "p_weight (wake_proc m p) = p_weight p"
  "p_state (wake_proc m p) = RUNNABLE" "p_chan (wake_proc m p) = p_chan p"
  by (auto simp: wake_proc_def Let_def split: prod.split)

lemma post_wakeup1: 
  assumes "ptab_ok s"
  shows "post ptab_ok (wakeup1 c s)"
proof -
  let ?f = "\<lambda>p. if sleeps_on c p then wake_proc (min_vruntime (procs s)) p else p"
  have "procs_ok (map ?f (procs s)) (nextpid s)"
    using assms by (intro procs_ok_map) (auto simp: ptab_ok_def slot_ok_def sleeps_on_def)
  then show ?thesis using assms by (auto simp: wakeup1_def Let_def ptab_ok_def procs_ok_def)
qed

lemma post_wakeup: "ptab_ok s \<Longrightarrow> post ptab_ok (wakeup c s)"
  unfolding wakeup_def by (auto intro!: post_ok post_wakeup1)

lemma post_kill: "ptab_ok s \<Longrightarrow> post ptab_ok (kill pid s)"
  unfolding kill_def
  by (auto intro!: post_ok ptab_ok_updp simp: slot_ok_def Let_def split: option.split)

lemma post_setnice: "ptab_ok s \<Longrightarrow> post ptab_ok (setnice pid v s)"
  unfolding setnice_def
  by (auto intro!: post_ok ptab_ok_updp simp: slot_ok_def split: option.split)

lemma post_wait_reap:
  assumes "ptab_ok s" "cpu_proc s \<noteq> Some i"
  shows "post ptab_ok (wait_reap i s)"
proof -
  let ?P = "\<lambda>s :: 'a ptab_scheme. ptab_ok s \<and> cpu_proc s \<noteq> Some i"
  have vm: "post ?P r" if "keeps s r" "?P s" for r :: "(unit, 'a ptab_scheme) res" and s
    by (rule post_mono [OF keeps_pview [OF that(1)]]) (use that(2) in \<open>auto simp: pview_def ptab_ok_def\<close>)
  have "post ?P (wait_reap i s)"
    unfolding wait_reap_def Let_def using assms
    by (auto intro!: post_kbind post_lock vm keeps_kfree keeps_freevm ptab_ok_updp simp: slot_ok_def)
  then show ?thesis by (rule post_mono) auto
qed

lemma post_wait_scan:
  assumes "ptab_ok s" "cpu_proc s = Some me" "p_state (procs s ! me) = RUNNING"
  shows "post ptab_ok (wait_scan me s)"
proof -
  have "i \<noteq> me" if "find_index (\<lambda>p. p_parent p = Some me \<and> p_state p = ZOMBIE) (procs s) = Some i" for i
    using find_index_SomeD(2) [OF that] assms(3) by auto
  then show ?thesis using assms unfolding wait_scan_def
    by (auto intro!: post_wait_reap post_sleep post_ok split: option.split)
qed

lemma post_wait:
  assumes "ptab_ok s" "\<And>i. cpu_proc s = Some i \<Longrightarrow> p_state (procs s ! i) = RUNNING"
  shows "post ptab_ok (wait s)"
  unfolding wait_def using assms by (auto simp: lock_acquire_def split: option.split intro!: post_wait_scan)

section \<open>The scheduler\<close>

text \<open>Virtual runtimes compare lexicographically, that is as 64-bit numbers.\<close>

definition vr :: "proc \<Rightarrow> nat" where
  "vr p = unat (p_vruntime_high p) * 2 ^ 32 + unat (p_vruntime_low p)"

lemma lex_less_iff:
  fixes a b c d K :: nat
  assumes "b < K" "d < K"
  shows "a * K + b < c * K + d \<longleftrightarrow> a < c \<or> a = c \<and> b < d"
proof -
  have "x * K + K \<le> y * K" if "x < y" for x y :: nat
    using mult_le_mono1 [of "Suc x" y K] that by simp
  from this [of a c] this [of c a] show ?thesis
    using assms by (cases a c rule: linorder_cases) auto
qed

lemma compare_vruntime_iff: "compare_vruntime p q \<noteq> 0 \<longleftrightarrow> vr q < vr p"
proof -
  have "unat (p_vruntime_low p) < 2 ^ 32" "unat (p_vruntime_low q) < 2 ^ 32" by simp_all
  then have "vr q < vr p \<longleftrightarrow> unat (p_vruntime_high q) < unat (p_vruntime_high p) \<or>
      unat (p_vruntime_high q) = unat (p_vruntime_high p) \<and> unat (p_vruntime_low q) < unat (p_vruntime_low p)"
    unfolding vr_def by (intro lex_less_iff)
  then show ?thesis by (auto simp: compare_vruntime_def word_less_nat_alt word_unat_eq_iff)
qed

abbreviation (input) runnable :: "proc \<Rightarrow> bool" where "runnable p \<equiv> p_state p = RUNNABLE"

lemma sched_inner_step_eq [simp]:
  "sched_inner_step ps (m, w) t =
     (if runnable (ps ! t) then (if vr (ps ! t) < vr (ps ! m) then t else m, w + word_of_int (p_weight (ps ! t)))
      else (m, w))"
  by (simp add: sched_inner_step_def compare_vruntime_iff)

lemma sched_inner_fold:
  assumes "foldl (sched_inner_step ps) (m0, w0) ts = (m, w)" "runnable (ps ! m0)"
  shows "runnable (ps ! m) \<and> (m = m0 \<or> m \<in> set ts) \<and> vr (ps ! m) \<le> vr (ps ! m0) \<and>
    (\<forall>t\<in>set ts. runnable (ps ! t) \<longrightarrow> vr (ps ! m) \<le> vr (ps ! t)) \<and>
    w = w0 + (\<Sum>t\<leftarrow>filter (\<lambda>t. runnable (ps ! t)) ts. word_of_int (p_weight (ps ! t)))"
  using assms
proof (induction ts arbitrary: m0 w0)
  case (Cons t ts)
  show ?case
  proof (cases "runnable (ps ! t)")
    case False
    then show ?thesis using Cons by auto
  next
    case True
    let ?m1 = "if vr (ps ! t) < vr (ps ! m0) then t else m0"
    have f: "foldl (sched_inner_step ps) (?m1, w0 + word_of_int (p_weight (ps ! t))) ts = (m, w)"
      using Cons.prems(1) True
      by (cases "vr (ps ! t) < vr (ps ! m0)") simp_all
    have r: "runnable (ps ! ?m1)" using True Cons.prems(2) by simp
    show ?thesis using Cons.IH [OF f r] True
      by (cases "vr (ps ! t) < vr (ps ! m0)") (auto simp: add.assoc)
  qed
qed auto

lemma runnable_weight: "ptab_ok s \<Longrightarrow> i < 64 \<Longrightarrow> runnable (procs s ! i) \<Longrightarrow>
    15 \<le> p_weight (procs s ! i) \<and> p_weight (procs s ! i) \<le> 88761 \<and>
    weight_of_nice (p_nice (procs s ! i)) = Some (p_weight (procs s ! i))"
  using slot_ok_weight [of "nextpid s" "procs s ! i"]
  by (auto simp: ptab_ok_def procs_ok_def weight_of_nice_def slot_ok_def)


lemma sum_weights:
  assumes "\<And>t. t \<in> set ts \<Longrightarrow> 15 \<le> p_weight (ps ! t) \<and> p_weight (ps ! t) \<le> 88761" "length ts \<le> 64"
  shows "unat (\<Sum>t\<leftarrow>ts. word_of_int (p_weight (ps ! t)) :: u32) = (\<Sum>t\<leftarrow>ts. nat (p_weight (ps ! t)))
    \<and> (\<Sum>t\<leftarrow>ts. nat (p_weight (ps ! t))) \<le> 88761 * length ts"
  using assms
proof (induction ts)
  case (Cons t ts)
  let ?w = "p_weight (ps ! t)"
  have w: "15 \<le> ?w" "?w \<le> 88761" using Cons.prems(1) by simp_all
  have u: "unat (word_of_int ?w :: u32) = nat ?w"
    using w by (simp add: unsigned_of_int take_bit_int_eq_self)
  have IH: "unat (\<Sum>t\<leftarrow>ts. word_of_int (p_weight (ps ! t)) :: u32) = (\<Sum>t\<leftarrow>ts. nat (p_weight (ps ! t)))"
    "(\<Sum>t\<leftarrow>ts. nat (p_weight (ps ! t))) \<le> 88761 * length ts" using Cons by auto
  have "nat ?w \<le> 88761" "length ts \<le> 63" using w Cons.prems(2) by simp_all
  moreover from this have "nat ?w + (\<Sum>t\<leftarrow>ts. nat (p_weight (ps ! t))) < 2 ^ 32" using IH(2) by simp
  ultimately show ?case using u IH by (simp add: unat_add_no_wrap)
qed simp

text \<open>The total weight is the weight of the chosen process exactly when no other process is runnable.\<close>

lemma timeslice_cases:
  assumes ok: "ptab_ok s" and m: "m < 64" "runnable (procs s ! m)"
  defines "w \<equiv> p_weight (procs s ! m)"
    and "tw \<equiv> (\<Sum>t\<leftarrow>filter (\<lambda>t. runnable (procs s ! t)) [0..<64]. word_of_int (p_weight (procs s ! t))) :: u32"
  shows "tw \<noteq> 0" "timeslice_of w tw = (if \<exists>j<64. j \<noteq> m \<and> runnable (procs s ! j) then 0 else 10000)"
proof -
  let ?ts = "filter (\<lambda>t. runnable (procs s ! t)) [0..<64]" and ?w = "\<lambda>t. nat (p_weight (procs s ! t))"
  have rng: "15 \<le> p_weight (procs s ! t) \<and> p_weight (procs s ! t) \<le> 88761" if "t \<in> set ?ts" for t
    using runnable_weight [OF ok, of t] that by auto
  have "length ?ts \<le> length [0..<64::nat]" by (rule length_filter_le)
  then have tw: "unat tw = (\<Sum>t\<leftarrow>?ts. ?w t)" unfolding tw_def using sum_weights [of ?ts "procs s"] rng by simp
  also have "\<dots> = (\<Sum>t\<in>{t. t < 64 \<and> runnable (procs s ! t)}. ?w t)"
    by (subst sum_list_distinct_conv_sum_set) (auto intro!: sum.cong)
  also have "\<dots> = ?w m + (\<Sum>t\<in>{t. t < 64 \<and> t \<noteq> m \<and> runnable (procs s ! t)}. ?w t)" (is "_ = _ + ?rest")
    using m by (subst sum.remove [of _ m]) (auto intro!: sum.cong)
  finally have tot: "unat tw = nat w + ?rest" by (simp add: w_def)
  have wm: "15 \<le> w" "w \<le> 88761" using rng [of m] m by (simp_all add: w_def)
  have u: "unat (word_of_int w :: u32) = nat w" using wm by (simp add: unsigned_of_int take_bit_int_eq_self)
  have "0 < unat tw" using tot wm by simp
  then show "tw \<noteq> 0" by auto
  have q: "unat (word_of_int w div tw) = nat w div (nat w + ?rest)"
    by (simp add: unat_div_distrib u tot)
  show "timeslice_of w tw = (if \<exists>j<64. j \<noteq> m \<and> runnable (procs s ! j) then 0 else 10000)"
  proof (cases "\<exists>j<64. j \<noteq> m \<and> runnable (procs s ! j)")
    case True
    then obtain j where j: "j < 64" "j \<noteq> m" "runnable (procs s ! j)" by blast
    then have "0 < ?w j" using rng [of j] by simp
    also have "?w j \<le> ?rest" using j by (intro member_le_sum) auto
    finally have "unat (word_of_int w div tw) = 0" using q by simp
    then show ?thesis using True by (simp add: timeslice_of_def unat_eq_0)
  next
    case False
    then have none: "{t. t < 64 \<and> t \<noteq> m \<and> runnable (procs s ! t)} = {}" by auto
    have "unat (word_of_int w div tw) = 1" using q wm unfolding none by simp
    then have "word_of_int w div tw = 1" by (simp add: word_unat_eq_iff)
    then show ?thesis using False by (simp add: timeslice_of_def)
  qed
qed

text \<open>The process the scheduler chooses, and what it does to it.\<close>

definition min_runnable :: "proc list \<Rightarrow> nat \<Rightarrow> bool" where
  "min_runnable ps m \<longleftrightarrow> m < 64 \<and> runnable (ps ! m) \<and> (\<forall>j<64. runnable (ps ! j) \<longrightarrow> vr (ps ! m) \<le> vr (ps ! j))"

definition run_proc :: "proc list \<Rightarrow> nat \<Rightarrow> proc list" where
  "run_proc ps m = ps[m := (ps ! m)\<lparr>p_state := RUNNING,
     p_timeslice := (if \<exists>j<64. j \<noteq> m \<and> runnable (ps ! j) then 0 else 10000)\<rparr>]"

lemma scheduler_switch_run:
  fixes s :: "'a ptab_scheme"
  assumes ok: "ptab_ok s" and k: "k < 64" "runnable (procs s ! k)"
    and vm: "\<forall>i<64. runnable (procs s ! i) \<longrightarrow> p_kstack (procs s ! i) \<noteq> 0 \<and> p_pgdir (procs s ! i) \<noteq> 0"
  shows "\<exists>m s'. (case sched_inner (procs s) k of (m, tw) \<Rightarrow> scheduler_switch m tw s) = Ret (Some m) s' \<and>
     min_runnable (procs s) m \<and> procs s' = run_proc (procs s) m \<and> cpu_proc s' = Some m \<and> held s' = held s \<and>
     nextpid s' = nextpid s \<and> cr3 s' = V2P (p_pgdir (procs s ! m))"
proof -
  let ?ps = "procs s"
  have len: "length ?ps = 64" using ok by (simp add: ptab_ok_def procs_ok_def)
  obtain m tw where f: "sched_inner ?ps k = (m, tw)" by (cases "sched_inner ?ps k")
  then have fold: "foldl (sched_inner_step ?ps) (k, 0) [0..<64] = (m, tw)" by (simp add: sched_inner_def len)
  from sched_inner_fold [OF this k(2)] k have m: "min_runnable ?ps m" "m < 64" "runnable (?ps ! m)"
    and tw: "tw = (\<Sum>t\<leftarrow>filter (\<lambda>t. runnable (?ps ! t)) [0..<64]. word_of_int (p_weight (?ps ! t)))"
    by (auto simp: min_runnable_def)
  note w = runnable_weight [OF ok m(2,3)] and ts = timeslice_cases [OF ok m(2,3), folded tw]
  have same: "?ps[m := (?ps ! m)\<lparr>p_weight := p_weight (?ps ! m)\<rparr>] = ?ps" by simp
  have "scheduler_switch m tw s = Ret (Some m) (updp m (\<lambda>p. p\<lparr>p_state := RUNNING,
           p_timeslice := timeslice_of (p_weight (?ps ! m)) tw\<rparr>)
         (s\<lparr>cpu_proc := Some m, ts_esp0 := p_kstack (?ps ! m) + 4096, cr3 := V2P (p_pgdir (?ps ! m))\<rparr>))"
    (is "_ = Ret _ ?s'")
    using w vm m(2,3) ts(1) len by (simp add: scheduler_switch_def Let_def uvm_of_def switchuvm_def updp_def)
  then have "(case sched_inner ?ps k of (m, tw) \<Rightarrow> scheduler_switch m tw s) = Ret (Some m) ?s'" using f by simp
  moreover have "procs ?s' = run_proc ?ps m" using ts(2) by (simp add: run_proc_def)
  ultimately show ?thesis using m(1) by (intro exI [of _ m] exI [of _ ?s']) (simp add: updp_def)
qed

lemma scheduler_scan_spec:
  fixes s :: "'a ptab_scheme"
  assumes ok: "ptab_ok s" and hl: "LPtable \<in> set (held s)"
    and vm: "\<forall>i<64. runnable (procs s ! i) \<longrightarrow> p_kstack (procs s ! i) \<noteq> 0 \<and> p_pgdir (procs s ! i) \<noteq> 0"
  shows "(\<forall>i<64. k \<le> i \<longrightarrow> \<not> runnable (procs s ! i)) \<and>
       scheduler_scan k s = Ret None (s\<lparr>held := remove1 LPtable (held s)\<rparr>) \<or>
     (\<exists>m s'. scheduler_scan k s = Ret (Some m) s' \<and> min_runnable (procs s) m \<and> procs s' = run_proc (procs s) m \<and>
       cpu_proc s' = Some m \<and> held s' = held s \<and> nextpid s' = nextpid s \<and> cr3 s' = V2P (p_pgdir (procs s ! m)))"
proof -
  have len: "length (procs s) = 64" using ok by (simp add: ptab_ok_def procs_ok_def)
  show ?thesis
  proof (induction "64 - k" arbitrary: k)
    case 0
    then have "scheduler_scan k s = Ret None (s\<lparr>held := remove1 LPtable (held s)\<rparr>)"
      using hl len by (simp add: scheduler_scan.simps [of k s])
    moreover have "\<forall>i<64. k \<le> i \<longrightarrow> \<not> runnable (procs s ! i)" using 0 by simp
    ultimately show ?case by blast
  next
    case (Suc d)
    then have k: "k < 64" "d = 64 - Suc k" by simp_all
    show ?case
    proof (cases "runnable (procs s ! k)")
      case True
      then have "scheduler_scan k s = (case sched_inner (procs s) k of (m, tw) \<Rightarrow> scheduler_switch m tw s)"
        using k len by (simp add: scheduler_scan.simps [of k s])
      then show ?thesis using scheduler_switch_run [OF ok k(1) True vm] by auto
    next
      case False
      then have "scheduler_scan k s = scheduler_scan (Suc k) s" using k len by (simp add: scheduler_scan.simps [of k s])
      moreover have "k \<le> i \<longleftrightarrow> i = k \<or> Suc k \<le> i" for i by auto
      ultimately show ?thesis using Suc.hyps(1) [OF k(2)] False by auto
    qed
  qed
qed

section \<open>Every operation keeps the invariant\<close>

lemma post_scheduler_switch:
  assumes ok: "ptab_ok s" and m: "m < 64" "p_pid (procs s ! m) \<noteq> 0"
  shows "post ptab_ok (scheduler_switch m tw s)"
proof (cases "weight_of_nice (p_nice (procs s ! m))")
  case (Some w)
  have "ptab_ok (s\<lparr>cpu_proc := Some m\<rparr>)" using ok m by (simp add: ptab_ok_def)
  then have "ptab_ok (updp m (\<lambda>p. p\<lparr>p_weight := w\<rparr>) (s\<lparr>cpu_proc := Some m\<rparr>))"
    using Some by (intro ptab_ok_updp) (auto simp: slot_ok_def weight_of_nice_def split: if_splits)
  then have "post (\<lambda>s. ptab_ok s \<and> cpu_proc s = Some m)
      (switchuvm (uvm_of (Some m) (updp m (\<lambda>p. p\<lparr>p_weight := w\<rparr>) (s\<lparr>cpu_proc := Some m\<rparr>)))
         (updp m (\<lambda>p. p\<lparr>p_weight := w\<rparr>) (s\<lparr>cpu_proc := Some m\<rparr>)))"
    by (auto simp: switchuvm_def uvm_of_def split: option.split)
  moreover have "ptab_ok (updp m (\<lambda>p. p\<lparr>p_state := RUNNING, p_timeslice := v\<rparr>) s)"
    if "ptab_ok s \<and> cpu_proc s = Some m" for v and s :: "'a ptab_scheme"
    using that by (intro ptab_ok_updp) (auto simp: slot_ok_def ptab_ok_def)
  ultimately have "post (\<lambda>s. ptab_ok s \<and> cpu_proc s = Some m) (scheduler_switch m tw s)"
    unfolding scheduler_switch_def Let_def using Some by (auto intro!: post_kbind)
  then show ?thesis by (rule post_mono) simp
qed (simp add: scheduler_switch_def)

lemma post_scheduler_scan:
  assumes ok: "ptab_ok s"
  shows "post ptab_ok (scheduler_scan k s)"
proof (induction "64 - k" arbitrary: k)
  case 0
  then show ?case using ok by (simp add: scheduler_scan.simps [of k s] ptab_ok_def procs_ok_def post_kbind lock_release_def)
next
  case (Suc d)
  have len: "length (procs s) = 64" using ok by (simp add: ptab_ok_def procs_ok_def)
  obtain m tw where f: "sched_inner (procs s) k = (m, tw)" by (cases "sched_inner (procs s) k")
  show ?case
  proof (cases "runnable (procs s ! k)")
    case True
    have "foldl (sched_inner_step (procs s)) (k, 0) [0..<64] = (m, tw)" using f by (simp add: sched_inner_def len)
    from sched_inner_fold [OF this True] have "runnable (procs s ! m)" "m < 64" using Suc.hyps(2) by auto
    then have "p_pid (procs s ! m) \<noteq> 0" using ok by (auto simp: ptab_ok_def procs_ok_def slot_ok_def)
    then show ?thesis using f True Suc.hyps(2) len ok post_scheduler_switch [OF ok \<open>m < 64\<close>]
      by (simp add: scheduler_scan.simps [of k s])
  next
    case False
    then show ?thesis using Suc len ok by (simp add: scheduler_scan.simps [of k s])
  qed
qed

lemma post_scheduler: "ptab_ok s \<Longrightarrow> post ptab_ok (scheduler s)"
  unfolding scheduler_def by (intro post_ok post_scheduler_scan) simp_all

lemma post_scheduler_back: "ptab_ok s \<Longrightarrow> post ptab_ok (scheduler_back i s)"
  unfolding scheduler_back_def by (rule post_scheduler_scan) (simp add: switchkvm_def ptab_ok_def)

lemma post_resume: "ptab_ok s \<Longrightarrow> post ptab_ok (sleep_resume i l s)" "ptab_ok s \<Longrightarrow> post ptab_ok (yield_resume s)"
  unfolding sleep_resume_def yield_resume_def Let_def
  by (auto intro!: post_ok ptab_ok_updp simp: slot_ok_def)

text \<open>The steps of the threads and of the scheduler on the process table.\<close>

inductive pstep :: "'a ptab_scheme \<Rightarrow> 'a ptab_scheme \<Rightarrow> bool" where
  p_alloc: "allocproc s = Ret r t \<Longrightarrow> pstep s t"
| p_grow: "growproc n s = Ret r t \<Longrightarrow> pstep s t"
| p_kill: "kill pid s = Ret r t \<Longrightarrow> pstep s t"
| p_setnice: "setnice pid v s = Ret r t \<Longrightarrow> pstep s t"
| p_wakeup: "wakeup c s = Ret u t \<Longrightarrow> pstep s t"
| p_sleep: "sleep c lk s = (Sleep c' t :: (unit, 'a ptab_scheme) res) \<Longrightarrow> pstep s t"
| p_sleep_resume: "sleep_resume i l s = Ret u t \<Longrightarrow> pstep s t"
| p_yield: "yield s = (Sleep c t :: (unit, 'a ptab_scheme) res) \<Longrightarrow> pstep s t"
| p_yield_resume: "yield_resume s = Ret u t \<Longrightarrow> pstep s t"
| p_wait: "cpu_proc s = Some me \<Longrightarrow> p_state (procs s ! me) = RUNNING \<Longrightarrow> wait s = Ret r t \<Longrightarrow> pstep s t"
| p_wait_sleep: "cpu_proc s = Some me \<Longrightarrow> p_state (procs s ! me) = RUNNING \<Longrightarrow> wait s = Sleep c t \<Longrightarrow> pstep s t"
| p_rescan: "cpu_proc s = Some me \<Longrightarrow> p_state (procs s ! me) = RUNNING \<Longrightarrow>
     wait_scan me s = Ret r t \<or> wait_scan me s = Sleep c t \<Longrightarrow> pstep s t"
| p_schedule: "scheduler s = Ret r t \<Longrightarrow> pstep s t"
| p_back: "scheduler_back i s = Ret r t \<Longrightarrow> pstep s t"

inductive_cases pstepE: "pstep s t"

lemma pstep_ok: "pstep s t \<Longrightarrow> ptab_ok s \<Longrightarrow> ptab_ok t"
proof (induction rule: pstep.induct)
  case (p_alloc s r t) then show ?case using post_allocproc [of s] by simp
next
  case (p_grow n s r t) then show ?case using post_growproc [of s n] by simp
next
  case (p_kill pid s r t) then show ?case using post_kill [of s pid] by simp
next
  case (p_setnice pid v s r t) then show ?case using post_setnice [of s pid v] by simp
next
  case (p_wakeup c s u t) then show ?case using post_wakeup [of s c] by simp
next
  case (p_sleep c lk s c' t) then show ?case using post_sleep [of s c lk] by (metis (no_types) post.simps(2))
next
  case (p_sleep_resume i l s u t) then show ?case using post_resume(1) [of s i l] by simp
next
  case (p_yield s c t) then show ?case using post_yield [of s] by (metis post.simps(2))
next
  case (p_yield_resume s u t) then show ?case using post_resume(2) [of s] by simp
next
  case (p_wait s me r t) then show ?case using post_wait [of s] by simp
next
  case (p_wait_sleep s me c t) then show ?case using post_wait [of s] by simp
next
  case (p_rescan s me r t c) then show ?case using post_wait_scan [of s me] by auto
next
  case (p_schedule s r t) then show ?case using post_scheduler [of s] by simp
next
  case (p_back i s r t) then show ?case using post_scheduler_back [of s i] by simp
qed

section \<open>Waking up\<close>

lemma min_step_eq [simp]:
  "min_step acc p = (if \<not> runnable p then acc
     else Some (case acc of None \<Rightarrow> (p_vruntime_high p, p_vruntime_low p)
       | Some (h, l) \<Rightarrow> if vr p < unat h * 2 ^ 32 + unat l then (p_vruntime_high p, p_vruntime_low p) else (h, l)))"
proof (cases acc)
  case (Some a)
  obtain h l where a: "a = (h, l)" by (cases a)
  have "vr p < unat h * 2 ^ 32 + unat l \<longleftrightarrow> unat (p_vruntime_high p) < unat h \<or>
      unat (p_vruntime_high p) = unat h \<and> unat (p_vruntime_low p) < unat l"
    unfolding vr_def by (rule lex_less_iff) simp_all
  then show ?thesis using Some a by (auto simp: min_step_def word_less_nat_alt word_unat_eq_iff)
qed (simp add: min_step_def)

lemma min_fold:
  "(foldl min_step acc ps = None \<longleftrightarrow> acc = None \<and> (\<forall>p\<in>set ps. \<not> runnable p)) \<and>
   (\<forall>h l. foldl min_step acc ps = Some (h, l) \<longrightarrow>
      (acc = Some (h, l) \<or> (\<exists>p\<in>set ps. runnable p \<and> h = p_vruntime_high p \<and> l = p_vruntime_low p)) \<and>
      (\<forall>p\<in>set ps. runnable p \<longrightarrow> unat h * 2 ^ 32 + unat l \<le> vr p) \<and>
      (\<forall>h' l'. acc = Some (h', l') \<longrightarrow> unat h * 2 ^ 32 + unat l \<le> unat h' * 2 ^ 32 + unat l'))"
proof (induction ps arbitrary: acc)
  case (Cons p ps)
  note IH = Cons [of "min_step acc p"]
  show ?case
  proof (cases "runnable p")
    case True
    let ?v = "(p_vruntime_high p, p_vruntime_low p)"
    show ?thesis
    proof (cases acc)
      case None
      then show ?thesis using IH True by (force simp: vr_def)
    next
      case (Some a)
      then show ?thesis using IH True by (cases a) (force simp: vr_def)
    qed
  qed (use IH in auto)
qed simp

lemma min_vruntime_None: "min_vruntime ps = None \<longleftrightarrow> (\<forall>p\<in>set ps. \<not> runnable p)"
  using min_fold [of None ps] by (simp add: min_vruntime_def)

lemma min_vruntime_Some:
  assumes "min_vruntime ps = Some (h, l)" "length ps = 64"
  shows "\<exists>m. min_runnable ps m \<and> h = p_vruntime_high (ps ! m) \<and> l = p_vruntime_low (ps ! m)"
proof -
  obtain p where p: "p \<in> set ps" "runnable p" "h = p_vruntime_high p" "l = p_vruntime_low p"
    and le: "\<forall>q\<in>set ps. runnable q \<longrightarrow> unat h * 2 ^ 32 + unat l \<le> vr q"
    using min_fold [of None ps] assms(1) by (auto simp: min_vruntime_def)
  then obtain m where m: "m < 64" "ps ! m = p" using assms(2) by (auto simp: in_set_conv_nth)
  have "vr p = unat h * 2 ^ 32 + unat l" using p by (simp add: vr_def)
  then show ?thesis using m p le assms(2) by (intro exI [of _ m]) (auto simp: min_runnable_def)
qed

lemma wake_proc_eq:
  "wake_proc m p = p\<lparr>p_state := RUNNABLE,
     p_vruntime_high := (case m of Some (h, l) \<Rightarrow> h | None \<Rightarrow> 0),
     p_vruntime_low := (case m of Some (h, l) \<Rightarrow> l - word_of_int (cdiv 1024000 (p_weight p)) | None \<Rightarrow> 0)\<rparr>"
  by (simp add: wake_proc_def Let_def)

text \<open>A process table with one running and two runnable processes and one sleeping on the clock.\<close>

definition unused_proc :: proc where
  "unused_proc = \<lparr>p_sz = 0, p_pgdir = 0, p_kstack = 0, p_state = UNUSED, p_pid = 0, p_parent = None, p_tf = 0,
     p_context = 0, p_chan = ChNull, p_killed = False, p_ofile = replicate 16 None, p_cwd = None, p_name = [],
     p_nice = 0, p_weight = 0, p_vruntime_high = 0, p_vruntime_low = 0, p_aruntime = 0, p_aruntime_prev = 0,
     p_timeslice = 0\<rparr>"

definition proc_ex :: "int \<Rightarrow> procstate \<Rightarrow> u32 \<Rightarrow> proc" where
  "proc_ex pid st v = unused_proc\<lparr>p_sz := 4096, p_pgdir := 0x80400000, p_kstack := 0x80300000, p_state := st,
     p_pid := pid, p_parent := Some 0, p_nice := 20, p_weight := 1024, p_vruntime_low := v,
     p_chan := (if st = SLEEPING then ChTicks else ChNull)\<rparr>"

definition procs_ex :: "proc list" where
  "procs_ex = [proc_ex 1 RUNNING 5, proc_ex 2 RUNNABLE 700, proc_ex 3 RUNNABLE 300, proc_ex 4 SLEEPING 0]
     @ replicate 60 unused_proc"

definition ptab_ex :: ptab where
  "ptab_ex = \<lparr>held = [], mem = mem vm_ex, use_lock = True,
     freelist = 0x80200000, freemems = 2, kend = 0x80100000, kpgdir = 0x80500000, cr3 = 0, ts_esp0 = 0,
     kdata = 0x80108000, con_out = [], cons_locking = True, cga_pos = 0, crt = (\<lambda>_. 0),
     procs = procs_ex, nextpid = 5, initproc = Some 0, cpu_proc = Some 0, ticks = 0,
     forkret_addr = 0x80103000, trapret_addr = 0x80105000\<rparr>"

lemma procs_ex_nth: "i < 64 \<Longrightarrow> procs_ex ! i = (if i = 0 then proc_ex 1 RUNNING 5 else if i = 1 then proc_ex 2 RUNNABLE 700
    else if i = 2 then proc_ex 3 RUNNABLE 300 else if i = 3 then proc_ex 4 SLEEPING 0 else unused_proc)"
  by (simp add: procs_ex_def nth_append nth_Cons')

lemma proc_ex_simps [simp]:
  "p_pid (proc_ex pid st v) = pid" "p_state (proc_ex pid st v) = st" "p_nice (proc_ex pid st v) = 20"
  "p_weight (proc_ex pid st v) = 1024" "p_kstack (proc_ex pid st v) = 0x80300000" "p_pgdir (proc_ex pid st v) = 0x80400000"
  "p_vruntime_high (proc_ex pid st v) = 0" "p_vruntime_low (proc_ex pid st v) = v" "p_parent (proc_ex pid st v) = Some 0"
  "p_sz (proc_ex pid st v) = 4096" "p_killed (proc_ex pid st v) = False"
  "p_pid unused_proc = 0" "p_state unused_proc = UNUSED" "p_parent unused_proc = None"
  by (simp_all add: proc_ex_def unused_proc_def)

lemma ptab_ok_ex: "ptab_ok ptab_ex"
proof -
  have "slot_ok 5 (procs_ex ! i)" if "i < 64" for i
    using that by (simp add: procs_ex_nth slot_ok_def weights_def)
  moreover have "\<forall>i<64. \<forall>j<64. p_pid (procs_ex ! i) = p_pid (procs_ex ! j) \<and> p_pid (procs_ex ! i) \<noteq> 0 \<longrightarrow> i = j"
    by (auto simp: procs_ex_nth split: if_splits)
  moreover have "length procs_ex = 64" by (simp add: procs_ex_def)
  ultimately have "procs_ok procs_ex 5" unfolding procs_ok_def by simp
  then show ?thesis by (simp add: ptab_ok_def ptab_ex_def procs_ex_nth)
qed

section \<open>Properties\<close>



text \<open>
  C4. The scheduler runs a process with the least virtual runtime: if no process is runnable the pass ends
  with the lock released and nothing changed; otherwise it switches, still holding the lock, to the address space of a runnable process
  whose (high, low) virtual runtime is least among all runnable ones, and only that process changes: it becomes \<^verbatim>\<open>RUNNING\<close> with a
  time slice of 10000 when it is the only runnable process and of 0 otherwise, since the quotient of weight and
  total weight is an integer division.
\<close>

theorem scheduler_picks_min:
  fixes s :: "'a ptab_scheme"
  assumes "ptab_ok s" "LPtable \<notin> set (held s)"
    and "\<forall>i<64. runnable (procs s ! i) \<longrightarrow> p_kstack (procs s ! i) \<noteq> 0 \<and> p_pgdir (procs s ! i) \<noteq> 0"
  shows "((\<forall>i<64. \<not> runnable (procs s ! i)) \<longrightarrow> scheduler s = Ret None s) \<and>
    ((\<exists>i<64. runnable (procs s ! i)) \<longrightarrow>
      (\<exists>m s'. scheduler s = Ret (Some m) s' \<and> min_runnable (procs s) m \<and>
         procs s' = (procs s)[m := (procs s ! m)\<lparr>p_state := RUNNING,
            p_timeslice := (if \<exists>j<64. j \<noteq> m \<and> runnable (procs s ! j) then 0 else 10000)\<rparr>] \<and>
         cpu_proc s' = Some m \<and> held s' = LPtable # held s \<and> cr3 s' = V2P (p_pgdir (procs s ! m))))"
proof -
  let ?s = "s\<lparr>held := LPtable # held s\<rparr>"
  have run: "scheduler s = scheduler_scan 0 ?s" using assms(2) by (simp add: scheduler_def)
  have ok: "ptab_ok ?s" "LPtable \<in> set (held ?s)" using assms(1) by simp_all
  have vm: "\<forall>i<64. runnable (procs ?s ! i) \<longrightarrow> p_kstack (procs ?s ! i) \<noteq> 0 \<and> p_pgdir (procs ?s ! i) \<noteq> 0"
    using assms(3) by simp
  from scheduler_scan_spec [OF ok vm, of 0] show ?thesis
    unfolding run run_proc_def [symmetric]
  proof (elim disjE exE conjE)
    fix m s' assume "scheduler_scan 0 ?s = Ret (Some m) s'" and m: "min_runnable (procs ?s) m"
      and "procs s' = run_proc (procs ?s) m" "cpu_proc s' = Some m" "held s' = held ?s" "cr3 s' = V2P (p_pgdir (procs ?s ! m))"
    moreover have "\<exists>i<64. runnable (procs s ! i)" using m by (auto simp: min_runnable_def)
    ultimately show "((\<forall>i<64. \<not> runnable (procs s ! i)) \<longrightarrow> scheduler_scan 0 ?s = Ret None s) \<and>
      ((\<exists>i<64. runnable (procs s ! i)) \<longrightarrow> (\<exists>m s'. scheduler_scan 0 ?s = Ret (Some m) s' \<and> min_runnable (procs s) m \<and>
         procs s' = run_proc (procs s) m \<and> cpu_proc s' = Some m \<and> held s' = LPtable # held s \<and>
         cr3 s' = V2P (p_pgdir (procs s ! m))))" by simp
  qed simp
qed

theorem scheduler_picks_min_witness:
  "\<exists>s'. scheduler ptab_ex = Ret (Some 2) s' \<and> p_timeslice (procs s' ! 2) = 0"
proof -
  have ex: "procs ptab_ex = procs_ex" "held ptab_ex = []" by (simp_all add: ptab_ex_def)
  have vm: "\<forall>i<64. runnable (procs ptab_ex ! i) \<longrightarrow> p_kstack (procs ptab_ex ! i) \<noteq> 0 \<and> p_pgdir (procs ptab_ex ! i) \<noteq> 0"
    by (simp add: ex procs_ex_nth)
  have some: "\<exists>i<64. runnable (procs ptab_ex ! i)" by (rule exI [of _ 1]) (simp add: ex procs_ex_nth)
  obtain m s' where r: "scheduler ptab_ex = Ret (Some m) s'" "min_runnable procs_ex m"
      "procs s' = procs_ex[m := (procs_ex ! m)\<lparr>p_state := RUNNING,
         p_timeslice := (if \<exists>j<64. j \<noteq> m \<and> runnable (procs_ex ! j) then 0 else 10000)\<rparr>]"
    using scheduler_picks_min [OF ptab_ok_ex _ vm] some ex by auto
  have "vr (proc_ex 3 RUNNABLE 300) < vr (proc_ex 2 RUNNABLE 700)" by (simp add: vr_def)
  then have "m = 2" using r(2) unfolding min_runnable_def
    by (auto simp: procs_ex_nth split: if_splits dest!: spec [of _ 2])
  moreover have "\<exists>j<64. j \<noteq> 2 \<and> runnable (procs_ex ! j)" by (rule exI [of _ 1]) (simp add: procs_ex_nth)
  moreover have "length procs_ex = 64" by (simp add: procs_ex_def)
  ultimately show ?thesis using r by auto
qed

text \<open>
  C34. \<^verbatim>\<open>wakeup\<close> makes runnable exactly the processes that sleep on the channel and changes no other process. A woken
  process gets the least virtual runtime of the processes that were runnable, lowered by \<^verbatim>\<open>1024000 / weight\<close>; because the
  field is unsigned, the low part wraps around to a huge value when that difference is negative, and the
  correction below it in the code never runs. With no runnable process both parts become 0.
\<close>

theorem wakeup_exact:
  fixes s :: "'a ptab_scheme"
  assumes "ptab_ok s" "LPtable \<notin> set (held s)"
  shows "\<exists>s'. wakeup c s = Ret () s' \<and> held s' = held s \<and> length (procs s') = 64 \<and>
    (\<forall>i<64. \<not> sleeps_on c (procs s ! i) \<longrightarrow> procs s' ! i = procs s ! i) \<and>
    (\<forall>i<64. sleeps_on c (procs s ! i) \<longrightarrow>
       (\<exists>h l. procs s' ! i = (procs s ! i)\<lparr>p_state := RUNNABLE, p_vruntime_high := h, p_vruntime_low := l\<rparr> \<and>
         ((\<forall>j<64. \<not> runnable (procs s ! j)) \<longrightarrow> h = 0 \<and> l = 0) \<and>
         ((\<exists>j<64. runnable (procs s ! j)) \<longrightarrow>
            (\<exists>m. min_runnable (procs s) m \<and> h = p_vruntime_high (procs s ! m) \<and>
               (let low = unat (p_vruntime_low (procs s ! m));
                    d = nat (1024000 div p_weight (procs s ! i))
                in unat l = (if d \<le> low then low - d else 2 ^ 32 + low - d))))))"
proof -
  let ?ps = "procs s" and ?m = "min_vruntime (procs s)"
  let ?f = "\<lambda>p. if sleeps_on c p then wake_proc ?m p else p"
  have len: "length ?ps = 64" using assms(1) by (simp add: ptab_ok_def procs_ok_def)
  have wt: "15 \<le> p_weight (?ps ! i) \<and> p_weight (?ps ! i) \<le> 88761" if "i < 64" "sleeps_on c (?ps ! i)" for i
    using assms(1) that slot_ok_weight by (auto simp: ptab_ok_def procs_ok_def sleeps_on_def)
  then have "\<not> (\<exists>p\<in>set ?ps. sleeps_on c p \<and> p_weight p = 0)" using len by (force simp: in_set_conv_nth)
  then have run: "wakeup c s = Ret () (s\<lparr>procs := map ?f ?ps\<rparr>)"
    using assms(2) by (auto simp: wakeup_def wakeup1_def Let_def)
  have "\<exists>h l. ?f (?ps ! i) = (?ps ! i)\<lparr>p_state := RUNNABLE, p_vruntime_high := h, p_vruntime_low := l\<rparr> \<and>
         ((\<forall>j<64. \<not> runnable (?ps ! j)) \<longrightarrow> h = 0 \<and> l = 0) \<and>
         ((\<exists>j<64. runnable (?ps ! j)) \<longrightarrow>
            (\<exists>m. min_runnable ?ps m \<and> h = p_vruntime_high (?ps ! m) \<and>
               (let low = unat (p_vruntime_low (?ps ! m)); d = nat (1024000 div p_weight (?ps ! i))
                in unat l = (if d \<le> low then low - d else 2 ^ 32 + low - d))))"
    if i: "i < 64" "sleeps_on c (?ps ! i)" for i
  proof (cases ?m)
    case None
    then have "\<forall>j<64. \<not> runnable (?ps ! j)" using min_vruntime_None [of ?ps] len by (auto simp: all_set_conv_all_nth)
    then show ?thesis using None i by (intro exI [of _ 0]) (auto simp: wake_proc_eq)
  next
    case (Some a)
    obtain h l where a: "a = (h, l)" by (cases a)
    then obtain m where m: "min_runnable ?ps m" "h = p_vruntime_high (?ps ! m)" "l = p_vruntime_low (?ps ! m)"
      using min_vruntime_Some [of ?ps h l] Some len by auto
    let ?d = "1024000 div p_weight (?ps ! i)"
    have d: "0 \<le> ?d" "?d \<le> 1024000" using wt [OF i] zdiv_mono2 [of 1024000 1] by (simp_all add: pos_imp_zdiv_nonneg_iff)
    then have u: "unat (word_of_int ?d :: u32) = nat ?d" by (simp add: unsigned_of_int take_bit_int_eq_self)
    have c: "cdiv 1024000 (p_weight (?ps ! i)) = ?d" using wt [OF i] by (simp add: cdiv_def)
    have "unat (l - word_of_int ?d) = (if nat ?d \<le> unat l then unat l - nat ?d else 2 ^ 32 + unat l - nat ?d)"
      unfolding unat_sub_if' u add.commute [of "2 ^ 32" "unat l"] by simp
    moreover have "\<exists>j<64. runnable (?ps ! j)" using m(1) by (auto simp: min_runnable_def)
    ultimately show ?thesis using Some a m i c
      by (intro exI [of _ h] exI [of _ "l - word_of_int ?d"]) (auto simp: wake_proc_eq Let_def)
  qed
  then show ?thesis using run len by (intro exI [of _ "s\<lparr>procs := map ?f ?ps\<rparr>"]) auto
qed

theorem wakeup_exact_witness:
  "\<exists>s'. wakeup ChTicks ptab_ex = Ret () s' \<and> p_state (procs s' ! 3) = RUNNABLE \<and>
     unat (p_vruntime_low (procs s' ! 3)) = 2 ^ 32 + 300 - 1000"
proof -
  have ex: "procs ptab_ex = procs_ex" "held ptab_ex = []" by (simp_all add: ptab_ex_def)
  have sl: "sleeps_on ChTicks (procs_ex ! 3)" by (simp add: procs_ex_nth sleeps_on_def) (simp add: proc_ex_def)
  have some: "\<exists>i<64. runnable (procs_ex ! i)" by (rule exI [of _ 1]) (simp add: procs_ex_nth)
  have min: "p_vruntime_low (procs_ex ! m) = 300" if "min_runnable procs_ex m" for m
  proof -
    have "vr (proc_ex 3 RUNNABLE 300) < vr (proc_ex 2 RUNNABLE 700)" by (simp add: vr_def)
    then have "m = 2" using that unfolding min_runnable_def
      by (auto simp: procs_ex_nth split: if_splits dest!: spec [of _ 2])
    then show ?thesis by (simp add: procs_ex_nth)
  qed
  obtain s' where r: "wakeup ChTicks ptab_ex = Ret () s'" and
    woken: "\<forall>i<64. sleeps_on ChTicks (procs_ex ! i) \<longrightarrow>
       (\<exists>h l. procs s' ! i = (procs_ex ! i)\<lparr>p_state := RUNNABLE, p_vruntime_high := h, p_vruntime_low := l\<rparr> \<and>
         ((\<forall>j<64. \<not> runnable (procs_ex ! j)) \<longrightarrow> h = 0 \<and> l = 0) \<and>
         ((\<exists>j<64. runnable (procs_ex ! j)) \<longrightarrow>
            (\<exists>m. min_runnable procs_ex m \<and> h = p_vruntime_high (procs_ex ! m) \<and>
               (let low = unat (p_vruntime_low (procs_ex ! m));
                    d = nat (1024000 div p_weight (procs_ex ! i))
                in unat l = (if d \<le> low then low - d else 2 ^ 32 + low - d)))))"
    using wakeup_exact [OF ptab_ok_ex, of ChTicks] unfolding ex by auto
  have three: "(3 :: nat) < 64" by simp
  from woken [rule_format, OF three sl] some obtain h l m where
    "procs s' ! 3 = (procs_ex ! 3)\<lparr>p_state := RUNNABLE, p_vruntime_high := h, p_vruntime_low := l\<rparr>" "min_runnable procs_ex m"
    "let low = unat (p_vruntime_low (procs_ex ! m)); d = nat (1024000 div p_weight (procs_ex ! 3))
       in unat l = (if d \<le> low then low - d else 2 ^ 32 + low - d)" by blast
  moreover have "p_weight (procs_ex ! 3) = 1024" by (simp add: procs_ex_nth)
  ultimately show ?thesis using r min [of m] by (simp add: Let_def)
qed

lemma find_pid:
  assumes "ptab_ok s" "i < 64" "p_pid (procs s ! i) = pid" "0 < pid"
  shows "find_index (\<lambda>p. p_pid p = pid) (procs s) = Some i"
proof -
  have ok: "procs_ok (procs s) (nextpid s)" and len: "length (procs s) = 64"
    using assms(1) by (auto simp: ptab_ok_def procs_ok_def)
  have un: "j = i" if "j < 64" "p_pid (procs s ! j) = pid" for j
    using ok assms that by (auto simp: procs_ok_def)
  then show ?thesis unfolding find_index_Some using assms len by (metis less_irrefl order_less_trans)
qed

text \<open>
  \<^verbatim>\<open>setnice\<close> and \<^verbatim>\<open>getnice\<close> fit together: for a value from 0 to 39 and a pid in the table \<^verbatim>\<open>setnice\<close> returns 0, a following \<^verbatim>\<open>getnice\<close>
  returns the value, the weight is the one of the table and no other process changes; for a value out of range, a pid that is
  not positive or one that is not in the table both return -1 without a change.
\<close>

lemma nice_roundtrip:
  fixes s :: "'a ptab_scheme"
  assumes "ptab_ok s" "LPtable \<notin> set (held s)"
  shows "(\<forall>i v. i < 64 \<and> p_pid (procs s ! i) = pid \<and> 0 < pid \<and> 0 \<le> v \<and> v \<le> 39 \<longrightarrow>
      (\<exists>s'. setnice pid v s = Ret 0 s' \<and> getnice pid s' = Ret v s' \<and>
        procs s' = (procs s)[i := (procs s ! i)\<lparr>p_nice := v, p_weight := weights ! nat v\<rparr>])) \<and>
    (pid \<le> 0 \<or> (\<forall>p\<in>set (procs s). p_pid p \<noteq> pid) \<longrightarrow> (\<forall>v. setnice pid v s = Ret (-1) s) \<and> getnice pid s = Ret (-1) s) \<and>
    (\<forall>v. v < 0 \<or> v > 39 \<longrightarrow> setnice pid v s = Ret (-1) s)"
proof (intro conjI allI impI)
  fix i :: nat and v :: int assume a: "i < 64 \<and> p_pid (procs s ! i) = pid \<and> 0 < pid \<and> 0 \<le> v \<and> v \<le> 39"
  let ?f = "\<lambda>p. p\<lparr>p_nice := v, p_weight := weights ! nat v\<rparr>"
  have len: "length (procs s) = 64" using assms(1) by (auto simp: ptab_ok_def procs_ok_def)
  have f: "find_index (\<lambda>p. p_pid p = pid) (procs s) = Some i" using find_pid assms(1) a by blast
  have "p_pid (?f (procs s ! i)) = pid" using a by simp
  then have "find_index (\<lambda>p. p_pid p = pid) ((procs s)[i := ?f (procs s ! i)]) = Some i"
    using f a len unfolding find_index_Some by simp
  then show "\<exists>s'. setnice pid v s = Ret 0 s' \<and> getnice pid s' = Ret v s' \<and>
        procs s' = (procs s)[i := (procs s ! i)\<lparr>p_nice := v, p_weight := weights ! nat v\<rparr>]"
    using a f assms(2) len by (intro exI [of _ "updp i ?f s"]) (simp add: setnice_def getnice_def updp_def)
next
  assume "pid \<le> 0 \<or> (\<forall>p\<in>set (procs s). p_pid p \<noteq> pid)"
  then have no: "pid \<le> 0 \<or> find_index (\<lambda>p. p_pid p = pid) (procs s) = None" by (simp only: find_index_None)
  then show "getnice pid s = Ret (-1) s" using assms(2) by (auto simp: getnice_def simp del: find_index_None)
  show "setnice pid v s = Ret (-1) s" for v using no assms(2) by (auto simp: setnice_def simp del: find_index_None)
qed (auto simp: setnice_def)

section \<open>Killing\<close>

lemma allocproc_keeps_killed:
  assumes "length (procs s) = 64" "i < 64" "p_killed (procs s ! i)"
  shows "post (\<lambda>t. p_killed (procs t ! i)) (allocproc s)"
proof -
  let ?P = "\<lambda>t. length (procs t) = 64 \<and> p_killed (procs t ! i)"
  have keep: "post ?P r" if "keeps t r" "?P t" for t r
    by (rule post_mono [OF keeps_pview [OF that(1)]]) (use that(2) in \<open>simp add: pview_def\<close>)
  have slot: "?P (alloc_slot j t)" if "?P t" for j t
    using that assms(2) by (auto simp: alloc_slot_def updp_def nth_upd)
  have stack: "post ?P (alloc_kstack j t)" if "?P t" for j t
    unfolding alloc_kstack_def Let_def
    by (rule post_kbind [OF keep [OF keeps_kalloc that]]) (use assms(2) in \<open>auto simp: updp_def nth_upd\<close>)
  have lock: "post ?P (lock_acquire LPtable t)" "post ?P (lock_release LPtable t)" if "?P t" for t
    using that by (auto simp: lock_acquire_def lock_release_def)
  have "post ?P (allocproc s)"
    unfolding allocproc_def using assms
    by (auto intro!: post_kbind lock slot stack split: option.split)
  then show ?thesis by (rule post_mono) simp
qed



end
