(* ===== verification/Sleeplock.thy ===== *)
theory Sleeplock
  imports Sched
begin

text \<open>
  Sleep locks (\<^verbatim>\<open>sleeplock.c\<close>). A sleep lock is a field of a buffer or of an inode; the state keeps them in one map,
  indexed by the object that contains the lock. \<^verbatim>\<open>acquiresleep\<close> ends in \<open>Sleep\<close> when the lock is taken, and
  \<open>acquiresleep_resume\<close> is what the thread does when it runs again: it tests the lock once more.
\<close>

section \<open>Operations\<close>

record sleeplock =
  sl_locked :: bool
  sl_pid :: int

datatype slid = SlBuf nat | SlInode nat

record slst = ptab +
  slocks :: "slid \<Rightarrow> sleeplock"

fun sl_spin :: "slid \<Rightarrow> lock" where
  "sl_spin (SlBuf i) = LSleepBuf i"
| "sl_spin (SlInode i) = LSleepInode i"

fun sl_chan :: "slid \<Rightarrow> chan" where
  "sl_chan (SlBuf i) = ChBufLock i"
| "sl_chan (SlInode i) = ChInodeLock i"

definition initsleeplock :: "slid \<Rightarrow> 'a slst_scheme \<Rightarrow> 'a slst_scheme" where
  "initsleeplock k s = s\<lparr>held := removeAll (sl_spin k) (held s),
     slocks := (slocks s)(k := \<lparr>sl_locked = False, sl_pid = 0\<rparr>)\<rparr>"

definition acquiresleep_loop :: "slid \<Rightarrow> 'a slst_scheme \<Rightarrow> (unit, 'a slst_scheme) res" where
  "acquiresleep_loop k s =
     (if sl_locked (slocks s k) then sleep (sl_chan k) (Some (sl_spin k)) s
      else case cpu_proc s of
             None \<Rightarrow> Fault ''acquiresleep: null process''
           | Some i \<Rightarrow> lock_release (sl_spin k)
               (s\<lparr>slocks := (slocks s)(k := \<lparr>sl_locked = True, sl_pid = p_pid (procs s ! i)\<rparr>)\<rparr>))"

definition acquiresleep :: "slid \<Rightarrow> 'a slst_scheme \<Rightarrow> (unit, 'a slst_scheme) res" where
  "acquiresleep k s = kbind (lock_acquire (sl_spin k) s) (\<lambda>_ s. acquiresleep_loop k s)"

definition acquiresleep_resume :: "nat \<Rightarrow> slid \<Rightarrow> 'a slst_scheme \<Rightarrow> (unit, 'a slst_scheme) res" where
  "acquiresleep_resume me k s = kbind (sleep_resume me (sl_spin k) s) (\<lambda>_ s. acquiresleep_loop k s)"

definition releasesleep :: "slid \<Rightarrow> 'a slst_scheme \<Rightarrow> (unit, 'a slst_scheme) res" where
  "releasesleep k s =
     kbind (lock_acquire (sl_spin k) s) (\<lambda>_ s.
     kbind (wakeup (sl_chan k) (s\<lparr>slocks := (slocks s)(k := \<lparr>sl_locked = False, sl_pid = 0\<rparr>)\<rparr>)) (\<lambda>_ s.
       lock_release (sl_spin k) s))"

definition holdingsleep :: "slid \<Rightarrow> 'a slst_scheme \<Rightarrow> (bool, 'a slst_scheme) res" where
  "holdingsleep k s =
     kbind (lock_acquire (sl_spin k) s) (\<lambda>_ s.
       case cpu_proc s of
         None \<Rightarrow> if sl_locked (slocks s k) then Fault ''holdingsleep: null process''
                 else kbind (lock_release (sl_spin k) s) (\<lambda>_ s. Ret False s)
       | Some i \<Rightarrow>
           let r = (sl_locked (slocks s k) \<and> sl_pid (slocks s k) = p_pid (procs s ! i))
           in kbind (lock_release (sl_spin k) s) (\<lambda>_ s. Ret r s))"

section \<open>A sleep lock is handed on\<close>

lemma sl_spin_neq [simp]: "sl_spin k \<noteq> LPtable" "sl_spin k \<noteq> LBcache" "sl_spin k \<noteq> LIcache"
  "sl_spin k \<noteq> LIde" "sl_spin k \<noteq> LLog" "sl_spin k \<noteq> LFtable"
  by (cases k; simp)+

lemmas sl_spin_neq' [simp] = sl_spin_neq [symmetric]

lemma ptab_ok_slocks [simp]: "ptab_ok (s\<lparr>slocks := x\<rparr>) = ptab_ok s"
  by (simp add: ptab_ok_def)

lemma sl_chan_neq [simp]: "sl_chan k \<noteq> ChNull" "sl_chan k \<noteq> ChTicks" "sl_chan k \<noteq> ChLog" "sl_chan k \<noteq> ChProc i"
  by (cases k; simp)+

text \<open>The process table after a \<^verbatim>\<open>wakeup\<close> that does not divide by zero.\<close>

definition woken :: "chan \<Rightarrow> proc list \<Rightarrow> proc list" where
  "woken c ps = map (\<lambda>p. if sleeps_on c p then wake_proc (min_vruntime ps) p else p) ps"

lemma length_woken [simp]: "length (woken c ps) = length ps"
  by (simp add: woken_def)

lemma nth_woken: "i < length ps \<Longrightarrow> woken c ps ! i = (if sleeps_on c (ps ! i) then wake_proc (min_vruntime ps) (ps ! i) else ps ! i)"
  by (simp add: woken_def)

lemma ptab_ok_weight:
  assumes "ptab_ok s" "p \<in> set (procs s)" "p_state p \<noteq> UNUSED"
  shows "p_weight p \<noteq> 0"
proof -
  obtain i where "i < 64" "p = procs s ! i"
    using assms by (auto simp: ptab_ok_def procs_ok_def in_set_conv_nth)
  then have "slot_ok (nextpid s) p" using assms(1) by (auto simp: ptab_ok_def procs_ok_def)
  then show ?thesis using slot_ok_weight assms(3) by fastforce
qed

lemma wakeup_Ret:
  assumes "ptab_ok s" "LPtable \<notin> set (held s)"
  shows "wakeup c s = Ret () (s\<lparr>procs := woken c (procs s)\<rparr>)"
proof -
  have "\<not> (\<exists>p\<in>set (procs s). sleeps_on c p \<and> p_weight p = 0)"
    using ptab_ok_weight [OF assms(1)] by (auto simp: sleeps_on_def)
  then show ?thesis using assms(2) by (simp add: wakeup_def wakeup1_def woken_def Let_def)
qed

lemma ptab_ok_woken: "ptab_ok s \<Longrightarrow> ptab_ok (s\<lparr>procs := woken c (procs s)\<rparr>)"
  using post_wakeup [of "s\<lparr>held := []\<rparr>" c] wakeup_Ret [of "s\<lparr>held := []\<rparr>" c]
  by (simp add: ptab_ok_def)

lemma woken_pid [simp]: "i < length ps \<Longrightarrow> p_pid (woken c ps ! i) = p_pid (ps ! i)"
  by (simp add: nth_woken)

lemma woken_quiet: "\<forall>p\<in>set ps. \<not> sleeps_on c p \<Longrightarrow> woken c ps = ps"
  by (simp add: woken_def map_idI)

lemma acquiresleep_free:
  assumes "\<not> sl_locked (slocks s k)" "cpu_proc s = Some i" "sl_spin k \<notin> set (held s)"
  shows "acquiresleep k s = Ret () (s\<lparr>slocks := (slocks s)(k := \<lparr>sl_locked = True, sl_pid = p_pid (procs s ! i)\<rparr>)\<rparr>)"
  using assms by (simp add: acquiresleep_def acquiresleep_loop_def)

lemma releasesleep_Ret:
  assumes "ptab_ok s" "LPtable \<notin> set (held s)" "sl_spin k \<notin> set (held s)"
  shows "releasesleep k s = Ret () (s\<lparr>slocks := (slocks s)(k := \<lparr>sl_locked = False, sl_pid = 0\<rparr>),
     procs := woken (sl_chan k) (procs s)\<rparr>)"
  using assms by (simp add: releasesleep_def wakeup_Ret)

lemma holdingsleep_Ret:
  assumes "cpu_proc s = Some i" "sl_spin k \<notin> set (held s)"
  shows "holdingsleep k s = Ret (sl_locked (slocks s k) \<and> sl_pid (slocks s k) = p_pid (procs s ! i)) s"
  using assms by (simp add: holdingsleep_def Let_def)



text \<open>Process 1 of the example waits for the lock of buffer 0, which process 0 holds.\<close>

definition slst_ex :: "proc list \<Rightarrow> nat \<Rightarrow> slst" where
  "slst_ex ps i = ptab.extend (ptab_ex\<lparr>procs := ps, cpu_proc := Some i\<rparr>)
     (slst.fields (\<lambda>k. \<lparr>sl_locked = (k = SlBuf 0), sl_pid = (if k = SlBuf 0 then 1 else 0)\<rparr>))"

lemma slst_ex_simps [simp]:
  "procs (slst_ex ps i) = ps" "cpu_proc (slst_ex ps i) = Some i" "held (slst_ex ps i) = []" "nextpid (slst_ex ps i) = 5"
  "sl_locked (slocks (slst_ex ps i) (SlBuf 0))"
  by (simp_all add: slst_ex_def ptab.defs slst.defs ptab_ex_def)


end
