(* ===== verification/Ide.thy ===== *)
theory Ide
  imports Sleeplock
begin

text \<open>
  The IDE driver (\<^verbatim>\<open>ide.c\<close>, \<^verbatim>\<open>buf.h\<close>): the queue of buffers that wait for the disk, threaded through \<^verbatim>\<open>qnext\<close>, the start of a request,
  the interrupt handler and \<^verbatim>\<open>iderw\<close>. Buffers are named by their index in the buffer cache. The disk is a map from drive and
  sector to 512 bytes, with the history of the sectors it has written, newest first.

  \<open>drive_done\<close> is what the drive does between a command and its interrupt. In \<^verbatim>\<open>iderw\<close> the call \<^verbatim>\<open>sleep(b, &idelock)\<close> is modelled by what
  happens while the caller is off the CPU, as far as the driver is concerned: \<^verbatim>\<open>idelock\<close> is given up, the drive finishes the active
  request and its interrupt is handled, and \<^verbatim>\<open>idelock\<close> is taken again. \<^verbatim>\<open>sleep\<close>'s own checks (a current process, no other spin lock held) are kept.
\<close>

section \<open>State\<close>

record buf =
  b_valid :: bool               \<comment> \<open>\<^verbatim>\<open>flags & B_VALID\<close>\<close>
  b_dirty :: bool               \<comment> \<open>\<^verbatim>\<open>flags & B_DIRTY\<close>\<close>
  b_dev :: u32
  b_blockno :: u32
  b_refcnt :: u32
  b_prev :: nat
  b_next :: nat
  b_qnext :: "nat option"
  b_data :: "u8 list"

text \<open>The task file of the controller: the drive bit, the sector number put together from its four ports, and the data of a write.\<close>

record idecmd =
  ic_drive :: u32
  ic_lba :: u32
  ic_write :: "u8 list option"

type_synonym disk = "u32 \<Rightarrow> u32 \<Rightarrow> u8 list"

record idest = slst +
  bufs :: "buf list"            \<comment> \<open>\<^verbatim>\<open>bcache.buf\<close> and, last, \<^verbatim>\<open>bcache.head\<close>\<close>
  idequeue :: "nat option"
  havedisk1 :: bool
  ide_cmd :: "idecmd option"    \<comment> \<open>the command the drive works on\<close>
  ide_errs :: "bool list"       \<comment> \<open>error bits that the next reads will report; none at the end\<close>
  disk :: disk
  dwrites :: "(u32 \<times> u32 \<times> u8 list) list"
  fssize :: u32                 \<comment> \<open>the constant \<^verbatim>\<open>FSSIZE\<close> of \<^verbatim>\<open>param.h\<close>, which the two trees set differently\<close>

definition updb :: "nat \<Rightarrow> (buf \<Rightarrow> buf) \<Rightarrow> 'a idest_scheme \<Rightarrow> 'a idest_scheme" where
  "updb b f s = s\<lparr>bufs := (bufs s)[b := f (bufs s ! b)]\<rparr>"

section \<open>Operations\<close>

text \<open>The sector number as the drive reads it from ports \<open>0x1f3\<close> to \<open>0x1f6\<close>.\<close>

definition ide_lba :: "u32 \<Rightarrow> u32" where
  "ide_lba sector = (sector AND 0xff) OR push_bit 8 (drop_bit 8 sector AND 0xff)
     OR push_bit 16 (drop_bit 16 sector AND 0xff) OR push_bit 24 (drop_bit 24 sector AND 0x0f)"

text \<open>\<^verbatim>\<open>BSIZE\<close> is \<^verbatim>\<open>SECTOR_SIZE\<close>, so a block is one sector.\<close>

definition idestart :: "nat option \<Rightarrow> 'a idest_scheme \<Rightarrow> (unit, 'a idest_scheme) res" where
  "idestart b s =
     (case b of
        None \<Rightarrow> Panic ''idestart''
      | Some i \<Rightarrow>
          if b_blockno (bufs s ! i) \<ge> fssize s then Panic ''incorrect blockno''
          else Ret () (s\<lparr>ide_cmd := Some
                 \<lparr>ic_drive = b_dev (bufs s ! i) AND 1, ic_lba = ide_lba (b_blockno (bufs s ! i)),
                  ic_write = (if b_dirty (bufs s ! i) then Some (b_data (bufs s ! i)) else None)\<rparr>\<rparr>))"

definition drive_done :: "'a idest_scheme \<Rightarrow> 'a idest_scheme" where
  "drive_done s =
     (case ide_cmd s of
        None \<Rightarrow> s
      | Some c \<Rightarrow>
          (case ic_write c of
             None \<Rightarrow> s
           | Some d \<Rightarrow> s\<lparr>disk := (disk s)(ic_drive c := (disk s (ic_drive c))(ic_lba c := d)),
                         dwrites := (ic_drive c, ic_lba c, d) # dwrites s\<rparr>))"

text \<open>\<^verbatim>\<open>idewait(1)\<close> in the handler: \<open>True\<close> when the drive reports an error. \<^verbatim>\<open>insl\<close> then is skipped.\<close>

definition ide_insl :: "nat \<Rightarrow> 'a idest_scheme \<Rightarrow> 'a idest_scheme" where
  "ide_insl b s =
     (let err = (ide_errs s \<noteq> [] \<and> hd (ide_errs s)); s = s\<lparr>ide_errs := tl (ide_errs s)\<rparr>
      in case ide_cmd s of
           Some c \<Rightarrow> if err then s else updb b (\<lambda>x. x\<lparr>b_data := disk s (ic_drive c) (ic_lba c)\<rparr>) s
         | None \<Rightarrow> s)"

definition ideintr :: "'a idest_scheme \<Rightarrow> (unit, 'a idest_scheme) res" where
  "ideintr s =
     kbind (lock_acquire LIde s) (\<lambda>_ s.
       case idequeue s of
         None \<Rightarrow> lock_release LIde s
       | Some b \<Rightarrow>
           let s = s\<lparr>idequeue := b_qnext (bufs s ! b)\<rparr>;
               s = (if b_dirty (bufs s ! b) then s else ide_insl b s);
               s = updb b (\<lambda>x. x\<lparr>b_valid := True, b_dirty := False\<rparr>) s
           in kbind (wakeup (ChBuf b) s) (\<lambda>_ s.
              kbind (if idequeue s \<noteq> None then idestart (idequeue s) s else Ret () s) (\<lambda>_ s.
                lock_release LIde s)))"

text \<open>The end of the queue: \<open>None\<close> when the walk does not reach a null pointer within the number of buffers, that is, on a cyclic queue.\<close>

fun ide_last :: "nat \<Rightarrow> buf list \<Rightarrow> nat \<Rightarrow> nat option" where
  "ide_last 0 bs i = None"
| "ide_last (Suc n) bs i = (case b_qnext (bs ! i) of None \<Rightarrow> Some i | Some j \<Rightarrow> ide_last n bs j)"

definition ide_append :: "nat \<Rightarrow> 'a idest_scheme \<Rightarrow> (unit, 'a idest_scheme) res" where
  "ide_append b s =
     (let s = updb b (\<lambda>x. x\<lparr>b_qnext := None\<rparr>) s
      in case idequeue s of
           None \<Rightarrow> Ret () (s\<lparr>idequeue := Some b\<rparr>)
         | Some h \<Rightarrow>
             (case ide_last (length (bufs s)) (bufs s) h of
                None \<Rightarrow> Fault ''iderw: cyclic queue''
              | Some e \<Rightarrow> Ret () (updb e (\<lambda>x. x\<lparr>b_qnext := Some b\<rparr>) s)))"

definition iderw_begin :: "nat \<Rightarrow> 'a idest_scheme \<Rightarrow> (unit, 'a idest_scheme) res" where
  "iderw_begin b s =
     kbind (holdingsleep (SlBuf b) s) (\<lambda>h s.
       if \<not> h then Panic ''iderw: buf not locked''
       else if b_valid (bufs s ! b) \<and> \<not> b_dirty (bufs s ! b) then Panic ''iderw: nothing to do''
       else if b_dev (bufs s ! b) \<noteq> 0 \<and> \<not> havedisk1 s then Panic ''iderw: ide disk 1 not present''
       else kbind (lock_acquire LIde s) (\<lambda>_ s.
            kbind (ide_append b s) (\<lambda>_ s.
              if idequeue s = Some b then idestart (Some b) s else Ret () s)))"

fun iderw_wait :: "nat \<Rightarrow> nat \<Rightarrow> 'a idest_scheme \<Rightarrow> (unit, 'a idest_scheme) res" where
  "iderw_wait n b s =
     (if b_valid (bufs s ! b) \<and> \<not> b_dirty (bufs s ! b) then Ret () s
      else case n of
             0 \<Rightarrow> Fault ''iderw: request lost''
           | Suc n \<Rightarrow>
               if cpu_proc s = None then Panic ''sleep''
               else if remove1 LIde (held s) \<noteq> [] then Panic ''sched locks''
               else kbind (lock_release LIde s) (\<lambda>_ s.
                    kbind (ideintr (drive_done s)) (\<lambda>_ s.
                    kbind (lock_acquire LIde s) (\<lambda>_ s. iderw_wait n b s))))"

declare iderw_wait.simps [simp del]

definition iderw :: "nat \<Rightarrow> 'a idest_scheme \<Rightarrow> (unit, 'a idest_scheme) res" where
  "iderw b s =
     kbind (iderw_begin b s) (\<lambda>_ s.
     kbind (iderw_wait (length (bufs s)) b s) (\<lambda>_ s. lock_release LIde s))"

section \<open>The sector number\<close>

lemma ide_lba_id:
  assumes "x < 2 ^ 28"
  shows "ide_lba x = x"
proof -
  have m: "(0xff :: u32) = mask 8" "(0x0f :: u32) = mask 4" by (simp_all add: mask_eq_exp_minus_1)
  have "take_bit 28 x = x"
    using less_mask_eq [OF assms] by (simp add: take_bit_eq_mask)
  then have "bit x n \<longrightarrow> n < 28" for n by (metis bit_take_bit_iff)
  then have l: "bit x n \<Longrightarrow> n < 28" for n by blast
  have "bit (take_bit 8 x OR push_bit 8 (take_bit 8 (drop_bit 8 x)) OR push_bit 16 (take_bit 8 (drop_bit 16 x)) OR
      push_bit 24 (take_bit 4 (drop_bit 24 x))) n = bit x n" for n
    using l [of n] by (cases "n < 8"; cases "n < 16"; cases "n < 24"; cases "n < 28")
      (auto simp: bit_or_iff bit_take_bit_iff bit_push_bit_iff bit_drop_bit_eq bit_imp_le_length)
  then show ?thesis unfolding ide_lba_def m take_bit_eq_mask [symmetric] by (intro bit_word_eqI) blast
qed

section \<open>The queue\<close>

text \<open>The queue that starts at a pointer, as the list of the buffers in it.\<close>

primrec qchain :: "buf list \<Rightarrow> nat option \<Rightarrow> nat list \<Rightarrow> bool" where
  "qchain bs p [] = (p = None)"
| "qchain bs p (i # is) = (p = Some i \<and> i < length bs \<and> qchain bs (b_qnext (bs ! i)) is)"

lemma qchain_cong:
  "(\<And>i. i \<in> set is \<Longrightarrow> b_qnext (bs' ! i) = b_qnext (bs ! i)) \<Longrightarrow> length bs' = length bs \<Longrightarrow>
   qchain bs' p is = qchain bs p is"
  by (induction "is" arbitrary: p) auto

lemma ide_last_chain: "qchain bs (Some h) qs \<Longrightarrow> length qs \<le> n \<Longrightarrow> ide_last n bs h = Some (last qs)"
proof (induction n bs h arbitrary: qs rule: ide_last.induct)
  case (1 bs i)
  then show ?case by (cases qs) auto
next
  case (2 n bs i)
  then obtain qs' where qs: "qs = i # qs'" by (cases qs) auto
  show ?case
  proof (cases qs')
    case Nil
    then show ?thesis using 2 qs by simp
  next
    case (Cons j js)
    then have "b_qnext (bs ! i) = Some j" using 2 qs by simp
    moreover have "ide_last n bs j = Some (last qs')"
      using 2 qs Cons by (intro 2) auto
    ultimately show ?thesis using qs Cons by simp
  qed
qed

lemma qchain_snoc:
  assumes "qchain bs p qs" "distinct (qs @ [b])" "b < length bs"
  shows "qchain (if qs = [] then bs[b := (bs ! b)\<lparr>b_qnext := None\<rparr>]
      else (bs[b := (bs ! b)\<lparr>b_qnext := None\<rparr>])[last qs := (bs ! last qs)\<lparr>b_qnext := Some b\<rparr>])
    (if qs = [] then Some b else p) (qs @ [b])"
  using assms
proof (induction qs arbitrary: p)
  case Nil
  then show ?case by simp
next
  case (Cons i qs)
  let ?bs = "bs[b := (bs ! b)\<lparr>b_qnext := None\<rparr>]"
  show ?case
  proof (cases "qs = []")
    case True
    then show ?thesis using Cons.prems by auto
  next
    case False
    then have ne: "last qs \<noteq> i" "b \<noteq> i" using Cons.prems(2) by auto
    have "qchain (?bs[last qs := (bs ! last qs)\<lparr>b_qnext := Some b\<rparr>]) (b_qnext (bs ! i)) (qs @ [b])"
      using Cons.IH [of "b_qnext (bs ! i)"] Cons.prems False by simp
    then show ?thesis using False ne Cons.prems by simp
  qed
qed


lemma updb_simps [simp]:
  "bufs (updb b f s) = (bufs s)[b := f (bufs s ! b)]" "held (updb b f s) = held s" "idequeue (updb b f s) = idequeue s"
  "procs (updb b f s) = procs s" "cpu_proc (updb b f s) = cpu_proc s" "slocks (updb b f s) = slocks s"
  "disk (updb b f s) = disk s" "dwrites (updb b f s) = dwrites s" "ide_cmd (updb b f s) = ide_cmd s"
  "ide_errs (updb b f s) = ide_errs s" "fssize (updb b f s) = fssize s" "havedisk1 (updb b f s) = havedisk1 s" "ptab_ok (updb b f s) = ptab_ok s"
  by (simp_all add: updb_def ptab_ok_def)

lemma ptab_ok_idest [simp]:
  "ptab_ok (s\<lparr>bufs := x1\<rparr>) = ptab_ok s" "ptab_ok (s\<lparr>idequeue := x2\<rparr>) = ptab_ok s" "ptab_ok (s\<lparr>ide_cmd := x3\<rparr>) = ptab_ok s"
  "ptab_ok (s\<lparr>ide_errs := x4\<rparr>) = ptab_ok s" "ptab_ok (s\<lparr>disk := x5\<rparr>) = ptab_ok s" "ptab_ok (s\<lparr>dwrites := x6\<rparr>) = ptab_ok s"
  by (simp_all add: ptab_ok_def)

lemma qchain_bound: "qchain bs p qs \<Longrightarrow> set qs \<subseteq> {..<length bs}"
  by (induction qs arbitrary: p) auto

text \<open>The buffers and the head of the queue after \<open>b\<close> is appended to the queue \<open>qs\<close>.\<close>

definition q_bufs :: "nat list \<Rightarrow> nat \<Rightarrow> buf list \<Rightarrow> buf list" where
  "q_bufs qs b bs = (if qs = [] then bs[b := (bs ! b)\<lparr>b_qnext := None\<rparr>]
      else (bs[b := (bs ! b)\<lparr>b_qnext := None\<rparr>])[last qs := (bs ! last qs)\<lparr>b_qnext := Some b\<rparr>])"

definition q_head :: "nat list \<Rightarrow> nat \<Rightarrow> nat option \<Rightarrow> nat option" where
  "q_head qs b p = (if qs = [] then Some b else p)"

lemma q_bufs_other [simp]:
  assumes "i < length bs"
  shows "b_valid (q_bufs qs b bs ! i) = b_valid (bs ! i)" "b_dirty (q_bufs qs b bs ! i) = b_dirty (bs ! i)"
    "b_dev (q_bufs qs b bs ! i) = b_dev (bs ! i)" "b_blockno (q_bufs qs b bs ! i) = b_blockno (bs ! i)"
    "b_data (q_bufs qs b bs ! i) = b_data (bs ! i)" "b_refcnt (q_bufs qs b bs ! i) = b_refcnt (bs ! i)"
    "b_prev (q_bufs qs b bs ! i) = b_prev (bs ! i)" "b_next (q_bufs qs b bs ! i) = b_next (bs ! i)"
  using assms by (simp_all add: q_bufs_def nth_upd)

lemma length_q_bufs [simp]: "length (q_bufs qs b bs) = length bs"
  by (simp add: q_bufs_def)

lemma ide_append_eq:
  assumes ch: "qchain (bufs s) (idequeue s) qs" and d: "distinct (qs @ [b])" and b: "b < length (bufs s)"
  shows "ide_append b s = Ret () (s\<lparr>bufs := q_bufs qs b (bufs s), idequeue := q_head qs b (idequeue s)\<rparr>)"
    "qchain (q_bufs qs b (bufs s)) (q_head qs b (idequeue s)) (qs @ [b])"
proof -
  show "qchain (q_bufs qs b (bufs s)) (q_head qs b (idequeue s)) (qs @ [b])"
    unfolding q_bufs_def q_head_def by (rule qchain_snoc [OF assms])
  show "ide_append b s = Ret () (s\<lparr>bufs := q_bufs qs b (bufs s), idequeue := q_head qs b (idequeue s)\<rparr>)"
  proof (cases "qs = []")
    case True
    then show ?thesis using ch by (simp add: ide_append_def updb_def q_bufs_def q_head_def)
  next
    case False
    then obtain h where h: "idequeue s = Some h" using ch by (cases qs) auto
    let ?bs = "(bufs s)[b := (bufs s ! b)\<lparr>b_qnext := None\<rparr>]"
    have len: "length qs \<le> length (bufs s)"
      using card_mono [OF _ qchain_bound [OF ch]] distinct_card [of qs] d by simp
    have "last qs \<in> set qs" using False by simp
    then have ne: "last qs \<noteq> b" using d by auto
    have "qchain ?bs (Some h) qs"
      using ch h d b by (subst qchain_cong [of qs _ "bufs s"]) (auto simp: nth_list_update)
    then have "ide_last (length (bufs s)) ?bs h = Some (last qs)" using ide_last_chain len by blast
    then show ?thesis using False h ne by (simp add: ide_append_def updb_def q_bufs_def q_head_def)
  qed
qed

section \<open>Requests are served in order\<close>

text \<open>The command for a buffer, and the buffer after its request has been served.\<close>

definition cmd_of :: "buf \<Rightarrow> idecmd" where
  "cmd_of x = \<lparr>ic_drive = b_dev x AND 1, ic_lba = b_blockno x, ic_write = (if b_dirty x then Some (b_data x) else None)\<rparr>"

definition served :: "bool \<Rightarrow> disk \<Rightarrow> buf \<Rightarrow> buf" where
  "served err d x = x\<lparr>b_data := (if b_dirty x \<or> err then b_data x else d (b_dev x AND 1) (b_blockno x)),
     b_valid := True, b_dirty := False\<rparr>"

definition disk_after :: "disk \<Rightarrow> buf \<Rightarrow> disk" where
  "disk_after d x = (if b_dirty x then d(b_dev x AND 1 := (d (b_dev x AND 1))(b_blockno x := b_data x)) else d)"

definition writes_after :: "buf \<Rightarrow> (u32 \<times> u32 \<times> u8 list) list \<Rightarrow> (u32 \<times> u32 \<times> u8 list) list" where
  "writes_after x ws = (if b_dirty x then (b_dev x AND 1, b_blockno x, b_data x) # ws else ws)"

text \<open>
  The driver between two operations: \<open>qs\<close> is the queue, every buffer in it has work to do, and the drive works on the first one.
\<close>

definition ide_ok :: "'a idest_scheme \<Rightarrow> nat list \<Rightarrow> bool" where
  "ide_ok s qs \<longleftrightarrow> qchain (bufs s) (idequeue s) qs \<and> distinct qs \<and>
     (\<forall>b\<in>set qs. b_blockno (bufs s ! b) < fssize s \<and> \<not> (b_valid (bufs s ! b) \<and> \<not> b_dirty (bufs s ! b))) \<and>
     fssize s \<le> 0x10000000 \<and> (qs \<noteq> [] \<longrightarrow> ide_cmd s = Some (cmd_of (bufs s ! hd qs)))"

lemma idestart_Ret:
  assumes "b_blockno (bufs s ! i) < fssize s" "fssize s \<le> 0x10000000"
  shows "idestart (Some i) s = Ret () (s\<lparr>ide_cmd := Some (cmd_of (bufs s ! i))\<rparr>)"
proof -
  have "b_blockno (bufs s ! i) < 2 ^ 28" using less_le_trans [OF assms] by simp
  then show ?thesis using assms(1) by (simp add: idestart_def cmd_of_def ide_lba_id not_le)
qed

definition intr_err :: "'a idest_scheme \<Rightarrow> bool" where
  "intr_err s \<longleftrightarrow> ide_errs s \<noteq> [] \<and> hd (ide_errs s)"

text \<open>The state after the interrupt for the first request.\<close>

definition after_intr :: "nat \<Rightarrow> nat list \<Rightarrow> 'a idest_scheme \<Rightarrow> 'a idest_scheme" where
  "after_intr b qs s = s\<lparr>bufs := (bufs s)[b := served (intr_err s) (disk s) (bufs s ! b)],
      idequeue := b_qnext (bufs s ! b), procs := woken (ChBuf b) (procs s),
      ide_cmd := (if qs = [] then ide_cmd s else Some (cmd_of (bufs s ! hd qs))),
      ide_errs := (if b_dirty (bufs s ! b) then ide_errs s else tl (ide_errs s)),
      disk := disk_after (disk s) (bufs s ! b), dwrites := writes_after (bufs s ! b) (dwrites s)\<rparr>"

lemma ideintr_Ret:
  assumes ok: "ide_ok s (b # qs)" and p: "ptab_ok s" "LIde \<notin> set (held s)" "LPtable \<notin> set (held s)"
  shows "ideintr (drive_done s) = Ret () (after_intr b qs s)" "ide_ok (after_intr b qs s) qs"
proof -
  have q: "idequeue s = Some b" "b < length (bufs s)" "qchain (bufs s) (b_qnext (bufs s ! b)) qs" "b \<notin> set qs" "distinct qs"
    and cmd: "ide_cmd s = Some (cmd_of (bufs s ! b))" and fs: "fssize s \<le> 0x10000000"
    and w: "\<And>i. i \<in> set qs \<Longrightarrow> b_blockno (bufs s ! i) < fssize s \<and> \<not> (b_valid (bufs s ! i) \<and> \<not> b_dirty (bufs s ! i))"
    using ok by (auto simp: ide_ok_def)
  have nx: "b_qnext (bufs s ! b) = (if qs = [] then None else Some (hd qs))" using q(3) by (cases qs) auto
  have hd: "qs \<noteq> [] \<Longrightarrow> b \<noteq> hd qs \<and> b_blockno (bufs s ! hd qs) < fssize s" using q(4) w [of "hd qs"] by (cases qs) auto
  show "ideintr (drive_done s) = Ret () (after_intr b qs s)"
  proof (cases "b_dirty (bufs s ! b)")
    case True
    let ?d = "drive_done s"
    have d: "?d = s\<lparr>disk := disk_after (disk s) (bufs s ! b), dwrites := writes_after (bufs s ! b) (dwrites s)\<rparr>"
      using True by (simp add: drive_done_def cmd cmd_of_def disk_after_def writes_after_def)
    show ?thesis
      by (cases "qs = []")
        (simp_all add: ideintr_def d p q(1,2) nx hd fs True wakeup_Ret idestart_Ret after_intr_def served_def updb_def)
  next
    case False
    have d: "drive_done s = s" "disk_after (disk s) (bufs s ! b) = disk s" "writes_after (bufs s ! b) (dwrites s) = dwrites s"
      using False by (simp_all add: drive_done_def cmd cmd_of_def disk_after_def writes_after_def)
    have i: "ide_insl b s' = (if intr_err s then s'\<lparr>ide_errs := tl (ide_errs s)\<rparr> else
        s'\<lparr>ide_errs := tl (ide_errs s), bufs := (bufs s)[b := (bufs s ! b)\<lparr>b_data := disk s (b_dev (bufs s ! b) AND 1) (b_blockno (bufs s ! b))\<rparr>]\<rparr>)"
      if "ide_cmd s' = ide_cmd s" "ide_errs s' = ide_errs s" "bufs s' = bufs s" "disk s' = disk s" for s' :: "'a idest_scheme"
      using that by (simp add: ide_insl_def cmd cmd_of_def intr_err_def updb_def False)
    show ?thesis
      by (cases "intr_err s"; cases "qs = []")
        (simp_all add: ideintr_def d i p q(1,2) nx hd fs False wakeup_Ret idestart_Ret after_intr_def served_def updb_def)
  qed
  have "b_qnext (served e d x) = b_qnext x" for e d x by (simp add: served_def)
  then have ch: "qchain ((bufs s)[b := served (intr_err s) (disk s) (bufs s ! b)]) (b_qnext (bufs s ! b)) qs"
    using q by (subst qchain_cong [of qs _ "bufs s"]) (auto simp: nth_list_update)
  show "ide_ok (after_intr b qs s) qs" unfolding ide_ok_def after_intr_def
    using q w hd fs ch by (auto simp: nth_list_update)
qed


text \<open>The wait of \<^verbatim>\<open>iderw\<close> serves the queue up to and including its own request.\<close>

fun after_intrs :: "nat list \<Rightarrow> 'a idest_scheme \<Rightarrow> 'a idest_scheme" where
  "after_intrs [] s = s"
| "after_intrs (b # qs) s = after_intrs qs (after_intr b qs s)"

lemma after_intr_simps [simp]:
  "held (after_intr b qs s) = held s" "cpu_proc (after_intr b qs s) = cpu_proc s" "length (bufs (after_intr b qs s)) = length (bufs s)"
  "slocks (after_intr b qs s) = slocks s" "havedisk1 (after_intr b qs s) = havedisk1 s"
  "fssize (after_intr b qs s) = fssize s" "dwrites (after_intr b qs s) = writes_after (bufs s ! b) (dwrites s)" "disk (after_intr b qs s) = disk_after (disk s) (bufs s ! b)"
  by (simp_all add: after_intr_def)

lemma ptab_ok_after_intr: "ptab_ok s \<Longrightarrow> ptab_ok (after_intr b qs s)"
  using ptab_ok_woken [of s "ChBuf b"] by (simp add: after_intr_def ptab_ok_def)

lemma ide_ok_held [simp]: "ide_ok (s\<lparr>held := h\<rparr>) qs = ide_ok s qs"
  by (simp add: ide_ok_def)

lemma after_intr_held: "after_intr b qs (s\<lparr>held := h\<rparr>) = (after_intr b qs s)\<lparr>held := h\<rparr>"
  by (simp add: after_intr_def intr_err_def)

lemma iderw_wait_Ret:
  assumes "ide_ok s (qs @ [b])" "ptab_ok s" "held s = [LIde]" "cpu_proc s = Some i" "length qs < n"
  shows "iderw_wait n b s = Ret () (after_intrs (qs @ [b]) s)"
  using assms
proof (induction qs arbitrary: s n)
  case Nil
  then obtain m where n: "n = Suc m" by (cases n) auto
  let ?u = "s\<lparr>held := []\<rparr>"
  have ok: "ide_ok ?u [b]" "ptab_ok ?u" using Nil by simp_all
  have b: "b < length (bufs s)" "\<not> (b_valid (bufs s ! b) \<and> \<not> b_dirty (bufs s ! b))" using Nil(1) by (auto simp: ide_ok_def)
  have "after_intr b [] ?u\<lparr>held := [LIde]\<rparr> = after_intr b [] s" using Nil(3) by (simp add: after_intr_held)
  moreover have "b_valid (bufs (after_intr b [] s) ! b)" "\<not> b_dirty (bufs (after_intr b [] s) ! b)"
    using b(1) by (simp_all add: after_intr_def served_def)
  ultimately show ?case using Nil(3,4) n b(2) ideintr_Ret(1) [OF ok]
    by (auto simp: iderw_wait.simps [of "Suc m"] iderw_wait.simps [of m])
next
  case (Cons a qs)
  then obtain m where n: "n = Suc m" by (cases n) auto
  let ?u = "s\<lparr>held := []\<rparr>" and ?v = "after_intr a (qs @ [b]) s"
  have ok: "ide_ok ?u (a # qs @ [b])" "ptab_ok ?u" using Cons.prems by simp_all
  have b: "\<not> (b_valid (bufs s ! b) \<and> \<not> b_dirty (bufs s ! b))" using Cons.prems(1) by (auto simp: ide_ok_def)
  have v: "after_intr a (qs @ [b]) ?u\<lparr>held := [LIde]\<rparr> = ?v" using Cons.prems(3) by (simp add: after_intr_held)
  have "ide_ok ?v (qs @ [b])" using ideintr_Ret(2) [OF ok] by (simp add: after_intr_held)
  then have "iderw_wait m b ?v = Ret () (after_intrs (qs @ [b]) ?v)"
    using Cons.prems n ptab_ok_after_intr by (intro Cons.IH) auto
  then show ?case using Cons.prems(3,4) n b v ideintr_Ret(1) [OF ok] by (auto simp: iderw_wait.simps [of "Suc m"])
qed


lemma after_intrs_effect:
  fixes s :: "'a idest_scheme"
  assumes "distinct qs" "set qs \<subseteq> {..<length (bufs s)}"
  shows "dwrites (after_intrs qs s) = fold (\<lambda>j. writes_after (bufs s ! j)) qs (dwrites s)"
    "disk (after_intrs qs s) = fold (\<lambda>j d. disk_after d (bufs s ! j)) qs (disk s)"
    "held (after_intrs qs s) = held s"
    "i \<notin> set qs \<Longrightarrow> bufs (after_intrs qs s) ! i = bufs s ! i"
    "ide_errs s = [] \<Longrightarrow> ide_errs (after_intrs qs s) = []"
  using assms
proof (induction qs arbitrary: s)
  case (Cons a qs)
  have m: "bufs (after_intr a qs s) ! j = bufs s ! j" if "distinct (a # qs)" "j \<in> set qs" for j and s :: "'a idest_scheme"
    using that by (auto simp: after_intr_def intro!: nth_list_update_neq)
  { case 1
    then have "fold (\<lambda>j. writes_after (bufs (after_intr a qs s) ! j)) qs x = fold (\<lambda>j. writes_after (bufs s ! j)) qs x" for x
      by (intro fold_cong) (auto simp: m)
    then show ?case using Cons.IH(1) [of "after_intr a qs s"] 1 by simp }
  { case 2
    then have "fold (\<lambda>j d. disk_after d (bufs (after_intr a qs s) ! j)) qs x = fold (\<lambda>j d. disk_after d (bufs s ! j)) qs x" for x
      by (intro fold_cong) (auto simp: m)
    then show ?case using Cons.IH(2) [of "after_intr a qs s"] 2 by simp }
  { case 3 then show ?case using Cons.IH(3) [of "after_intr a qs s"] by simp }
  { case 4 then show ?case using Cons.IH(4) [of "after_intr a qs s"] by (simp add: after_intr_def) }
  { case 5 then show ?case using Cons.IH(5) [of "after_intr a qs s"] by (simp add: after_intr_def) }
qed simp_all


lemma after_intrs_last:
  assumes "distinct (qs @ [b])" "b < length (bufs s)"
  shows "b_valid (bufs (after_intrs (qs @ [b]) s) ! b) \<and> \<not> b_dirty (bufs (after_intrs (qs @ [b]) s) ! b) \<and>
    (b_dirty (bufs s ! b) \<or> ide_errs s = [] \<longrightarrow>
      b_data (bufs (after_intrs (qs @ [b]) s) ! b) =
      disk (after_intrs (qs @ [b]) s) (b_dev (bufs s ! b) AND 1) (b_blockno (bufs s ! b)))"
  using assms
proof (induction qs arbitrary: s)
  case Nil
  then show ?case by (auto simp: after_intr_def served_def disk_after_def intr_err_def)
next
  case (Cons a qs)
  then have "bufs (after_intr a (qs @ [b]) s) ! b = bufs s ! b" by (auto simp: after_intr_def)
  moreover have "ide_errs s = [] \<Longrightarrow> ide_errs (after_intr a (qs @ [b]) s) = []" by (simp add: after_intr_def)
  ultimately show ?case using Cons.IH [of "after_intr a (qs @ [b]) s"] Cons.prems by auto
qed

text \<open>The state in which \<^verbatim>\<open>iderw\<close> begins to wait, when \<open>qs\<close> is the queue before.\<close>

definition rw_start :: "nat list \<Rightarrow> nat \<Rightarrow> 'a idest_scheme \<Rightarrow> 'a idest_scheme" where
  "rw_start qs b s = s\<lparr>held := [LIde], bufs := q_bufs qs b (bufs s), idequeue := q_head qs b (idequeue s),
     ide_cmd := (if qs = [] then Some (cmd_of (bufs s ! b)) else ide_cmd s)\<rparr>"

lemma iderw_eq:
  assumes "ide_ok s qs" "ptab_ok s" "held s = []" "cpu_proc s = Some i"
    and "b < length (bufs s)" "b \<notin> set qs" "slocks s (SlBuf b) = \<lparr>sl_locked = True, sl_pid = p_pid (procs s ! i)\<rparr>"
    and "\<not> b_valid (bufs s ! b) \<or> b_dirty (bufs s ! b)" "b_dev (bufs s ! b) = 0 \<or> havedisk1 s" "b_blockno (bufs s ! b) < fssize s"
  shows "iderw b s = Ret () (after_intrs (qs @ [b]) (rw_start qs b s)\<lparr>held := []\<rparr>)"
proof -
  have ch: "qchain (bufs s) (idequeue s) qs" and d: "distinct (qs @ [b])" and sub: "set (qs @ [b]) \<subseteq> {..<length (bufs s)}"
    and w: "\<forall>x\<in>set qs. b_blockno (bufs s ! x) < fssize s \<and> \<not> (b_valid (bufs s ! x) \<and> \<not> b_dirty (bufs s ! x))"
    and fs: "fssize s \<le> 0x10000000"
    using assms(1,5,6) qchain_bound by (auto simp: ide_ok_def)
  let ?c = "if qs = [] then Some (cmd_of (bufs s ! b)) else ide_cmd s"
  let ?t = "s\<lparr>held := [LIde], bufs := q_bufs qs b (bufs s), idequeue := q_head qs b (idequeue s), ide_cmd := ?c\<rparr>"
  have hd: "qs \<noteq> [] \<Longrightarrow> \<exists>h. idequeue s = Some h \<and> h \<noteq> b" using ch assms(6) by (cases qs) auto
  have cmd: "cmd_of (q_bufs qs b (bufs s) ! j) = cmd_of (bufs s ! j)" if "j < length (bufs s)" for j
    using that by (simp add: cmd_of_def)
  have c: "qs \<noteq> [] \<Longrightarrow> ide_cmd s = Some (cmd_of (q_bufs qs b (bufs s) ! hd qs))"
    using assms(1) sub cmd by (cases qs) (auto simp: ide_ok_def)
  let ?s1 = "s\<lparr>held := [LIde]\<rparr>"
  have "iderw_begin b s = Ret () ?t"
    using assms(3-10) fs hd ide_append_eq(1) [of ?s1 qs b] ch d cmd
    by (cases "qs = []") (auto simp: iderw_begin_def holdingsleep_Ret idestart_Ret q_head_def)
  moreover have ok: "ide_ok ?t (qs @ [b])" unfolding ide_ok_def
    using assms(5,8,10) fs c d w sub cmd ide_append_eq(2) [OF ch d assms(5)] by (auto simp: hd_append)
  then have "iderw_wait (length (bufs ?t)) b ?t = Ret () (after_intrs (qs @ [b]) ?t)"
  proof (rule iderw_wait_Ret)
    have "length (qs @ [b]) \<le> length (bufs s)"
      using card_mono [OF _ sub] distinct_card [OF d] by simp
    then show "length qs < length (bufs ?t)" by simp
  qed (use assms(2,4) in simp_all)
  ultimately have r: "iderw b s = Ret () (after_intrs (qs @ [b]) ?t\<lparr>held := []\<rparr>)"
    using after_intrs_effect(3) [OF d, of ?t] sub by (simp add: iderw_def)
  then show ?thesis unfolding rw_start_def .
qed


text \<open>A driver that is reading block 7 into buffer 2, while process 0 (pid 1) holds buffer 0 with data for block 5.\<close>

definition buf_ex :: buf where
  "buf_ex = \<lparr>b_valid = False, b_dirty = False, b_dev = 0, b_blockno = 0, b_refcnt = 0, b_prev = 0, b_next = 0,
     b_qnext = None, b_data = replicate 512 0\<rparr>"

definition idest_ex :: idest where
  "idest_ex = slst.extend (slst_ex procs_ex 0)
     (idest.fields ((replicate 31 buf_ex)
        [0 := buf_ex\<lparr>b_valid := True, b_dirty := True, b_dev := 1, b_blockno := 5, b_refcnt := 1, b_data := replicate 512 9\<rparr>,
         2 := buf_ex\<lparr>b_dev := 1, b_blockno := 7, b_refcnt := 1\<rparr>])
      (Some 2) True (Some \<lparr>ic_drive = 1, ic_lba = 7, ic_write = None\<rparr>) [] (\<lambda>d n. replicate 512 3) [] 1000)"

lemma idest_ex_simps [simp]:
  "procs idest_ex = procs_ex" "cpu_proc idest_ex = Some 0" "held idest_ex = []" "nextpid idest_ex = 5"
  "slocks idest_ex = slocks (slst_ex procs_ex 0)" "idequeue idest_ex = Some 2" "havedisk1 idest_ex" "ide_errs idest_ex = []"
  "bufs idest_ex = (replicate 31 buf_ex)
        [0 := buf_ex\<lparr>b_valid := True, b_dirty := True, b_dev := 1, b_blockno := 5, b_refcnt := 1, b_data := replicate 512 9\<rparr>,
         2 := buf_ex\<lparr>b_dev := 1, b_blockno := 7, b_refcnt := 1\<rparr>]"
  "ide_cmd idest_ex = Some \<lparr>ic_drive = 1, ic_lba = 7, ic_write = None\<rparr>" "dwrites idest_ex = []" "fssize idest_ex = 1000"
  by (simp_all add: idest_ex_def slst_ex_def slst.defs idest.defs ptab.defs ptab_ex_def)


end
