(* ===== verification/Bio.thy ===== *)
theory Bio
  imports Ide
begin

text \<open>
  The buffer cache (\<^verbatim>\<open>bio.c\<close>). The list \<open>bufs\<close> holds \<^verbatim>\<open>bcache.buf\<close> at the indexes 0 to 29 and \<^verbatim>\<open>bcache.head\<close> at index 30; the pointers \<^verbatim>\<open>prev\<close>
  and \<^verbatim>\<open>next\<close> are indexes. \<open>mru\<close> reads the doubly linked list as a list of buffers, most recently used first.
\<close>

section \<open>Operations\<close>

abbreviation (input) NBUF :: nat where "NBUF \<equiv> 30"
abbreviation (input) bhead :: nat where "bhead \<equiv> 30"

text \<open>Linking \<open>b\<close> in at the head, the four stores that \<^verbatim>\<open>binit\<close> and \<^verbatim>\<open>brelse\<close> share, in the order of the code.\<close>

definition blink :: "nat \<Rightarrow> 'a idest_scheme \<Rightarrow> 'a idest_scheme" where
  "blink b s =
     (let s = updb b (\<lambda>x. x\<lparr>b_next := b_next (bufs s ! bhead)\<rparr>) s;
          s = updb b (\<lambda>x. x\<lparr>b_prev := bhead\<rparr>) s;
          s = updb (b_next (bufs s ! bhead)) (\<lambda>x. x\<lparr>b_prev := b\<rparr>) s
      in updb bhead (\<lambda>x. x\<lparr>b_next := b\<rparr>) s)"

definition binit :: "'a idest_scheme \<Rightarrow> 'a idest_scheme" where
  "binit s =
     (let s = s\<lparr>held := removeAll LBcache (held s)\<rparr>;
          s = updb bhead (\<lambda>x. x\<lparr>b_prev := bhead\<rparr>) s;
          s = updb bhead (\<lambda>x. x\<lparr>b_next := bhead\<rparr>) s
      in fold (\<lambda>b s. blink b (initsleeplock (SlBuf b) s)) [0..<NBUF] s)"

text \<open>
  A walk along \<^verbatim>\<open>next\<close> or \<^verbatim>\<open>prev\<close> from the element after the head: \<open>None\<close> when it does not get back to the head within the number of buffers,
  otherwise the first buffer with the property, if there is one.
\<close>

fun bscan :: "nat \<Rightarrow> (buf \<Rightarrow> nat) \<Rightarrow> (buf \<Rightarrow> bool) \<Rightarrow> buf list \<Rightarrow> nat \<Rightarrow> nat option option" where
  "bscan 0 lnk P bs i = None"
| "bscan (Suc n) lnk P bs i =
     (if i = bhead then Some None else if P (bs ! i) then Some (Some i) else bscan n lnk P bs (lnk (bs ! i)))"

definition bget :: "u32 \<Rightarrow> u32 \<Rightarrow> 'a idest_scheme \<Rightarrow> (nat, 'a idest_scheme) res" where
  "bget dev blockno s =
     kbind (lock_acquire LBcache s) (\<lambda>_ s.
       case bscan (length (bufs s)) b_next (\<lambda>x. b_dev x = dev \<and> b_blockno x = blockno) (bufs s) (b_next (bufs s ! bhead)) of
         None \<Rightarrow> Fault ''bget: list broken''
       | Some (Some b) \<Rightarrow>
           kbind (lock_release LBcache (updb b (\<lambda>x. x\<lparr>b_refcnt := b_refcnt x + 1\<rparr>) s)) (\<lambda>_ s.
           kbind (acquiresleep (SlBuf b) s) (\<lambda>_ s. Ret b s))
       | Some None \<Rightarrow>
           (case bscan (length (bufs s)) b_prev (\<lambda>x. b_refcnt x = 0 \<and> \<not> b_dirty x) (bufs s) (b_prev (bufs s ! bhead)) of
              None \<Rightarrow> Fault ''bget: list broken''
            | Some None \<Rightarrow> Panic ''bget: no buffers''
            | Some (Some b) \<Rightarrow>
                kbind (lock_release LBcache (updb b (\<lambda>x. x\<lparr>b_dev := dev, b_blockno := blockno, b_valid := False,
                         b_dirty := False, b_refcnt := 1\<rparr>) s)) (\<lambda>_ s.
                kbind (acquiresleep (SlBuf b) s) (\<lambda>_ s. Ret b s))))"

definition bread :: "u32 \<Rightarrow> u32 \<Rightarrow> 'a idest_scheme \<Rightarrow> (nat, 'a idest_scheme) res" where
  "bread dev blockno s =
     kbind (bget dev blockno s) (\<lambda>b s.
       if b_valid (bufs s ! b) then Ret b s else kbind (iderw b s) (\<lambda>_ s. Ret b s))"

definition bwrite :: "nat \<Rightarrow> 'a idest_scheme \<Rightarrow> (unit, 'a idest_scheme) res" where
  "bwrite b s =
     kbind (holdingsleep (SlBuf b) s) (\<lambda>h s.
       if \<not> h then Panic ''bwrite'' else iderw b (updb b (\<lambda>x. x\<lparr>b_dirty := True\<rparr>) s))"

definition bunlink :: "nat \<Rightarrow> 'a idest_scheme \<Rightarrow> 'a idest_scheme" where
  "bunlink b s =
     (let s = updb (b_next (bufs s ! b)) (\<lambda>x. x\<lparr>b_prev := b_prev (bufs s ! b)\<rparr>) s
      in updb (b_prev (bufs s ! b)) (\<lambda>x. x\<lparr>b_next := b_next (bufs s ! b)\<rparr>) s)"

definition brelse :: "nat \<Rightarrow> 'a idest_scheme \<Rightarrow> (unit, 'a idest_scheme) res" where
  "brelse b s =
     kbind (holdingsleep (SlBuf b) s) (\<lambda>h s.
       if \<not> h then Panic ''brelse''
       else kbind (releasesleep (SlBuf b) s) (\<lambda>_ s.
            kbind (lock_acquire LBcache s) (\<lambda>_ s.
              let s = updb b (\<lambda>x. x\<lparr>b_refcnt := b_refcnt x - 1\<rparr>) s;
                  s = (if b_refcnt (bufs s ! b) = 0 then blink b (bunlink b s) else s)
              in lock_release LBcache s)))"

section \<open>The linked list\<close>

text \<open>Consecutive elements point at each other.\<close>

fun links :: "buf list \<Rightarrow> nat list \<Rightarrow> bool" where
  "links bs (a # b # r) = (b_next (bs ! a) = b \<and> b_prev (bs ! b) = a \<and> links bs (b # r))"
| "links bs _ = True"

definition mru :: "buf list \<Rightarrow> nat list \<Rightarrow> bool" where
  "mru bs xs \<longleftrightarrow> length bs = 31 \<and> distinct xs \<and> set xs = {..<NBUF} \<and> links bs (bhead # xs @ [bhead])"

lemma links_append: "links bs (xs @ a # ys) \<longleftrightarrow> links bs (xs @ [a]) \<and> links bs (a # ys)"
  by (induction bs xs rule: links.induct) auto

lemma links_snoc: "links bs (xs @ [a, b]) \<longleftrightarrow> links bs (xs @ [a]) \<and> b_next (bs ! a) = b \<and> b_prev (bs ! b) = a"
  using links_append [of bs xs a "[b]"] by simp

lemma links_cong:
  "(\<And>i. i \<in> set (butlast xs) \<Longrightarrow> b_next (bs' ! i) = b_next (bs ! i)) \<Longrightarrow>
   (\<And>i. i \<in> set (tl xs) \<Longrightarrow> b_prev (bs' ! i) = b_prev (bs ! i)) \<Longrightarrow> links bs' xs = links bs xs"
proof (induction bs xs rule: links.induct)
  case (1 bs a b r)
  then show ?case by auto
qed auto

lemma bunlink_fields:
  assumes "length (bufs s) = 31" "b < 31" "i < 31" "b_next (bufs s ! b) = n" "b_prev (bufs s ! b) = p" "n \<noteq> b"
  shows "b_next (bufs (bunlink b s) ! i) = (if i = p then n else b_next (bufs s ! i))"
    "b_prev (bufs (bunlink b s) ! i) = (if i = n then p else b_prev (bufs s ! i))"
  using assms by (auto simp: bunlink_def Let_def nth_upd)

lemma blink_fields:
  assumes "length (bufs s) = 31" "b < 30" "i < 31" "b_next (bufs s ! bhead) = h" "h \<noteq> b"
  shows "b_next (bufs (blink b s) ! i) = (if i = bhead then b else if i = b then h else b_next (bufs s ! i))"
    "b_prev (bufs (blink b s) ! i) = (if i = h then b else if i = b then bhead else b_prev (bufs s ! i))"
  using assms by (auto simp: blink_def Let_def nth_upd)

text \<open>The part of a buffer that linking does not touch.\<close>

definition bcore :: "buf \<Rightarrow> buf" where
  "bcore x = x\<lparr>b_next := 0, b_prev := 0\<rparr>"

lemma bcore_relink [simp]:
  assumes "i < length (bufs s)"
  shows "bcore (bufs (blink b s) ! i) = bcore (bufs s ! i)" "bcore (bufs (bunlink b s) ! i) = bcore (bufs s ! i)"
  using assms by (simp_all add: blink_def bunlink_def bcore_def Let_def nth_upd)

lemma length_relink [simp]: "length (bufs (blink b s)) = length (bufs s)" "length (bufs (bunlink b s)) = length (bufs s)"
  by (simp_all add: blink_def bunlink_def Let_def)

lemma links_unlink:
  assumes l: "links (bufs s) (bhead # us @ b # vs @ [bhead])" and len: "length (bufs s) = 31"
    and d: "distinct (us @ b # vs)" and set: "set (us @ b # vs) = {..<30}"
  shows "links (bufs (bunlink b s)) (bhead # us @ vs @ [bhead])"
proof -
  obtain xs p where p: "bhead # us = xs @ [p]" by (metis list.distinct(1) rev_exhaust)
  obtain n ys where n: "vs @ [bhead] = n # ys" by (cases vs) auto
  have ub: "us = tl (xs @ [p])" "vs = butlast (n # ys)" using p n by (metis list.sel(3), metis butlast_snoc)
  have lt: "\<forall>x\<in>set (us @ b # vs). x < 30" using set by auto
  have dx: "distinct (xs @ [p])" using d lt unfolding p [symmetric] by auto
  have dn: "distinct (n # ys)" using d lt unfolding n [symmetric] by auto
  have full: "bhead # us @ b # vs @ [bhead] = xs @ p # b # n # ys" using p n by (metis append_Cons append_assoc append_Nil)
  have l': "links (bufs s) (xs @ [p])" "b_next (bufs s ! p) = b" "b_prev (bufs s ! b) = p" "b_next (bufs s ! b) = n"
    "b_prev (bufs s ! n) = b" "links (bufs s) (n # ys)"
    using l links_append [of "bufs s" xs p "b # n # ys"] unfolding full by auto
  have mem: "set (xs @ [p]) = insert bhead (set us)" "set (n # ys) = insert bhead (set vs)"
    unfolding p [symmetric] n [symmetric] by auto
  then have pn: "p = bhead \<or> p \<in> set us" "n = bhead \<or> n \<in> set vs" by auto
  have lt': "\<forall>x\<in>set (xs @ [p]). x < 31" "\<forall>x\<in>set (n # ys). x < 31"
    unfolding mem using lt by (auto intro: less_trans)
  have b: "b < 30" "n \<noteq> b" "p < 31" "n < 31" using d lt pn lt' by auto
  note f = bunlink_fields [OF len _ _ l'(4,3) b(2)]
  have pn': "n \<notin> set us" "p \<notin> set vs" using pn d lt by auto
  have "links (bufs (bunlink b s)) (xs @ [p]) = links (bufs s) (xs @ [p])"
  proof (rule links_cong)
    fix i assume "i \<in> set (butlast (xs @ [p]))"
    then show "b_next (bufs (bunlink b s) ! i) = b_next (bufs s ! i)" using dx b lt'(1) by (auto simp: f)
  next
    fix i assume "i \<in> set (tl (xs @ [p]))"
    then have "i \<in> set us" unfolding ub(1) .
    then have "i < 30" "i \<noteq> n" using pn'(1) lt by auto
    then show "b_prev (bufs (bunlink b s) ! i) = b_prev (bufs s ! i)" using b by (simp add: f)
  qed
  moreover have "links (bufs (bunlink b s)) (n # ys) = links (bufs s) (n # ys)"
  proof (rule links_cong)
    fix i assume "i \<in> set (butlast (n # ys))"
    then have "i \<in> set vs" unfolding ub(2) .
    then have "i < 30" "i \<noteq> p" using pn'(2) lt by auto
    then show "b_next (bufs (bunlink b s) ! i) = b_next (bufs s ! i)" using b by (simp add: f)
  next
    fix i assume "i \<in> set (tl (n # ys))"
    then show "b_prev (bufs (bunlink b s) ! i) = b_prev (bufs s ! i)" using dn b lt'(2) by (auto simp: f)
  qed
  moreover have "b_next (bufs (bunlink b s) ! p) = n" "b_prev (bufs (bunlink b s) ! n) = p" using b by (simp_all add: f)
  moreover have "bhead # us @ vs @ [bhead] = xs @ p # n # ys" using p n by (metis append_Cons append_assoc append_Nil)
  ultimately show ?thesis using links_append [of "bufs (bunlink b s)" xs p "n # ys"] l'(1,6) by simp
qed

lemma links_link:
  assumes l: "links (bufs s) (bhead # zs @ [bhead])" and len: "length (bufs s) = 31"
    and d: "distinct (b # zs)" and lt: "\<forall>x\<in>set (b # zs). x < 30"
  shows "links (bufs (blink b s)) (bhead # b # zs @ [bhead])"
proof -
  obtain h ys where h: "zs @ [bhead] = h # ys" by (cases zs) auto
  have zs: "zs = butlast (h # ys)" using h by (metis butlast_snoc)
  have mem: "set (h # ys) = insert bhead (set zs)" unfolding h [symmetric] by auto
  have dh: "distinct (h # ys)" using d lt unfolding h [symmetric] by auto
  have hm: "h = bhead \<or> h \<in> set zs" using mem by auto
  have l': "b_next (bufs s ! bhead) = h" "links (bufs s) (h # ys)" using l unfolding h by simp_all
  have b: "b < 30" "h \<noteq> b" "h < 31" using d lt hm by auto
  note f = blink_fields [OF len b(1) _ l'(1) b(2)]
  have "links (bufs (blink b s)) (h # ys) = links (bufs s) (h # ys)"
  proof (rule links_cong)
    fix i assume "i \<in> set (butlast (h # ys))"
    then have "i \<in> set zs" by (simp only: zs [symmetric])
    then have "i < 30" "i \<noteq> b" using d lt by auto
    then show "b_next (bufs (blink b s) ! i) = b_next (bufs s ! i)" by (simp add: f)
  next
    fix i assume i: "i \<in> set (tl (h # ys))"
    then have "i = bhead \<or> i \<in> set zs" "i \<noteq> h" using mem dh by auto
    then have "i < 31" "i \<noteq> b" "i \<noteq> h" using d lt by auto
    then show "b_prev (bufs (blink b s) ! i) = b_prev (bufs s ! i)" by (simp add: f)
  qed
  then show ?thesis using l' b by (simp add: h f)
qed

text \<open>Releasing the last reference moves the buffer to the front.\<close>

lemma mru_move:
  assumes m: "mru (bufs s) xs" and b: "b < 30"
  shows "mru (bufs (blink b (bunlink b s))) (b # remove1 b xs)"
proof -
  obtain us vs where xs: "xs = us @ b # vs" using m b by (metis mru_def lessThan_iff split_list)
  have d: "distinct (us @ b # vs)" and st: "set (us @ b # vs) = {..<30}" and len: "length (bufs s) = 31"
    and l: "links (bufs s) (bhead # us @ b # vs @ [bhead])" using m xs by (simp_all add: mru_def)
  have r: "remove1 b xs = us @ vs" using d by (simp add: xs remove1_append)
  have "links (bufs (blink b (bunlink b s))) (bhead # b # (us @ vs) @ [bhead])"
    using links_unlink [OF l len d st] d st len by (intro links_link) auto
  moreover have "set (b # us @ vs) = {..<30}" using st by auto
  ultimately show ?thesis using d len unfolding r mru_def by simp
qed

text \<open>The walks find the first element of the list, or of its reverse, with the property.\<close>

lemma bscan_next:
  "links bs (i # xs @ [bhead]) \<Longrightarrow> \<forall>x\<in>set (i # xs). x \<noteq> bhead \<Longrightarrow> length (i # xs) < n \<Longrightarrow>
   bscan n b_next P bs i = Some (find (\<lambda>j. P (bs ! j)) (i # xs))"
proof (induction xs arbitrary: n i)
  case Nil
  then obtain m where "n = Suc (Suc m)" by (cases n; cases "n - 1") auto
  then show ?case using Nil by simp
next
  case (Cons a xs)
  then obtain m where n: "n = Suc m" by (cases n) auto
  then show ?case using Cons.IH [of a m] Cons.prems by simp
qed

lemma bscan_prev:
  "links bs (bhead # xs @ [i]) \<Longrightarrow> \<forall>x\<in>set (xs @ [i]). x \<noteq> bhead \<Longrightarrow> length (xs @ [i]) < n \<Longrightarrow>
   bscan n b_prev P bs i = Some (find (\<lambda>j. P (bs ! j)) (rev (xs @ [i])))"
proof (induction xs arbitrary: n i rule: rev_induct)
  case Nil
  then obtain m where "n = Suc (Suc m)" by (cases n; cases "n - 1") auto
  then show ?case using Nil by simp
next
  case (snoc a xs)
  then obtain m where n: "n = Suc m" by (cases n) auto
  have "links bs (bhead # xs @ [a])" "b_prev (bs ! i) = a"
    using snoc.prems(1) links_snoc [of bs "bhead # xs" a i] by simp_all
  then show ?case using snoc.IH [of a m] snoc.prems n by simp
qed

lemma mru_scan:
  assumes "mru bs xs"
  shows "bscan 31 b_next P bs (b_next (bs ! bhead)) = Some (find (\<lambda>j. P (bs ! j)) xs)"
    "bscan 31 b_prev P bs (b_prev (bs ! bhead)) = Some (find (\<lambda>j. P (bs ! j)) (rev xs))"
proof -
  have xs: "distinct xs" "set xs = {..<30}" "links bs (bhead # xs @ [bhead])" using assms by (simp_all add: mru_def)
  then have len: "length xs = 30" using distinct_card by fastforce
  then obtain i ys where i: "xs = i # ys" by (cases xs) auto
  have "\<forall>x\<in>set (i # ys). x \<noteq> bhead" using xs(2) i by auto
  moreover have "links bs (i # ys @ [bhead])" "b_next (bs ! bhead) = i" using xs(3) i by simp_all
  ultimately show "bscan 31 b_next P bs (b_next (bs ! bhead)) = Some (find (\<lambda>j. P (bs ! j)) xs)"
    using bscan_next [of bs i ys 31 P] len i by simp
  obtain j zs where j: "xs = zs @ [j]" using i by (metis list.distinct(1) rev_exhaust)
  have "\<forall>x\<in>set (zs @ [j]). x \<noteq> bhead" using xs(2) j by auto
  moreover have "links bs (bhead # zs @ [j])" "b_prev (bs ! bhead) = j"
    using xs(3) links_snoc [of bs "bhead # zs" j bhead] unfolding j by simp_all
  ultimately show "bscan 31 b_prev P bs (b_prev (bs ! bhead)) = Some (find (\<lambda>j. P (bs ! j)) (rev xs))"
    using bscan_prev [of bs zs j 31 P] len j by simp
qed

text \<open>A buffer taken over for another block.\<close>

definition recycle :: "u32 \<Rightarrow> u32 \<Rightarrow> buf \<Rightarrow> buf" where
  "recycle dev blockno x = x\<lparr>b_dev := dev, b_blockno := blockno, b_valid := False, b_dirty := False, b_refcnt := 1\<rparr>"

text \<open>A buffer with one more reference, locked by the current process.\<close>

definition grab :: "nat \<Rightarrow> (buf \<Rightarrow> buf) \<Rightarrow> 'a idest_scheme \<Rightarrow> 'a idest_scheme" where
  "grab b f s = (updb b f s)\<lparr>slocks := (slocks s)(SlBuf b :=
     \<lparr>sl_locked = True, sl_pid = p_pid (procs s ! the (cpu_proc s))\<rparr>)\<rparr>"

lemma bget_eq:
  assumes m: "mru (bufs s) xs" and p: "LBcache \<notin> set (held s)" "cpu_proc s = Some i"
    and free: "\<And>b. sl_spin (SlBuf b) \<notin> set (held s)"
  shows "find (\<lambda>j. b_dev (bufs s ! j) = dev \<and> b_blockno (bufs s ! j) = n) xs = Some b \<Longrightarrow> \<not> sl_locked (slocks s (SlBuf b)) \<Longrightarrow>
      bget dev n s = Ret b (grab b (\<lambda>x. x\<lparr>b_refcnt := b_refcnt x + 1\<rparr>) s)"
    "find (\<lambda>j. b_dev (bufs s ! j) = dev \<and> b_blockno (bufs s ! j) = n) xs = None \<Longrightarrow>
      find (\<lambda>j. b_refcnt (bufs s ! j) = 0 \<and> \<not> b_dirty (bufs s ! j)) (rev xs) = Some b \<Longrightarrow> \<not> sl_locked (slocks s (SlBuf b)) \<Longrightarrow>
      bget dev n s = Ret b (grab b (recycle dev n) s)"
    "find (\<lambda>j. b_dev (bufs s ! j) = dev \<and> b_blockno (bufs s ! j) = n) xs = None \<Longrightarrow>
      find (\<lambda>j. b_refcnt (bufs s ! j) = 0 \<and> \<not> b_dirty (bufs s ! j)) (rev xs) = None \<Longrightarrow>
      bget dev n s = Panic ''bget: no buffers''"
proof -
  have len: "length (bufs s) = 31" using m by (simp add: mru_def)
  have h: "bufs (s\<lparr>held := x\<rparr>) = bufs s" for x by simp
  note d = bget_def grab_def recycle_def mru_scan [OF m] len h lock_acquire_simps(1) [OF p(1)]
  have fr: "LSleepBuf b \<notin> set (held s)" for b using free [of b] by simp
  show "find (\<lambda>j. b_dev (bufs s ! j) = dev \<and> b_blockno (bufs s ! j) = n) xs = Some b \<Longrightarrow> \<not> sl_locked (slocks s (SlBuf b)) \<Longrightarrow>
      bget dev n s = Ret b (grab b (\<lambda>x. x\<lparr>b_refcnt := b_refcnt x + 1\<rparr>) s)"
    using p fr by (simp add: d acquiresleep_free [of _ _ i] updb_def)
  show "find (\<lambda>j. b_dev (bufs s ! j) = dev \<and> b_blockno (bufs s ! j) = n) xs = None \<Longrightarrow>
      find (\<lambda>j. b_refcnt (bufs s ! j) = 0 \<and> \<not> b_dirty (bufs s ! j)) (rev xs) = Some b \<Longrightarrow> \<not> sl_locked (slocks s (SlBuf b)) \<Longrightarrow>
      bget dev n s = Ret b (grab b (recycle dev n) s)"
    using p fr by (simp add: d acquiresleep_free [of _ _ i] updb_def)
  show "find (\<lambda>j. b_dev (bufs s ! j) = dev \<and> b_blockno (bufs s ! j) = n) xs = None \<Longrightarrow>
      find (\<lambda>j. b_refcnt (bufs s ! j) = 0 \<and> \<not> b_dirty (bufs s ! j)) (rev xs) = None \<Longrightarrow>
      bget dev n s = Panic ''bget: no buffers''"
    using p by (simp add: d)
qed

section \<open>The cache as seen by the file system\<close>

text \<open>No process sleeps on a channel of the file system: the file system is used by one process at a time.\<close>

definition fs_quiet :: "'a idest_scheme \<Rightarrow> bool" where
  "fs_quiet s \<longleftrightarrow> (\<forall>p\<in>set (procs s). p_state p = SLEEPING \<longrightarrow>
     (case p_chan p of ChLog \<Rightarrow> False | ChBuf _ \<Rightarrow> False | ChBufLock _ \<Rightarrow> False | ChInodeLock _ \<Rightarrow> False | _ \<Rightarrow> True))"

lemma quiet_woken:
  "fs_quiet s \<Longrightarrow> woken (ChBuf b) (procs s) = procs s" "fs_quiet s \<Longrightarrow> woken (ChBufLock b) (procs s) = procs s"
  "fs_quiet s \<Longrightarrow> woken (ChInodeLock b) (procs s) = procs s" "fs_quiet s \<Longrightarrow> woken ChLog (procs s) = procs s"
  by (rule woken_quiet; auto simp: fs_quiet_def sleeps_on_def)+

definition mypid :: "'a ptab_scheme \<Rightarrow> int" where
  "mypid s = p_pid (procs s ! the (cpu_proc s))"

text \<open>
  One buffer of the cache, between two operations of the process with pid \<open>pid\<close>: the blocks belong to device 1, a locked buffer is
  the caller's and valid, and an unlocked valid buffer that is not dirty holds what the disk holds.
\<close>

definition bslot :: "disk \<Rightarrow> int \<Rightarrow> sleeplock \<Rightarrow> buf \<Rightarrow> bool" where
  "bslot d pid lk x \<longleftrightarrow> (b_dev x = 0 \<or> b_dev x = 1 \<and> b_blockno x < 1000) \<and> (b_dirty x \<longrightarrow> b_valid x \<and> b_dev x = 1) \<and>
     (if sl_locked lk then sl_pid lk = pid \<and> b_refcnt x = 1 \<and> b_valid x \<and> b_dev x = 1
      else b_refcnt x = 0 \<and> (b_valid x \<and> \<not> b_dirty x \<and> b_dev x = 1 \<longrightarrow> b_data x = d 1 (b_blockno x)))"

definition buniq :: "buf list \<Rightarrow> bool" where
  "buniq bs \<longleftrightarrow> (\<forall>i<30. \<forall>j<30. b_dev (bs ! i) = 1 \<and> b_dev (bs ! j) = 1 \<and> b_blockno (bs ! i) = b_blockno (bs ! j) \<longrightarrow> i = j)"

definition bio_ok :: "'a idest_scheme \<Rightarrow> bool" where
  "bio_ok s \<longleftrightarrow> ptab_ok s \<and> fs_quiet s \<and> held s = [] \<and> cpu_proc s \<noteq> None \<and> idequeue s = None \<and> ide_errs s = [] \<and>
     havedisk1 s \<and> fssize s = 1000 \<and> (\<exists>xs. mru (bufs s) xs) \<and> buniq (bufs s) \<and>
     (\<forall>b<30. bslot (disk s) (mypid s) (slocks s (SlBuf b)) (bufs s ! b))"

text \<open>The contents of a block of device 1: its valid buffer, or else the disk.\<close>

definition in_buf :: "buf list \<Rightarrow> u32 \<Rightarrow> nat \<Rightarrow> bool" where
  "in_buf bs n b \<longleftrightarrow> b < 30 \<and> b_dev (bs ! b) = 1 \<and> b_blockno (bs ! b) = n \<and> b_valid (bs ! b)"

definition blk :: "'a idest_scheme \<Rightarrow> u32 \<Rightarrow> u8 list" where
  "blk s n = (case find (in_buf (bufs s) n) [0..<30] of Some b \<Rightarrow> b_data (bufs s ! b) | None \<Rightarrow> disk s 1 n)"

definition block_locked :: "'a idest_scheme \<Rightarrow> u32 \<Rightarrow> bool" where
  "block_locked s n \<longleftrightarrow> (\<exists>b. in_buf (bufs s) n b \<and> sl_locked (slocks s (SlBuf b)))"

definition block_dirty :: "'a idest_scheme \<Rightarrow> u32 \<Rightarrow> bool" where
  "block_dirty s n \<longleftrightarrow> (\<exists>b. in_buf (bufs s) n b \<and> b_dirty (bufs s ! b))"

lemma in_buf_unique: "buniq bs \<Longrightarrow> in_buf bs n a \<Longrightarrow> in_buf bs n b \<Longrightarrow> a = b"
  by (auto simp: in_buf_def buniq_def)

lemma blk_in:
  assumes "buniq (bufs s)" "in_buf (bufs s) n b"
  shows "blk s n = b_data (bufs s ! b)"
proof (cases "find (in_buf (bufs s) n) [0..<30]")
  case None
  then show ?thesis using assms(2) by (auto simp: find_None_iff in_buf_def)
next
  case (Some a)
  then have "in_buf (bufs s) n a" by (auto simp: find_Some_iff)
  then show ?thesis using in_buf_unique [OF assms] Some by (simp add: blk_def)
qed

lemma blk_out: "(\<And>b. \<not> in_buf (bufs s) n b) \<Longrightarrow> blk s n = disk s 1 n"
  unfolding blk_def by (cases "find (in_buf (bufs s) n) [0..<30]") (auto simp: find_Some_iff)

text \<open>The state without what an operation of the cache may change: the cache, its locks, the disk.\<close>

definition bview :: "'a idest_scheme \<Rightarrow> 'a idest_scheme" where
  "bview s = s\<lparr>slocks := (slocks s) \<circ> (\<lambda>k. case k of SlBuf _ \<Rightarrow> SlInode 0 | SlInode i \<Rightarrow> SlInode i), bufs := [], ide_cmd := None,
     disk := (\<lambda>_ _. []), dwrites := []\<rparr>"

lemma bview_fields:
  assumes "bview t = bview s"
  shows "procs t = procs s" "cpu_proc t = cpu_proc s" "held t = held s" "idequeue t = idequeue s" "ide_errs t = ide_errs s"
    "havedisk1 t = havedisk1 s" "fssize t = fssize s" "nextpid t = nextpid s" "slocks t (SlInode k) = slocks s (SlInode k)" "mem t = mem s" "idest.more t = idest.more s"
proof -
  note c = arg_cong [OF assms]
  show "procs t = procs s" "cpu_proc t = cpu_proc s" "held t = held s" "idequeue t = idequeue s" "ide_errs t = ide_errs s"
    "havedisk1 t = havedisk1 s" "fssize t = fssize s" "nextpid t = nextpid s" "slocks t (SlInode k) = slocks s (SlInode k)" "mem t = mem s" "idest.more t = idest.more s"
    using c [of procs] c [of cpu_proc] c [of held] c [of idequeue] c [of ide_errs] c [of havedisk1] c [of fssize] c [of nextpid]
      c [of "\<lambda>s. slocks s (SlInode k)"] c [of mem] c [of idest.more] by (simp_all add: bview_def)
qed

definition rw_after :: "nat \<Rightarrow> 'a idest_scheme \<Rightarrow> 'a idest_scheme" where
  "rw_after b s = s\<lparr>bufs := (bufs s)[b := served False (disk s) ((bufs s ! b)\<lparr>b_qnext := None\<rparr>)],
     ide_cmd := Some (cmd_of (bufs s ! b)), disk := disk_after (disk s) (bufs s ! b),
     dwrites := writes_after (bufs s ! b) (dwrites s)\<rparr>"

lemma iderw_quiet:
  assumes "ptab_ok s" "fs_quiet s" "held s = []" "cpu_proc s \<noteq> None" "idequeue s = None" "ide_errs s = []" "havedisk1 s" "fssize s = 1000"
    and "b < length (bufs s)" "slocks s (SlBuf b) = \<lparr>sl_locked = True, sl_pid = mypid s\<rparr>"
    and "\<not> b_valid (bufs s ! b) \<or> b_dirty (bufs s ! b)" "b_blockno (bufs s ! b) < 1000"
  shows "iderw b s = Ret () (rw_after b s)"
proof -
  obtain i where i: "cpu_proc s = Some i" using assms(4) by auto
  have ok: "ide_ok s []" using assms(5,8) by (simp add: ide_ok_def)
  have r: "iderw b s = Ret () (after_intr b [] (rw_start [] b s)\<lparr>held := []\<rparr>)"
    using iderw_eq [OF ok assms(1,3) i assms(9)] assms(7,8,10,11,12) i by (simp add: mypid_def)
  have x: "rw_start [] b s = s\<lparr>held := [LIde], bufs := (bufs s)[b := (bufs s ! b)\<lparr>b_qnext := None\<rparr>],
      idequeue := Some b, ide_cmd := Some (cmd_of (bufs s ! b))\<rparr>"
    by (simp add: rw_start_def q_bufs_def q_head_def)
  have "after_intr b [] (rw_start [] b s)\<lparr>held := []\<rparr> = rw_after b s"
    using assms(3,5,6,9) quiet_woken(1) [OF assms(2), of b] unfolding x
    by (intro idest.equality) (simp_all add: after_intr_def rw_after_def served_def disk_after_def writes_after_def intr_err_def)
  then show ?thesis using r by simp
qed

lemma rw_after_simps [simp]:
  "bview (rw_after b s) = bview s" "slocks (rw_after b s) = slocks s" "length (bufs (rw_after b s)) = length (bufs s)"
  by (simp_all add: rw_after_def bview_def)

lemma links_core:
  assumes "\<And>i. i < length bs \<Longrightarrow> b_next (bs' ! i) = b_next (bs ! i)" "\<And>i. i < length bs \<Longrightarrow> b_prev (bs' ! i) = b_prev (bs ! i)"
    and "links bs xs" "set xs \<subseteq> {..<length bs}"
  shows "links bs' xs"
proof -
  have "i < length bs" if "i \<in> set (butlast xs) \<or> i \<in> set (tl xs)" for i
    using that assms(4) in_set_butlastD [of i xs] list.set_sel(2) [of xs i] by (cases xs) auto
  then show ?thesis using assms by (subst links_cong [where bs = bs]) auto
qed

lemma mru_updb:
  assumes "mru bs xs" "b_next x = b_next (bs ! b)" "b_prev x = b_prev (bs ! b)"
  shows "mru (bs[b := x]) xs"
proof -
  have "b_next (bs[b := x] ! i) = b_next (bs ! i)" "b_prev (bs[b := x] ! i) = b_prev (bs ! i)" if "i < length bs" for i
    using assms(2,3) that by (auto simp: nth_upd)
  moreover have "links bs (bhead # xs @ [bhead])" "set (bhead # xs @ [bhead]) \<subseteq> {..<length bs}"
    using assms(1) by (auto simp: mru_def)
  ultimately have "links (bs[b := x]) (bhead # xs @ [bhead])" by (rule links_core)
  then show ?thesis using assms(1) by (simp add: mru_def)
qed


text \<open>Changing one buffer, its lock and the disk block of that buffer keeps the cache in order.\<close>

lemma bio_ok_change:
  assumes ok: "bio_ok s" and b: "b < 30" and v: "bview t = bview s"
    and bufs: "bufs t = (bufs s)[b := x]" and lk: "\<And>k. k \<noteq> SlBuf b \<Longrightarrow> slocks t k = slocks s k"
    and lnk: "b_next x = b_next (bufs s ! b)" "b_prev x = b_prev (bufs s ! b)"
    and slot: "bslot (disk t) (mypid s) (slocks t (SlBuf b)) x"
    and un: "\<And>c. c < 30 \<Longrightarrow> c \<noteq> b \<Longrightarrow> b_dev x = 1 \<Longrightarrow> b_dev (bufs s ! c) = 1 \<Longrightarrow> b_blockno (bufs s ! c) \<noteq> b_blockno x"
    and dsk: "\<And>n. b_dev x \<noteq> 1 \<or> n \<noteq> b_blockno x \<Longrightarrow> disk t 1 n = disk s 1 n"
  shows "bio_ok t"
proof -
  obtain xs where xs: "mru (bufs s) xs" using ok by (auto simp: bio_ok_def)
  then have len: "length (bufs s) = 31" by (simp add: mru_def)
  have nth: "bufs t ! c = (if c = b then x else bufs s ! c)" if "c < 31" for c
    using that len by (auto simp: bufs nth_upd)
  note f = bview_fields [OF v]
  have "mru (bufs t) xs" using mru_updb [OF xs lnk] bufs by simp
  moreover have "buniq (bufs t)" unfolding buniq_def
  proof (intro allI impI)
    fix i j assume "i < (30 :: nat)" "j < (30 :: nat)"
      "b_dev (bufs t ! i) = 1 \<and> b_dev (bufs t ! j) = 1 \<and> b_blockno (bufs t ! i) = b_blockno (bufs t ! j)"
    then show "i = j" using ok un by (auto simp: nth bio_ok_def buniq_def split: if_splits)
  qed
  moreover have "bslot (disk t) (mypid t) (slocks t (SlBuf c)) (bufs t ! c)" if c: "c < 30" for c
  proof (cases "c = b")
    case True
    then show ?thesis using slot c f by (simp add: nth mypid_def)
  next
    case False
    then have "bslot (disk s) (mypid s) (slocks s (SlBuf c)) (bufs s ! c)" using ok c by (simp add: bio_ok_def)
    moreover have "b_dev (bufs s ! c) = 1 \<Longrightarrow> disk t 1 (b_blockno (bufs s ! c)) = disk s 1 (b_blockno (bufs s ! c))"
      using un [OF c False] dsk by blast
    ultimately show ?thesis using c False f lk [of "SlBuf c"] by (auto simp: bslot_def nth mypid_def)
  qed
  ultimately show ?thesis using ok f by (auto simp: bio_ok_def ptab_ok_def fs_quiet_def)
qed


definition locked_blocks :: "'a idest_scheme \<Rightarrow> u32 set" where
  "locked_blocks s = {n. \<exists>b. in_buf (bufs s) n b \<and> sl_locked (slocks s (SlBuf b))}"

definition dirty_blocks :: "'a idest_scheme \<Rightarrow> u32 set" where
  "dirty_blocks s = {n. \<exists>b. in_buf (bufs s) n b \<and> b_dirty (bufs s ! b)}"

lemma bio_okD:
  assumes "bio_ok s"
  shows "buniq (bufs s)" "length (bufs s) = 31" "b < 30 \<Longrightarrow> bslot (disk s) (mypid s) (slocks s (SlBuf b)) (bufs s ! b)"
    "held s = []" "ptab_ok s" "fs_quiet s"
  using assms by (auto simp: bio_ok_def mru_def)

lemma finite_blocks: "finite (locked_blocks s)" "finite (dirty_blocks s)"
proof -
  have "locked_blocks s \<union> dirty_blocks s \<subseteq> (\<lambda>b. b_blockno (bufs s ! b)) ` {..<30}"
    by (auto simp: locked_blocks_def dirty_blocks_def in_buf_def)
  then show "finite (locked_blocks s)" "finite (dirty_blocks s)" by (simp_all add: finite_subset)
qed

lemma free_buffer:
  assumes "bio_ok s" "card (locked_blocks s \<union> dirty_blocks s) < 30"
  shows "\<exists>b<30. \<not> sl_locked (slocks s (SlBuf b)) \<and> \<not> b_dirty (bufs s ! b)"
proof (rule ccontr)
  assume "\<not> ?thesis"
  then have all: "b < 30 \<Longrightarrow> sl_locked (slocks s (SlBuf b)) \<or> b_dirty (bufs s ! b)" for b by blast
  have inb: "in_buf (bufs s) (b_blockno (bufs s ! b)) b" if "b < 30" for b
    using bio_okD(3) [OF assms(1) that] all [OF that] that by (auto simp: bslot_def in_buf_def split: if_splits)
  have "inj_on (\<lambda>b. b_blockno (bufs s ! b)) {..<30}"
    using inb in_buf_unique [OF bio_okD(1) [OF assms(1)]] by (metis (no_types, lifting) inj_onI lessThan_iff)
  then have "card ((\<lambda>b. b_blockno (bufs s ! b)) ` {..<30}) = 30" by (simp add: card_image)
  moreover have "(\<lambda>b. b_blockno (bufs s ! b)) ` {..<30} \<subseteq> locked_blocks s \<union> dirty_blocks s"
    using inb all unfolding locked_blocks_def dirty_blocks_def by blast
  ultimately show False using assms(2) card_mono [of "locked_blocks s \<union> dirty_blocks s"] finite_blocks [of s]
    by (metis finite_UnI not_less)
qed

text \<open>
  The effect of \<^verbatim>\<open>bread\<close> on the cache: one unlocked buffer becomes the locked, valid buffer of the block.
\<close>

lemma bread_effect:
  assumes ok: "bio_ok s" and b: "b < 30" "\<not> sl_locked (slocks s (SlBuf b))" and n: "n < 1000"
    and v: "bview t = bview s" and d: "disk t = disk s" and bufs: "bufs t = (bufs s)[b := x]"
    and lk: "slocks t = (slocks s)(SlBuf b := \<lparr>sl_locked = True, sl_pid = mypid s\<rparr>)"
    and x: "b_next x = b_next (bufs s ! b)" "b_prev x = b_prev (bufs s ! b)" "b_dev x = 1" "b_blockno x = n" "b_valid x"
      "b_refcnt x = 1" "b_dirty x = b_dirty (bufs s ! b)" "b_data x = blk s n"
    and own: "\<And>c. c < 30 \<Longrightarrow> c \<noteq> b \<Longrightarrow> b_dev (bufs s ! c) = 1 \<Longrightarrow> b_blockno (bufs s ! c) \<noteq> n"
    and dirty: "b_dirty (bufs s ! b) \<Longrightarrow> b_blockno (bufs s ! b) = n"
  shows "bio_ok t" "in_buf (bufs t) n b" "blk t = blk s" "locked_blocks t = insert n (locked_blocks s)" "dirty_blocks t = dirty_blocks s"
    "\<forall>m c. in_buf (bufs s) m c \<and> sl_locked (slocks s (SlBuf c)) \<longrightarrow> in_buf (bufs t) m c \<and> sl_locked (slocks t (SlBuf c))"
    "sl_locked (slocks t (SlBuf b))"
proof -
  note okd = bio_okD [OF ok]
  show okt: "bio_ok t"
    by (rule bio_ok_change [OF ok b(1) v bufs]) (use x own d n in \<open>auto simp: lk bslot_def\<close>)
  have nth: "bufs t ! c = (if c = b then x else bufs s ! c)" if "c < 30" for c
    using that okd(2) by (simp add: bufs nth_upd)
  have inn: "in_buf (bufs t) m c = (if c = b then m = n else in_buf (bufs s) m c)" for m c
    using x b by (auto simp: in_buf_def nth)
  then show inb: "in_buf (bufs t) n b" by simp
  have old: "b_dirty (bufs s ! b) \<Longrightarrow> in_buf (bufs s) n b"
    using okd(3) [OF b(1)] dirty b by (auto simp: bslot_def in_buf_def)
  show "blk t = blk s"
  proof
    fix m show "blk t m = blk s m"
    proof (cases "m = n")
      case True
      then show ?thesis using blk_in [OF bio_okD(1) [OF okt] inb] b x by (simp add: nth)
    next
      case False
      show ?thesis
      proof (cases "\<exists>c. in_buf (bufs s) m c \<and> c \<noteq> b")
        case True
        then obtain c where c: "in_buf (bufs s) m c" "c \<noteq> b" by blast
        then have "in_buf (bufs t) m c" "c < 30" by (simp_all add: inn) (simp add: in_buf_def)
        then show ?thesis using blk_in [OF bio_okD(1) [OF okt]] blk_in [OF okd(1) c(1)] c(2) by (simp add: nth)
      next
        case none: False
        then have "\<not> in_buf (bufs t) m c" for c using False by (auto simp: inn)
        then have "blk t m = disk s 1 m" using blk_out [of t m] d by simp
        moreover have "blk s m = disk s 1 m"
        proof (cases "in_buf (bufs s) m b")
          case True
          then have "\<not> b_dirty (bufs s ! b)" using dirty False by (auto simp: in_buf_def)
          then show ?thesis using blk_in [OF okd(1) True] okd(3) [OF b(1)] True b(2) by (simp add: bslot_def in_buf_def)
        next
          case no: False
          then show ?thesis using none blk_out by blast
        qed
        ultimately show ?thesis by simp
      qed
    qed
  qed
  show "\<forall>m c. in_buf (bufs s) m c \<and> sl_locked (slocks s (SlBuf c)) \<longrightarrow> in_buf (bufs t) m c \<and> sl_locked (slocks t (SlBuf c))"
    using b(2) by (auto simp: inn lk)
  show "sl_locked (slocks t (SlBuf b))" by (simp add: lk)
  show "locked_blocks t = insert n (locked_blocks s)"
    using b(2) by (auto simp: locked_blocks_def inn lk split: if_splits)
  show "dirty_blocks t = dirty_blocks s"
    using x old b in_buf_unique [OF okd(1)] by (auto simp: dirty_blocks_def inn nth in_buf_def split: if_splits) 
qed


lemma bview_grab [simp]: "bview (grab b f s) = bview s"
  by (auto simp: bview_def grab_def updb_def fun_eq_iff split: slid.split)

lemma find_in: "find P xs = Some x \<Longrightarrow> x \<in> set xs \<and> P x"
  by (induction xs) (auto split: if_splits)

lemma bread_Ret:
  assumes ok: "bio_ok s" and n: "n < 1000" "n \<notin> locked_blocks s" and free: "n \<in> dirty_blocks s \<or> card (locked_blocks s \<union> dirty_blocks s) < 30"
  shows "\<exists>b t. bread 1 n s = Ret b t \<and> bio_ok t \<and> bview t = bview s \<and> in_buf (bufs t) n b \<and> blk t = blk s \<and> disk t = disk s \<and>
    dwrites t = dwrites s \<and> locked_blocks t = insert n (locked_blocks s) \<and> dirty_blocks t = dirty_blocks s \<and>
    sl_locked (slocks t (SlBuf b)) \<and>
    (\<forall>m c. in_buf (bufs s) m c \<and> sl_locked (slocks s (SlBuf c)) \<longrightarrow> in_buf (bufs t) m c \<and> sl_locked (slocks t (SlBuf c)))"
proof -
  note okd = bio_okD [OF ok]
  obtain xs where xs: "mru (bufs s) xs" using ok by (auto simp: bio_ok_def)
  obtain i where i: "cpu_proc s = Some i" using ok by (auto simp: bio_ok_def)
  have st: "set xs = {..<30}" using xs by (simp add: mru_def)
  let ?P = "\<lambda>j. b_dev (bufs s ! j) = 1 \<and> b_blockno (bufs s ! j) = n"
  let ?Q = "\<lambda>j. b_refcnt (bufs s ! j) = 0 \<and> \<not> b_dirty (bufs s ! j)"
  note get = bget_eq [OF xs _ i]
  have h: "LBcache \<notin> set (held s)" "\<And>b. sl_spin (SlBuf b) \<notin> set (held s)" using okd(4) by simp_all
  have lockd: "sl_locked (slocks s (SlBuf b)) \<Longrightarrow> ?P b \<Longrightarrow> b < 30 \<Longrightarrow> False" for b
    using okd(3) [of b] n(2) by (auto simp: bslot_def locked_blocks_def in_buf_def)
  have rd: "iderw b u = Ret () (rw_after b u)"
    if "u = grab b f s" "b < 30" "b_blockno (f (bufs s ! b)) = n" "\<not> b_valid (f (bufs s ! b))" for u b f
    using ok that n okd(2) i
    by (intro iderw_quiet) (auto simp: bio_ok_def grab_def updb_def mypid_def fs_quiet_def ptab_ok_def)
  have miss: ?thesis
    if g: "bget 1 n s = Ret b (grab b f s)" and b: "b < 30" "\<not> sl_locked (slocks s (SlBuf b))" "\<not> b_dirty (bufs s ! b)"
      and x: "x = f (bufs s ! b)" "\<not> b_valid x" "\<not> b_dirty x" "b_dev x = 1" "b_blockno x = n" "b_refcnt x = 1"
        "b_next x = b_next (bufs s ! b)" "b_prev x = b_prev (bufs s ! b)"
      and own: "\<And>c. c < 30 \<Longrightarrow> c \<noteq> b \<Longrightarrow> b_dev (bufs s ! c) = 1 \<Longrightarrow> b_blockno (bufs s ! c) \<noteq> n"
      and nin: "\<not> in_buf (bufs s) n b" for b f x
  proof -
    let ?u = "grab b f s" and ?y = "served False (disk s) (x\<lparr>b_qnext := None\<rparr>)"
    let ?t = "rw_after b ?u"
    have u: "bufs ?u = (bufs s)[b := x]" "disk ?u = disk s" "dwrites ?u = dwrites s"
      "slocks ?u = (slocks s)(SlBuf b := \<lparr>sl_locked = True, sl_pid = mypid s\<rparr>)" using x(1) by (simp_all add: grab_def mypid_def)
    have ub: "bufs ?u ! b = x" using u(1) b(1) okd(2) by simp
    have t: "bufs ?t = (bufs s)[b := ?y]" "disk ?t = disk s" "dwrites ?t = dwrites s" "slocks ?t = slocks ?u"
      using u ub x by (simp_all add: rw_after_def disk_after_def writes_after_def)
    have tv: "bview ?t = bview s" by simp
    have r: "bread 1 n s = Ret b ?t" using g ub x rd [OF refl b(1), of f] by (simp add: bread_def)
    have "\<not> in_buf (bufs s) n c" for c using own nin by (auto simp: in_buf_def)
    then have bl: "blk s n = disk s 1 n" by (rule blk_out)
    have y: "b_next ?y = b_next (bufs s ! b)" "b_prev ?y = b_prev (bufs s ! b)" "b_dev ?y = 1" "b_blockno ?y = n" "b_valid ?y"
      "b_refcnt ?y = 1" "b_dirty ?y = b_dirty (bufs s ! b)" "b_data ?y = blk s n" using x b(3) bl by (simp_all add: served_def)
    have lk: "slocks ?t = (slocks s)(SlBuf b := \<lparr>sl_locked = True, sl_pid = mypid s\<rparr>)" using t(4) u(4) by simp
    have di: "b_dirty (bufs s ! b) \<Longrightarrow> b_blockno (bufs s ! b) = n" using b(3) by blast
    note e = bread_effect [OF ok b(1,2) n(1) tv t(2,1) lk y own di]
    show ?thesis using r e t(2,3) tv by (intro exI [of _ b] exI [of _ ?t] conjI) assumption+
  qed
  show ?thesis
  proof (cases "find ?P xs")
    case (Some b)
    then have b: "?P b" "b < 30" using find_in [OF Some] st by auto
    then have nl: "\<not> sl_locked (slocks s (SlBuf b))" using lockd by blast
    then have rc: "b_refcnt (bufs s ! b) = 0" "b_dirty (bufs s ! b) \<longrightarrow> b_valid (bufs s ! b)"
      using okd(3) [OF b(2)] by (simp_all add: bslot_def)
    let ?f = "\<lambda>x. x\<lparr>b_refcnt := b_refcnt x + 1\<rparr>"
    let ?u = "grab b ?f s"
    have g: "bget 1 n s = Ret b ?u" using get(1) h Some nl by blast
    have own: "c < 30 \<Longrightarrow> c \<noteq> b \<Longrightarrow> b_dev (bufs s ! c) = 1 \<Longrightarrow> b_blockno (bufs s ! c) \<noteq> n" for c
      using okd(1) b by (auto simp: buniq_def)
    show ?thesis
    proof (cases "b_valid (bufs s ! b)")
      case True
      have u: "bufs ?u = (bufs s)[b := (bufs s ! b)\<lparr>b_refcnt := 1\<rparr>]" using rc by (simp add: grab_def)
      have bl: "b_data (bufs s ! b) = blk s n" using blk_in [OF okd(1), of n b] b True by (simp add: in_buf_def)
      have r: "bread 1 n s = Ret b ?u" using g True b okd(2) by (simp add: bread_def u)
      have d: "disk ?u = disk s" "dwrites ?u = dwrites s"
        "slocks ?u = (slocks s)(SlBuf b := \<lparr>sl_locked = True, sl_pid = mypid s\<rparr>)" by (simp_all add: grab_def mypid_def)
      let ?y = "(bufs s ! b)\<lparr>b_refcnt := 1\<rparr>"
      have y: "b_next ?y = b_next (bufs s ! b)" "b_prev ?y = b_prev (bufs s ! b)" "b_dev ?y = 1" "b_blockno ?y = n" "b_valid ?y"
        "b_refcnt ?y = 1" "b_dirty ?y = b_dirty (bufs s ! b)" "b_data ?y = blk s n" using b True bl by simp_all
      have di: "b_dirty (bufs s ! b) \<Longrightarrow> b_blockno (bufs s ! b) = n" using b by blast
      note e = bread_effect [OF ok b(2) nl n(1) bview_grab d(1) u d(3) y own di]
      show ?thesis using r e d(1,2) by (intro exI [of _ b] exI [of _ ?u] conjI bview_grab) assumption+
    next
      case False
      then have "\<not> b_dirty (bufs s ! b)" "\<not> in_buf (bufs s) n b" using rc by (auto simp: in_buf_def)
      then show ?thesis using miss [OF g b(2) nl _ refl] own False b rc by simp
    qed
  next
    case None
    then have own: "c < 30 \<Longrightarrow> b_dev (bufs s ! c) = 1 \<Longrightarrow> b_blockno (bufs s ! c) \<noteq> n" for c
      using st by (auto simp: find_None_iff)
    have "n \<notin> dirty_blocks s" using own by (auto simp: dirty_blocks_def in_buf_def)
    then have "\<exists>b\<in>set (rev xs). ?Q b"
      using free_buffer [OF ok] free okd(3) st by (auto simp: bslot_def)
    then have "find ?Q (rev xs) \<noteq> None" by (auto simp: find_None_iff)
    then obtain b where b: "find ?Q (rev xs) = Some b" by blast
    then have q: "?Q b" "b < 30" using find_in [OF b] st by auto
    then have nl: "\<not> sl_locked (slocks s (SlBuf b))" using okd(3) [OF q(2)] by (auto simp: bslot_def)
    have g: "bget 1 n s = Ret b (grab b (recycle 1 n) s)" using get(2) h None b nl by blast
    have "\<not> in_buf (bufs s) n b" using own q(2) by (auto simp: in_buf_def)
    then show ?thesis using miss [OF g q(2) nl _ refl] own q by (simp add: recycle_def)
  qed
qed


text \<open>The caller holds the buffer \<open>b\<close> of block \<open>n\<close>.\<close>

definition holds_buf :: "'a idest_scheme \<Rightarrow> u32 \<Rightarrow> nat \<Rightarrow> bool" where
  "holds_buf s n b \<longleftrightarrow> in_buf (bufs s) n b \<and> sl_locked (slocks s (SlBuf b))"

lemma held_effect:
  assumes ok: "bio_ok s" and h: "holds_buf s n b" and v: "bview t = bview s" and bufs: "bufs t = (bufs s)[b := x]"
    and lk: "slocks t = slocks s"
    and x: "b_next x = b_next (bufs s ! b)" "b_prev x = b_prev (bufs s ! b)" "b_dev x = 1" "b_blockno x = n" "b_valid x"
      "b_refcnt x = 1"
    and d: "\<And>m. m \<noteq> n \<Longrightarrow> disk t 1 m = disk s 1 m"
  shows "bio_ok t" "blk t = (blk s)(n := b_data x)" "locked_blocks t = locked_blocks s"
    "dirty_blocks t = (if b_dirty x then insert n (dirty_blocks s) else dirty_blocks s - {n})"
    "\<And>m c. holds_buf t m c = holds_buf s m c"
proof -
  note okd = bio_okD [OF ok]
  have b: "b < 30" "in_buf (bufs s) n b" and n: "n < 1000" and pid: "sl_locked (slocks s (SlBuf b)) \<and> sl_pid (slocks s (SlBuf b)) = mypid s"
    using h okd(3) [of b] by (auto simp: holds_buf_def in_buf_def bslot_def)
  have own: "c < 30 \<Longrightarrow> c \<noteq> b \<Longrightarrow> b_dev (bufs s ! c) = 1 \<Longrightarrow> b_blockno (bufs s ! c) \<noteq> n" for c
    using okd(1) b(2) by (auto simp: buniq_def in_buf_def)
  show okt: "bio_ok t"
    by (rule bio_ok_change [OF ok b(1) v bufs]) (use x own d n pid in \<open>auto simp: lk bslot_def\<close>)
  have nth: "bufs t ! c = (if c = b then x else bufs s ! c)" if "c < 30" for c
    using that okd(2) by (simp add: bufs nth_upd)
  have inn: "in_buf (bufs t) m c = in_buf (bufs s) m c" for m c
    using x b by (cases "c = b") (auto simp: in_buf_def nth)
  show "blk t = (blk s)(n := b_data x)"
  proof
    fix m show "blk t m = ((blk s)(n := b_data x)) m"
    proof (cases "\<exists>c. in_buf (bufs s) m c")
      case True
      then obtain c where c: "in_buf (bufs s) m c" by blast
      then have "blk t m = b_data (bufs t ! c)" "blk s m = b_data (bufs s ! c)" "c < 30"
        using blk_in [OF bio_okD(1) [OF okt]] blk_in [OF okd(1)] by (simp_all add: inn) (simp add: in_buf_def)
      moreover have "m = n \<longleftrightarrow> c = b" using c b in_buf_unique [OF okd(1)] by (auto simp: in_buf_def)
      ultimately show ?thesis by (simp add: nth)
    next
      case False
      then have "m \<noteq> n" using b(2) by blast
      then show ?thesis using False blk_out [of t m] blk_out [of s m] d by (simp add: inn)
    qed
  qed
  show "locked_blocks t = locked_blocks s" by (simp add: locked_blocks_def inn lk)
  show "holds_buf t m c = holds_buf s m c" for m c by (simp add: holds_buf_def inn lk)
  show "dirty_blocks t = (if b_dirty x then insert n (dirty_blocks s) else dirty_blocks s - {n})"
  proof (intro set_eqI)
    fix m
    have "m \<in> dirty_blocks t \<longleftrightarrow> (\<exists>c. in_buf (bufs s) m c \<and> b_dirty (if c = b then x else bufs s ! c))"
      unfolding dirty_blocks_def inn by (auto simp: in_buf_def nth)
    then have iff: "m \<in> dirty_blocks t \<longleftrightarrow> (\<exists>c. in_buf (bufs s) m c \<and> b_dirty (if c = b then x else bufs s ! c))" .
    have eq: "c = b \<longleftrightarrow> m = n" if "in_buf (bufs s) m c" for c
      using that b in_buf_unique [OF okd(1)] by (auto simp: in_buf_def)
    show "m \<in> dirty_blocks t \<longleftrightarrow> m \<in> (if b_dirty x then insert n (dirty_blocks s) else dirty_blocks s - {n})"
    proof (cases "m = n")
      case True
      then have "m \<in> dirty_blocks t \<longleftrightarrow> b_dirty x" unfolding iff using b(2) eq by (metis (full_types))
      then show ?thesis using True by simp
    next
      case False
      have "m \<in> dirty_blocks s \<longleftrightarrow> (\<exists>c. in_buf (bufs s) m c \<and> b_dirty (bufs s ! c))" by (simp add: dirty_blocks_def)
      then have "m \<in> dirty_blocks t \<longleftrightarrow> m \<in> dirty_blocks s" unfolding iff using False eq by (metis (full_types))
      then show ?thesis using False by simp
    qed
  qed
qed

lemma held_fields:
  assumes "bio_ok s" "holds_buf s n b"
  shows "b < 30" "b < length (bufs s)" "b_dev (bufs s ! b) = 1" "b_blockno (bufs s ! b) = n" "b_valid (bufs s ! b)" "b_refcnt (bufs s ! b) = 1"
    "slocks s (SlBuf b) = \<lparr>sl_locked = True, sl_pid = mypid s\<rparr>" "n < 1000" "b_data (bufs s ! b) = blk s n"
    "n \<in> locked_blocks s"
proof -
  have i: "in_buf (bufs s) n b" "sl_locked (slocks s (SlBuf b))" using assms(2) by (simp_all add: holds_buf_def)
  then show b: "b < 30" "b_dev (bufs s ! b) = 1" "b_blockno (bufs s ! b) = n" "b_valid (bufs s ! b)" by (simp_all add: in_buf_def)
  then show "b < length (bufs s)" using bio_okD(2) [OF assms(1)] by simp
  have "bslot (disk s) (mypid s) (slocks s (SlBuf b)) (bufs s ! b)" using bio_okD(3) [OF assms(1) b(1)] .
  then have k: "b_refcnt (bufs s ! b) = 1" "sl_pid (slocks s (SlBuf b)) = mypid s" "n < 1000"
    using b i(2) unfolding bslot_def by simp_all
  then show "b_refcnt (bufs s ! b) = 1" "n < 1000" by blast+
  show "slocks s (SlBuf b) = \<lparr>sl_locked = True, sl_pid = mypid s\<rparr>" using k(2) i(2) by (intro sleeplock.equality) simp_all
  show "b_data (bufs s ! b) = blk s n" using blk_in [OF bio_okD(1) [OF assms(1)] i(1)] by simp
  show "n \<in> locked_blocks s" using i unfolding locked_blocks_def by blast
qed

lemma bview_updb [simp]: "bview (updb b f s) = bview s"
  by (simp add: bview_def updb_def)

text \<open>Changing the data of a buffer, and marking it dirty.\<close>

lemma bset_effect:
  assumes "bio_ok s" "holds_buf s n b"
  shows "bio_ok (updb b (\<lambda>x. x\<lparr>b_data := d\<rparr>) s)" "blk (updb b (\<lambda>x. x\<lparr>b_data := d\<rparr>) s) = (blk s)(n := d)"
    "locked_blocks (updb b (\<lambda>x. x\<lparr>b_data := d\<rparr>) s) = locked_blocks s"
    "dirty_blocks (updb b (\<lambda>x. x\<lparr>b_data := d\<rparr>) s) = dirty_blocks s"
    "holds_buf (updb b (\<lambda>x. x\<lparr>b_data := d\<rparr>) s) m c = holds_buf s m c"
proof -
  note f = held_fields [OF assms]
  have "n \<in> dirty_blocks s \<longleftrightarrow> b_dirty (bufs s ! b)"
    using assms in_buf_unique [OF bio_okD(1) [OF assms(1)]] by (auto simp: holds_buf_def dirty_blocks_def)
  then show "bio_ok (updb b (\<lambda>x. x\<lparr>b_data := d\<rparr>) s)" "blk (updb b (\<lambda>x. x\<lparr>b_data := d\<rparr>) s) = (blk s)(n := d)"
    "locked_blocks (updb b (\<lambda>x. x\<lparr>b_data := d\<rparr>) s) = locked_blocks s"
    "dirty_blocks (updb b (\<lambda>x. x\<lparr>b_data := d\<rparr>) s) = dirty_blocks s"
    "holds_buf (updb b (\<lambda>x. x\<lparr>b_data := d\<rparr>) s) m c = holds_buf s m c"
    using held_effect [OF assms, where t = "updb b (\<lambda>x. x\<lparr>b_data := d\<rparr>) s"] f by auto
qed

lemma bpin_effect:
  assumes "bio_ok s" "holds_buf s n b"
  shows "bio_ok (updb b (\<lambda>x. x\<lparr>b_dirty := True\<rparr>) s)" "blk (updb b (\<lambda>x. x\<lparr>b_dirty := True\<rparr>) s) = blk s"
    "locked_blocks (updb b (\<lambda>x. x\<lparr>b_dirty := True\<rparr>) s) = locked_blocks s"
    "dirty_blocks (updb b (\<lambda>x. x\<lparr>b_dirty := True\<rparr>) s) = insert n (dirty_blocks s)"
    "holds_buf (updb b (\<lambda>x. x\<lparr>b_dirty := True\<rparr>) s) m c = holds_buf s m c"
  using held_effect [OF assms, where t = "updb b (\<lambda>x. x\<lparr>b_dirty := True\<rparr>) s"] held_fields [OF assms] by auto

lemma bwrite_Ret:
  assumes ok: "bio_ok s" and h: "holds_buf s n b"
  shows "\<exists>t. bwrite b s = Ret () t \<and> bio_ok t \<and> bview t = bview s \<and> blk t = blk s \<and>
    disk t = (disk s)(1 := (disk s 1)(n := blk s n)) \<and> dwrites t = (1, n, blk s n) # dwrites s \<and>
    locked_blocks t = locked_blocks s \<and> dirty_blocks t = dirty_blocks s - {n} \<and> (\<forall>m c. holds_buf t m c = holds_buf s m c)"
proof -
  note f = held_fields [OF assms]
  obtain i where i: "cpu_proc s = Some i" using ok by (auto simp: bio_ok_def)
  let ?u = "updb b (\<lambda>x. x\<lparr>b_dirty := True\<rparr>) s"
  let ?t = "rw_after b ?u" and ?x = "served False (disk s) ((bufs s ! b)\<lparr>b_dirty := True, b_qnext := None\<rparr>)"
  have hs: "holdingsleep (SlBuf b) s = Ret True s"
    using holdingsleep_Ret [OF i, of "SlBuf b"] f(7) bio_okD(4) [OF ok] i by (simp add: mypid_def)
  have "iderw b ?u = Ret () ?t"
    using ok f i by (intro iderw_quiet) (auto simp: bio_ok_def mypid_def fs_quiet_def)
  then have r: "bwrite b s = Ret () ?t" using hs by (simp add: bwrite_def)
  have t: "bufs ?t = (bufs s)[b := ?x]" "slocks ?t = slocks s" "disk ?t = (disk s)(1 := (disk s 1)(n := blk s n))"
    "dwrites ?t = (1, n, blk s n) # dwrites s"
    using f by (simp_all add: rw_after_def disk_after_def writes_after_def)
  have v: "bview ?t = bview s" by simp
  have x: "b_next ?x = b_next (bufs s ! b)" "b_prev ?x = b_prev (bufs s ! b)" "b_dev ?x = 1" "b_blockno ?x = n" "b_valid ?x"
    "b_refcnt ?x = 1" "\<not> b_dirty ?x" "b_data ?x = blk s n" using f by (simp_all add: served_def)
  have d: "m \<noteq> n \<Longrightarrow> disk ?t 1 m = disk s 1 m" for m using t(3) by simp
  note e = held_effect [OF ok h v t(1,2) x(1-6) d]
  have "(blk s)(n := b_data ?x) = blk s" using x(8) by simp
  then show ?thesis using r e v t(3,4) x(7) by (intro exI [of _ ?t]) simp
qed


lemma bcore_fields:
  assumes "bcore x = bcore y"
  shows "b_dev x = b_dev y" "b_blockno x = b_blockno y" "b_valid x = b_valid y" "b_dirty x = b_dirty y"
    "b_data x = b_data y" "b_refcnt x = b_refcnt y"
  using arg_cong [OF assms, of b_dev] arg_cong [OF assms, of b_blockno] arg_cong [OF assms, of b_valid] arg_cong [OF assms, of b_dirty]
    arg_cong [OF assms, of b_data] arg_cong [OF assms, of b_refcnt] by (simp_all add: bcore_def)

lemma bview_relink [simp]: "bview (blink b s) = bview s" "bview (bunlink b s) = bview s"
  "slocks (blink b s) = slocks s" "slocks (bunlink b s) = slocks s" "disk (blink b s) = disk s" "disk (bunlink b s) = disk s"
  "dwrites (blink b s) = dwrites s" "dwrites (bunlink b s) = dwrites s" "held (blink b s) = held s" "held (bunlink b s) = held s"
  by (simp_all add: blink_def bunlink_def Let_def)

lemma blink_held: "bunlink b (s\<lparr>held := h\<rparr>) = (bunlink b s)\<lparr>held := h\<rparr>" "blink b (s\<lparr>held := h\<rparr>) = (blink b s)\<lparr>held := h\<rparr>"
  "updb b f (s\<lparr>held := h\<rparr>) = (updb b f s)\<lparr>held := h\<rparr>"
  by (simp_all add: blink_def bunlink_def updb_def Let_def)

lemma bview_slocks: "bview (s\<lparr>slocks := (slocks s)(SlBuf b := z)\<rparr>) = bview s"
proof -
  have "(slocks s)(SlBuf b := z) \<circ> g = slocks s \<circ> g" if "\<And>k. g k \<noteq> SlBuf b" for g :: "slid \<Rightarrow> slid"
    using that by (auto simp: fun_eq_iff)
  then have "(slocks s)(SlBuf b := z) \<circ> (\<lambda>k. case k of SlBuf _ \<Rightarrow> SlInode 0 | SlInode i \<Rightarrow> SlInode i) =
      slocks s \<circ> (\<lambda>k. case k of SlBuf _ \<Rightarrow> SlInode 0 | SlInode i \<Rightarrow> SlInode i)"
    by (simp split: slid.split)
  then show ?thesis by (simp add: bview_def)
qed

lemma held_id: "held s = [] \<Longrightarrow> s\<lparr>held := []\<rparr> = s"
  by (cases s) simp

lemma brelse_Ret:
  assumes ok: "bio_ok s" and h: "holds_buf s n b" and sync: "n \<in> dirty_blocks s \<or> blk s n = disk s 1 n"
  shows "\<exists>t. brelse b s = Ret () t \<and> bio_ok t \<and> bview t = bview s \<and> blk t = blk s \<and> disk t = disk s \<and> dwrites t = dwrites s \<and>
    locked_blocks t = locked_blocks s - {n} \<and> dirty_blocks t = dirty_blocks s \<and>
    (\<forall>m c. m \<noteq> n \<longrightarrow> holds_buf t m c = holds_buf s m c)"
proof -
  note f = held_fields [OF ok h] and okd = bio_okD [OF ok]
  obtain i where i: "cpu_proc s = Some i" using ok by (auto simp: bio_ok_def)
  obtain xs where xs: "mru (bufs s) xs" using ok by (auto simp: bio_ok_def)
  let ?l = "(slocks s)(SlBuf b := \<lparr>sl_locked = False, sl_pid = 0\<rparr>)"
  let ?v = "updb b (\<lambda>x. x\<lparr>b_refcnt := b_refcnt x - 1\<rparr>) (s\<lparr>slocks := ?l\<rparr>)"
  let ?t = "blink b (bunlink b ?v)"
  have "holdingsleep (SlBuf b) s = Ret True s"
    using holdingsleep_Ret [OF i, of "SlBuf b"] f(7) okd(4) i by (simp add: mypid_def)
  moreover have "releasesleep (SlBuf b) s = Ret () (s\<lparr>slocks := ?l\<rparr>)"
    using releasesleep_Ret [OF okd(5), of "SlBuf b"] quiet_woken(2) [OF okd(6), of b] okd(4) by simp
  moreover have "?t\<lparr>held := []\<rparr> = ?t" using okd(4) by (intro held_id) simp
  ultimately have r: "brelse b s = Ret () ?t"
    using f(1,2,6) okd(4) by (simp add: brelse_def blink_held)
  let ?x = "(bufs s ! b)\<lparr>b_refcnt := 0\<rparr>"
  have vb: "bufs ?v = (bufs s)[b := ?x]" using f(6) by simp
  have m: "mru (bufs ?v) xs" unfolding vb by (rule mru_updb [OF xs]) simp_all
  note mt = mru_move [OF m f(1)]
  have len: "length (bufs ?v) = 31" using okd(2) by simp
  have core: "bcore (bufs ?t ! c) = bcore (if c = b then ?x else bufs s ! c)" if "c < 30" for c
    using that len okd(2) f(6) by (simp add: nth_upd)
  have fld: "b_dev (bufs ?t ! c) = b_dev (bufs s ! c)" "b_blockno (bufs ?t ! c) = b_blockno (bufs s ! c)"
    "b_valid (bufs ?t ! c) = b_valid (bufs s ! c)" "b_dirty (bufs ?t ! c) = b_dirty (bufs s ! c)"
    "b_data (bufs ?t ! c) = b_data (bufs s ! c)" "b_refcnt (bufs ?t ! c) = (if c = b then 0 else b_refcnt (bufs s ! c))" if "c < 30" for c
    using bcore_fields [OF core [OF that]] by (auto split: if_splits)
  have v: "bview ?t = bview s" by (simp add: bview_slocks)
  have sl: "slocks ?t = ?l" and dk: "disk ?t = disk s" "dwrites ?t = dwrites s" by (simp_all add: updb_def)
  have inn: "in_buf (bufs ?t) k c = in_buf (bufs s) k c" for k c using fld by (auto simp: in_buf_def)
  have dirty: "b_dirty (bufs s ! b) \<longleftrightarrow> n \<in> dirty_blocks s"
    using h in_buf_unique [OF okd(1)] by (auto simp: holds_buf_def dirty_blocks_def)
  have slot: "bslot (disk ?t) (mypid ?t) (slocks ?t (SlBuf c)) (bufs ?t ! c)" if c: "c < 30" for c
  proof (cases "c = b")
    case True
    then show ?thesis using okd(3) [OF c] f fld [OF c] dirty sync by (auto simp: bslot_def sl dk)
  next
    case False
    then show ?thesis using okd(3) [OF c] fld [OF c] bview_fields(1,2) [OF v] by (simp add: bslot_def sl dk mypid_def)
  qed
  have "buniq (bufs ?t)" using okd(1) fld unfolding buniq_def by simp
  then have okt: "bio_ok ?t" using ok mt slot bview_fields [OF v] by (auto simp: bio_ok_def ptab_ok_def fs_quiet_def)
  have "blk ?t k = blk s k" for k
  proof (cases "\<exists>c. in_buf (bufs s) k c")
    case True
    then obtain c where c: "in_buf (bufs s) k c" by blast
    then have "c < 30" by (simp add: in_buf_def)
    then show ?thesis using blk_in [OF bio_okD(1) [OF okt], of k c] blk_in [OF okd(1) c] c fld(5) by (simp add: inn)
  next
    case False
    then show ?thesis using blk_out [of ?t k] blk_out [of s k] dk by (simp add: inn)
  qed
  then have "blk ?t = blk s" by blast
  moreover have "locked_blocks ?t = locked_blocks s - {n}"
  proof -
    have eq: "c = b \<longleftrightarrow> k = n" if "in_buf (bufs s) k c" for k c
      using that h in_buf_unique [OF okd(1)] by (auto simp: holds_buf_def in_buf_def)
    have "k \<in> locked_blocks ?t \<longleftrightarrow> k \<in> locked_blocks s \<and> k \<noteq> n" for k
      unfolding locked_blocks_def mem_Collect_eq inn sl using eq by (metis fun_upd_apply sleeplock.select_convs(1) slid.inject(1))
    then show ?thesis by auto
  qed
  moreover have "dirty_blocks ?t = dirty_blocks s" unfolding dirty_blocks_def inn using fld(4) by (auto simp: in_buf_def)
  moreover have "holds_buf ?t k c = holds_buf s k c" if "k \<noteq> n" for k c
    using that h unfolding holds_buf_def inn sl by (auto simp: in_buf_def)
  ultimately show ?thesis using r okt v dk by blast
qed

lemma clean_blk:
  assumes "bio_ok s" "n \<notin> dirty_blocks s" "n \<notin> locked_blocks s"
  shows "blk s n = disk s 1 n"
proof (cases "\<exists>b. in_buf (bufs s) n b")
  case True
  then obtain b where b: "in_buf (bufs s) n b" by blast
  then have "\<not> b_dirty (bufs s ! b)" "\<not> sl_locked (slocks s (SlBuf b))" "b < 30"
    using assms(2,3) unfolding dirty_blocks_def locked_blocks_def in_buf_def by blast+
  then show ?thesis using bio_okD(3) [OF assms(1), of b] blk_in [OF bio_okD(1) [OF assms(1)] b] b by (simp add: bslot_def in_buf_def)
next
  case False
  then show ?thesis using blk_out by blast
qed

section \<open>The cache as an interface\<close>

text \<open>
  What the log and the file system rely on. \<open>rd\<close>, \<open>wr\<close> and \<open>rel\<close> are \<^verbatim>\<open>bread\<close>, \<^verbatim>\<open>bwrite\<close> and \<^verbatim>\<open>brelse\<close>; \<open>put\<close> stores into the data of
  a buffer that is held and \<open>pin\<close> marks it dirty. \<open>blk\<close> is the contents of each block as the system sees it, \<open>dsk\<close> the
  contents on the disk, \<open>ws\<close> the history of disk writes, \<open>lck\<close> and \<open>dty\<close> are the blocks in locked and in dirty buffers, and
  \<open>vw\<close> is the rest of the state.
\<close>

locale block_cache =
  fixes ok :: "'s \<Rightarrow> bool" and blk :: "'s \<Rightarrow> u32 \<Rightarrow> u8 list" and dsk :: "'s \<Rightarrow> u32 \<Rightarrow> u8 list"
    and ws :: "'s \<Rightarrow> (u32 \<times> u32 \<times> u8 list) list" and lck :: "'s \<Rightarrow> u32 set" and dty :: "'s \<Rightarrow> u32 set"
    and hold :: "'s \<Rightarrow> u32 \<Rightarrow> nat \<Rightarrow> bool" and dat :: "'s \<Rightarrow> nat \<Rightarrow> u8 list" and vw :: "'s \<Rightarrow> 's"
    and rd :: "u32 \<Rightarrow> 's \<Rightarrow> (nat, 's) res" and put :: "nat \<Rightarrow> u8 list \<Rightarrow> 's \<Rightarrow> 's"
    and pin :: "nat \<Rightarrow> 's \<Rightarrow> 's" and wr :: "nat \<Rightarrow> 's \<Rightarrow> (unit, 's) res" and rel :: "nat \<Rightarrow> 's \<Rightarrow> (unit, 's) res"
  assumes rd: "ok s \<Longrightarrow> n < 1000 \<Longrightarrow> n \<notin> lck s \<Longrightarrow> n \<in> dty s \<or> card (lck s \<union> dty s) < 30 \<Longrightarrow>
      \<exists>b t. rd n s = Ret b t \<and> ok t \<and> vw t = vw s \<and> hold t n b \<and> blk t = blk s \<and> dsk t = dsk s \<and> ws t = ws s \<and>
        lck t = insert n (lck s) \<and> dty t = dty s \<and> (\<forall>m c. hold s m c \<longrightarrow> hold t m c)"
    and put: "ok s \<Longrightarrow> hold s n b \<Longrightarrow> ok (put b d s) \<and> vw (put b d s) = vw s \<and> blk (put b d s) = (blk s)(n := d) \<and>
        dsk (put b d s) = dsk s \<and> ws (put b d s) = ws s \<and> lck (put b d s) = lck s \<and> dty (put b d s) = dty s \<and>
        (\<forall>m c. hold (put b d s) m c = hold s m c)"
    and pin: "ok s \<Longrightarrow> hold s n b \<Longrightarrow> ok (pin b s) \<and> vw (pin b s) = vw s \<and> blk (pin b s) = blk s \<and>
        dsk (pin b s) = dsk s \<and> ws (pin b s) = ws s \<and> lck (pin b s) = lck s \<and> dty (pin b s) = insert n (dty s) \<and>
        (\<forall>m c. hold (pin b s) m c = hold s m c)"
    and wr: "ok s \<Longrightarrow> hold s n b \<Longrightarrow> \<exists>t. wr b s = Ret () t \<and> ok t \<and> vw t = vw s \<and> blk t = blk s \<and>
        dsk t = (dsk s)(n := blk s n) \<and> ws t = (1, n, blk s n) # ws s \<and> lck t = lck s \<and> dty t = dty s - {n} \<and>
        (\<forall>m c. hold t m c = hold s m c)"
    and rel: "ok s \<Longrightarrow> hold s n b \<Longrightarrow> n \<in> dty s \<or> blk s n = dsk s n \<Longrightarrow>
      \<exists>t. rel b s = Ret () t \<and> ok t \<and> vw t = vw s \<and> blk t = blk s \<and> dsk t = dsk s \<and> ws t = ws s \<and>
        lck t = lck s - {n} \<and> dty t = dty s \<and> (\<forall>m c. m \<noteq> n \<longrightarrow> hold t m c = hold s m c)"
    and dat: "ok s \<Longrightarrow> hold s n b \<Longrightarrow> dat s b = blk s n"
    and held: "ok s \<Longrightarrow> hold s n b \<Longrightarrow> n \<in> lck s"
    and clean: "ok s \<Longrightarrow> n \<notin> dty s \<Longrightarrow> n \<notin> lck s \<Longrightarrow> blk s n = dsk s n"
    and fin: "finite (lck s)" "finite (dty s)"
begin

text \<open>Read, overwrite, write through, release.\<close>

lemma rewrite_block:
  assumes "ok s" "lck s = {}" "n < 1000" "card (dty s) < 30"
  shows "\<exists>t. kbind (rd n s) (\<lambda>b s. kbind (wr b (put b (f (dat s b)) s)) (\<lambda>_ s. rel b s)) = Ret () t \<and>
    ok t \<and> vw t = vw s \<and> lck t = {} \<and> dty t = dty s - {n} \<and> blk t = (blk s)(n := f (blk s n)) \<and>
    dsk t = (dsk s)(n := f (blk s n)) \<and> ws t = (1, n, f (blk s n)) # ws s"
proof -
  obtain b s1 where 1: "rd n s = Ret b s1" "ok s1" "vw s1 = vw s" "hold s1 n b" "blk s1 = blk s" "dsk s1 = dsk s" "ws s1 = ws s"
    "lck s1 = {n}" "dty s1 = dty s" using rd [of s n] assms by auto
  let ?d = "f (dat s1 b)"
  have d: "?d = f (blk s n)" using dat [OF 1(2,4)] 1(5) by simp
  let ?s2 = "put b ?d s1"
  have 2: "ok ?s2" "vw ?s2 = vw s" "hold ?s2 n b" "blk ?s2 = (blk s)(n := ?d)" "dsk ?s2 = dsk s" "ws ?s2 = ws s" "lck ?s2 = {n}" "dty ?s2 = dty s"
    using put [OF 1(2,4), of ?d] 1 by simp_all
  obtain s3 where 3: "wr b ?s2 = Ret () s3" "ok s3" "vw s3 = vw s" "blk s3 = (blk s)(n := ?d)" "dsk s3 = (dsk s)(n := ?d)"
    "ws s3 = (1, n, ?d) # ws s" "lck s3 = {n}" "dty s3 = dty s - {n}" "hold s3 n b"
    using wr [OF 2(1,3)] 2 by auto
  obtain s4 where 4: "rel b s3 = Ret () s4" "ok s4" "vw s4 = vw s" "blk s4 = (blk s)(n := ?d)" "dsk s4 = (dsk s)(n := ?d)"
    "ws s4 = (1, n, ?d) # ws s" "lck s4 = {}" "dty s4 = dty s - {n}"
    using rel [OF 3(2,9)] 3 by auto
  show ?thesis using 1(1) 3(1) 4 d by (intro exI [of _ s4]) simp
qed

text \<open>Copying block \<open>a\<close> to block \<open>n\<close> through the cache, with either block read first.\<close>

lemma copy_held:
  assumes "ok s" "hold s a x" "hold s n y" "a \<noteq> n" "lck s = {a, n}" "a \<in> dty s \<or> blk s a = dsk s a"
  shows "\<exists>t. kbind (wr y (put y (dat s x) s)) (\<lambda>_ s. kbind (rel x s) (\<lambda>_ s. rel y s)) = Ret () t \<and>
    ok t \<and> vw t = vw s \<and> lck t = {} \<and> dty t = dty s - {n} \<and> blk t = (blk s)(n := blk s a) \<and>
    dsk t = (dsk s)(n := blk s a) \<and> ws t = (1, n, blk s a) # ws s"
proof -
  have d: "dat s x = blk s a" by (rule dat [OF assms(1,2)])
  let ?s2 = "put y (blk s a) s"
  have 2: "ok ?s2" "vw ?s2 = vw s" "hold ?s2 n y" "hold ?s2 a x" "blk ?s2 = (blk s)(n := blk s a)" "dsk ?s2 = dsk s" "ws ?s2 = ws s"
    "lck ?s2 = {a, n}" "dty ?s2 = dty s" using put [OF assms(1,3), of "blk s a"] assms by simp_all
  obtain s3 where 3: "wr y ?s2 = Ret () s3" "ok s3" "vw s3 = vw s" "blk s3 = (blk s)(n := blk s a)" "dsk s3 = (dsk s)(n := blk s a)"
    "ws s3 = (1, n, blk s a) # ws s" "lck s3 = {a, n}" "dty s3 = dty s - {n}" "hold s3 n y" "hold s3 a x"
    using wr [OF 2(1,3)] 2 by auto
  obtain s4 where 4: "rel x s3 = Ret () s4" "ok s4" "vw s4 = vw s" "blk s4 = (blk s)(n := blk s a)" "dsk s4 = (dsk s)(n := blk s a)"
    "ws s4 = (1, n, blk s a) # ws s" "lck s4 = {n}" "dty s4 = dty s - {n}" "hold s4 n y"
    using rel [OF 3(2,10)] 3 assms(4,6) by auto
  obtain s5 where 5: "rel y s4 = Ret () s5" "ok s5" "vw s5 = vw s" "blk s5 = (blk s)(n := blk s a)" "dsk s5 = (dsk s)(n := blk s a)"
    "ws s5 = (1, n, blk s a) # ws s" "lck s5 = {}" "dty s5 = dty s - {n}"
    using rel [OF 4(2,9)] 4 by auto
  show ?thesis using 3(1) 4(1) 5 d by (intro exI [of _ s5]) simp
qed

lemma read_two:
  assumes "ok s" "lck s = {}" "a < 1000" "n < 1000" "a \<noteq> n" "card (dty s) < 30" "n \<in> dty s \<or> card (dty s) < 29"
  shows "\<exists>x s1. rd a s = Ret x s1 \<and> (\<exists>y s2. rd n s1 = Ret y s2 \<and> ok s2 \<and> vw s2 = vw s \<and> hold s2 a x \<and> hold s2 n y \<and>
    lck s2 = {a, n} \<and> dty s2 = dty s \<and> blk s2 = blk s \<and> dsk s2 = dsk s \<and> ws s2 = ws s)"
proof -
  obtain x s1 where 1: "rd a s = Ret x s1" "ok s1" "vw s1 = vw s" "hold s1 a x" "blk s1 = blk s" "dsk s1 = dsk s" "ws s1 = ws s"
    "lck s1 = {a}" "dty s1 = dty s" using rd [of s a] assms by auto
  have "n \<in> dty s \<or> card ({a} \<union> dty s) < 30" using assms(7) fin(2) [of s] by (auto simp: card_insert_if)
  then obtain y s2 where 2: "rd n s1 = Ret y s2" "ok s2" "vw s2 = vw s" "hold s2 n y" "hold s2 a x" "blk s2 = blk s"
    "dsk s2 = dsk s" "ws s2 = ws s" "lck s2 = {a, n}" "dty s2 = dty s"
    using rd [OF 1(2) assms(4)] assms(5) 1 by (auto simp: insert_commute)
  then show ?thesis using 1(1) by blast
qed

lemma copy_block:
  assumes "ok s" "lck s = {}" "a < 1000" "n < 1000" "a \<noteq> n" "card (dty s) < 30"
  shows "n \<in> dty s \<or> card (dty s) < 29 \<Longrightarrow> \<exists>t. kbind (rd a s) (\<lambda>x s. kbind (rd n s) (\<lambda>y s. kbind (wr y (put y (dat s x) s)) (\<lambda>_ s. kbind (rel x s) (\<lambda>_ s. rel y s)))) = Ret () t \<and>
      ok t \<and> vw t = vw s \<and> lck t = {} \<and> dty t = dty s - {n} \<and> blk t = (blk s)(n := blk s a) \<and>
      dsk t = (dsk s)(n := blk s a) \<and> ws t = (1, n, blk s a) # ws s"
    "a \<in> dty s \<or> card (dty s) < 29 \<Longrightarrow> \<exists>t. kbind (rd n s) (\<lambda>y s. kbind (rd a s) (\<lambda>x s. kbind (wr y (put y (dat s x) s)) (\<lambda>_ s. kbind (rel x s) (\<lambda>_ s. rel y s)))) = Ret () t \<and>
      ok t \<and> vw t = vw s \<and> lck t = {} \<and> dty t = dty s - {n} \<and> blk t = (blk s)(n := blk s a) \<and>
      dsk t = (dsk s)(n := blk s a) \<and> ws t = (1, n, blk s a) # ws s"
proof -
  have sync: "a \<in> dty s \<or> blk s a = dsk s a" using clean [OF assms(1)] assms(2) by blast
  { assume c: "n \<in> dty s \<or> card (dty s) < 29"
    obtain x s1 y s2 where 1: "rd a s = Ret x s1" "rd n s1 = Ret y s2" "ok s2" "vw s2 = vw s" "hold s2 a x" "hold s2 n y"
      "lck s2 = {a, n}" "dty s2 = dty s" "blk s2 = blk s" "dsk s2 = dsk s" "ws s2 = ws s" using read_two [OF assms c] by blast
    show "\<exists>t. kbind (rd a s) (\<lambda>x s. kbind (rd n s) (\<lambda>y s. kbind (wr y (put y (dat s x) s)) (\<lambda>_ s. kbind (rel x s) (\<lambda>_ s. rel y s)))) = Ret () t \<and>
        ok t \<and> vw t = vw s \<and> lck t = {} \<and> dty t = dty s - {n} \<and> blk t = (blk s)(n := blk s a) \<and>
        dsk t = (dsk s)(n := blk s a) \<and> ws t = (1, n, blk s a) # ws s"
      using copy_held [OF 1(3,5,6) assms(5) 1(7)] sync 1 by simp }
  { assume c: "a \<in> dty s \<or> card (dty s) < 29"
    obtain y' s1' x' s2' where 2: "rd n s = Ret y' s1'" "rd a s1' = Ret x' s2'" "ok s2'" "vw s2' = vw s" "hold s2' n y'" "hold s2' a x'"
      "lck s2' = {n, a}" "dty s2' = dty s" "blk s2' = blk s" "dsk s2' = dsk s" "ws s2' = ws s"
      using read_two [OF assms(1,2,4,3) assms(5) [symmetric] assms(6) c] by blast
    have "lck s2' = {a, n}" using 2(7) by auto
    then show "\<exists>t. kbind (rd n s) (\<lambda>y s. kbind (rd a s) (\<lambda>x s. kbind (wr y (put y (dat s x) s)) (\<lambda>_ s. kbind (rel x s) (\<lambda>_ s. rel y s)))) = Ret () t \<and>
        ok t \<and> vw t = vw s \<and> lck t = {} \<and> dty t = dty s - {n} \<and> blk t = (blk s)(n := blk s a) \<and>
        dsk t = (dsk s)(n := blk s a) \<and> ws t = (1, n, blk s a) # ws s"
      using copy_held [OF 2(3,6,5) assms(5)] sync 2 by simp }
qed

text \<open>Read a block, use its contents, release it.\<close>

lemma peek_block:
  assumes "ok s" "n < 1000" "n \<notin> lck s" "card (lck s \<union> dty s) < 30"
  shows "\<exists>b t u. rd n s = Ret b t \<and> vw t = vw s \<and> dat t b = blk s n \<and> rel b t = Ret () u \<and> ok u \<and> vw u = vw s \<and> blk u = blk s \<and> dsk u = dsk s \<and>
    lck u = lck s \<and> dty u = dty s"
proof -
  obtain b t where t: "rd n s = Ret b t" "ok t" "vw t = vw s" "hold t n b" "blk t = blk s" "dsk t = dsk s"
    "lck t = insert n (lck s)" "dty t = dty s" using rd [OF assms(1-3)] assms(4) by auto
  have "n \<in> dty t \<or> blk t n = dsk t n" using clean [OF assms(1)] assms(3) t(5,6,8) by auto
  then obtain u where "rel b t = Ret () u" "ok u" "vw u = vw t" "blk u = blk t" "dsk u = dsk t" "lck u = lck t - {n}" "dty u = dty t"
    using rel [OF t(2,4)] by blast
  then show ?thesis using t dat [OF t(2,4)] assms(3) by auto
qed

end

definition bput :: "nat \<Rightarrow> u8 list \<Rightarrow> 'a idest_scheme \<Rightarrow> 'a idest_scheme" where
  "bput b d s = updb b (\<lambda>x. x\<lparr>b_data := d\<rparr>) s"

definition bpin :: "nat \<Rightarrow> 'a idest_scheme \<Rightarrow> 'a idest_scheme" where
  "bpin b s = updb b (\<lambda>x. x\<lparr>b_dirty := True\<rparr>) s"

interpretation bc: block_cache bio_ok blk "\<lambda>s. disk s 1" dwrites locked_blocks dirty_blocks holds_buf
  "\<lambda>s b. b_data (bufs s ! b)" bview "bread 1" bput bpin bwrite brelse
proof
  fix s :: "'a idest_scheme" and n b d
  { assume "bio_ok s" "n < 1000" "n \<notin> locked_blocks s" "n \<in> dirty_blocks s \<or> card (locked_blocks s \<union> dirty_blocks s) < 30"
    then show "\<exists>b t. bread 1 n s = Ret b t \<and> bio_ok t \<and> bview t = bview s \<and> holds_buf t n b \<and> blk t = blk s \<and> disk t 1 = disk s 1 \<and>
        dwrites t = dwrites s \<and> locked_blocks t = insert n (locked_blocks s) \<and> dirty_blocks t = dirty_blocks s \<and>
        (\<forall>m c. holds_buf s m c \<longrightarrow> holds_buf t m c)"
      using bread_Ret [of s n] unfolding holds_buf_def by metis }
  assume ok: "bio_ok s" 
  { assume h: "holds_buf s n b"
    show "bio_ok (bput b d s) \<and> bview (bput b d s) = bview s \<and> blk (bput b d s) = (blk s)(n := d) \<and> disk (bput b d s) 1 = disk s 1 \<and>
        dwrites (bput b d s) = dwrites s \<and> locked_blocks (bput b d s) = locked_blocks s \<and> dirty_blocks (bput b d s) = dirty_blocks s \<and>
        (\<forall>m c. holds_buf (bput b d s) m c = holds_buf s m c)"
      using bset_effect [OF ok h, of d] by (simp add: bput_def)
    show "bio_ok (bpin b s) \<and> bview (bpin b s) = bview s \<and> blk (bpin b s) = blk s \<and> disk (bpin b s) 1 = disk s 1 \<and>
        dwrites (bpin b s) = dwrites s \<and> locked_blocks (bpin b s) = locked_blocks s \<and> dirty_blocks (bpin b s) = insert n (dirty_blocks s) \<and>
        (\<forall>m c. holds_buf (bpin b s) m c = holds_buf s m c)"
      using bpin_effect [OF ok h] by (simp add: bpin_def)
    show "\<exists>t. bwrite b s = Ret () t \<and> bio_ok t \<and> bview t = bview s \<and> blk t = blk s \<and> disk t 1 = (disk s 1)(n := blk s n) \<and>
        dwrites t = (1, n, blk s n) # dwrites s \<and> locked_blocks t = locked_blocks s \<and> dirty_blocks t = dirty_blocks s - {n} \<and>
        (\<forall>m c. holds_buf t m c = holds_buf s m c)"
      using bwrite_Ret [OF ok h] by auto
    show "b_data (bufs s ! b) = blk s n" "n \<in> locked_blocks s" using held_fields [OF ok h] by auto
    assume "n \<in> dirty_blocks s \<or> blk s n = disk s 1 n"
    then show "\<exists>t. brelse b s = Ret () t \<and> bio_ok t \<and> bview t = bview s \<and> blk t = blk s \<and> disk t 1 = disk s 1 \<and> dwrites t = dwrites s \<and>
        locked_blocks t = locked_blocks s - {n} \<and> dirty_blocks t = dirty_blocks s \<and>
        (\<forall>m c. m \<noteq> n \<longrightarrow> holds_buf t m c = holds_buf s m c)"
      using brelse_Ret [OF ok h] by auto }
  assume "n \<notin> dirty_blocks s" "n \<notin> locked_blocks s"
  then show "blk s n = disk s 1 n" using clean_blk [OF ok] by blast
qed (simp_all add: finite_blocks)

section \<open>Initialisation\<close>

lemma binit_fold:
  fixes s :: "'a idest_scheme"
  assumes "length (bufs s) = 31" "b_next (bufs s ! bhead) = bhead" "b_prev (bufs s ! bhead) = bhead" "n \<le> 30"
  shows "let t = fold (\<lambda>b s. blink b (initsleeplock (SlBuf b) s)) [0..<n] s
    in links (bufs t) (bhead # rev [0..<n] @ [bhead]) \<and> length (bufs t) = 31 \<and> bview t = bview (s\<lparr>held := held t\<rparr>) \<and>
      disk t = disk s \<and> dwrites t = dwrites s \<and> (\<forall>b<31. bcore (bufs t ! b) = bcore (bufs s ! b)) \<and>
      (\<forall>b<n. slocks t (SlBuf b) = \<lparr>sl_locked = False, sl_pid = 0\<rparr>) \<and> set (held t) \<subseteq> set (held s)"
  using assms(4)
proof (induction n)
  case 0
  then show ?case using assms by (simp add: Let_def)
next
  case (Suc n)
  define t where "t = fold (\<lambda>b s. blink b (initsleeplock (SlBuf b) s)) [0..<n] s"
  define u where "u = initsleeplock (SlBuf n) t"
  have IH: "links (bufs t) (bhead # rev [0..<n] @ [bhead])" "length (bufs t) = 31" "bview t = bview (s\<lparr>held := held t\<rparr>)"
    "disk t = disk s" "dwrites t = dwrites s" "\<forall>b<31. bcore (bufs t ! b) = bcore (bufs s ! b)"
    "\<forall>b<n. slocks t (SlBuf b) = \<lparr>sl_locked = False, sl_pid = 0\<rparr>" "set (held t) \<subseteq> set (held s)"
    using Suc by (simp_all add: Let_def t_def)
  have f: "fold (\<lambda>b s. blink b (initsleeplock (SlBuf b) s)) [0..<Suc n] s = blink n u" by (simp add: t_def u_def)
  have u: "bufs u = bufs t" "disk u = disk t" "dwrites u = dwrites t" "slocks u = (slocks t)(SlBuf n := \<lparr>sl_locked = False, sl_pid = 0\<rparr>)"
    "set (held u) \<subseteq> set (held t)" by (auto simp: u_def initsleeplock_def)
  have "bview (s\<lparr>held := h\<rparr>) = (bview s)\<lparr>held := h\<rparr>" for h and s :: "'a idest_scheme" by (simp add: bview_def)
  moreover have "bview u = bview (t\<lparr>held := held u\<rparr>)"
    using bview_slocks [of "t\<lparr>held := held u\<rparr>" n "\<lparr>sl_locked = False, sl_pid = 0\<rparr>"] by (simp add: u_def initsleeplock_def)
  ultimately have v: "bview u = bview (s\<lparr>held := held u\<rparr>)" using IH(3) by simp
  have "links (bufs (blink n u)) (bhead # n # rev [0..<n] @ [bhead])"
    by (rule links_link) (use IH u Suc.prems in auto)
  then show ?case unfolding f Let_def using IH u v Suc.prems by (auto simp: less_Suc_eq)
qed

lemma binit_ok:
  assumes "length (bufs s) = 31" "\<And>b. b < 30 \<Longrightarrow> b_dev (bufs s ! b) = 0 \<and> b_refcnt (bufs s ! b) = 0 \<and> \<not> b_dirty (bufs s ! b)"
    and "ptab_ok s" "fs_quiet s" "set (held s) \<subseteq> {LBcache}" "cpu_proc s \<noteq> None" "idequeue s = None" "ide_errs s = []" "havedisk1 s" "fssize s = 1000"
  shows "bio_ok (binit s)" "mru (bufs (binit s)) (rev [0..<30])" "blk (binit s) = disk s 1" "disk (binit s) = disk s"
    "dirty_blocks (binit s) = {}" "locked_blocks (binit s) = {}" "dwrites (binit s) = dwrites s"
    "\<And>b. b < 30 \<Longrightarrow> b_dev (bufs (binit s) ! b) = 0" "bview (binit s) = bview (s\<lparr>held := []\<rparr>)"
proof -
  define s1 where "s1 = updb bhead (\<lambda>x. x\<lparr>b_next := bhead\<rparr>) (updb bhead (\<lambda>x. x\<lparr>b_prev := bhead\<rparr>) (s\<lparr>held := removeAll LBcache (held s)\<rparr>))"
  define t where "t = binit s"
  have t: "t = fold (\<lambda>b s. blink b (initsleeplock (SlBuf b) s)) [0..<30] s1" by (simp add: t_def binit_def s1_def Let_def)
  have r: "removeAll LBcache (held s) = []" using assms(5) by (auto simp: removeAll_filter_not_eq filter_empty_conv)
  have s1: "length (bufs s1) = 31" "b_next (bufs s1 ! bhead) = bhead" "b_prev (bufs s1 ! bhead) = bhead" "held s1 = []"
    "\<And>b. b < 30 \<Longrightarrow> bufs s1 ! b = bufs s ! b" "disk s1 = disk s" "dwrites s1 = dwrites s" "bview s1 = bview (s\<lparr>held := []\<rparr>)"
    using assms(1) r by (auto simp: s1_def)
  have f: "links (bufs t) (bhead # rev [0..<30] @ [bhead])" "length (bufs t) = 31" "bview t = bview (s1\<lparr>held := held t\<rparr>)"
    "disk t = disk s1" "dwrites t = dwrites s1" "\<forall>b<31. bcore (bufs t ! b) = bcore (bufs s1 ! b)"
    "\<forall>b<30. slocks t (SlBuf b) = \<lparr>sl_locked = False, sl_pid = 0\<rparr>" "set (held t) \<subseteq> set (held s1)"
    using binit_fold [OF s1(1-3), of 30] unfolding Let_def t [symmetric] by auto
  have h: "held t = []" using f(8) s1(4) by simp
  have v: "bview t = bview (s\<lparr>held := []\<rparr>)" using f(3) s1(4,8) h by (simp add: held_id)
  then show "bview (binit s) = bview (s\<lparr>held := []\<rparr>)" by (simp add: t_def)
  note fl = bview_fields [OF v]
  show m: "mru (bufs (binit s)) (rev [0..<30])" using f(1,2) unfolding mru_def t_def by auto
  have slot: "b_dev (bufs t ! b) = 0 \<and> b_refcnt (bufs t ! b) = 0 \<and> \<not> b_dirty (bufs t ! b)" if "b < 30" for b
    using bcore_fields [of "bufs t ! b" "bufs s ! b"] f(6) s1(5) [OF that] assms(2) [OF that] that by simp
  then show "b < 30 \<Longrightarrow> b_dev (bufs (binit s) ! b) = 0" for b unfolding t_def by blast
  have "buniq (bufs t)" using slot by (simp add: buniq_def)
  moreover have "bslot (disk t) (mypid t) (slocks t (SlBuf b)) (bufs t ! b)" if "b < 30" for b
    using slot [OF that] f(7) that by (simp add: bslot_def)
  ultimately show "bio_ok (binit s)"
    using m assms(3,4,6-10) fl h unfolding t_def [symmetric] by (auto simp: bio_ok_def ptab_ok_def fs_quiet_def)
  have n: "\<not> in_buf (bufs t) n b" for n b using slot by (auto simp: in_buf_def)
  then show "blk (binit s) = disk s 1" using blk_out [of t] f(4) s1(6) unfolding t_def by auto
  show "disk (binit s) = disk s" "dwrites (binit s) = dwrites s" using f(4,5) s1(6,7) unfolding t_def by simp_all
  show "dirty_blocks (binit s) = {}" "locked_blocks (binit s) = {}" using n unfolding t_def by (simp_all add: dirty_blocks_def locked_blocks_def)
qed

section \<open>Properties\<close>

text \<open>
  C5. The linked list is a least-recently-used order. When it reads as \<open>xs\<close> from the head, \<^verbatim>\<open>bget\<close> returns the first buffer of \<open>xs\<close> that
  caches the block, with one more reference and locked; if there is none it takes over the last one of \<open>xs\<close> that nobody refers to and
  that is not dirty, and drops its contents; if there is none of these either it panics. Releasing the last reference moves the
  buffer to the front of the list and keeps the order of the others, whatever its position was.
\<close>

theorem bcache_lru:
  fixes s :: "'a idest_scheme"
  assumes "mru (bufs s) xs" "held s = []" "cpu_proc s = Some i"
  shows "(\<forall>dev n. case find (\<lambda>j. b_dev (bufs s ! j) = dev \<and> b_blockno (bufs s ! j) = n) xs of
      Some b \<Rightarrow> sl_locked (slocks s (SlBuf b)) \<or> bget dev n s = Ret b (grab b (\<lambda>x. x\<lparr>b_refcnt := b_refcnt x + 1\<rparr>) s)
    | None \<Rightarrow> (case find (\<lambda>j. b_refcnt (bufs s ! j) = 0 \<and> \<not> b_dirty (bufs s ! j)) (rev xs) of
        Some b \<Rightarrow> sl_locked (slocks s (SlBuf b)) \<or> bget dev n s = Ret b (grab b (recycle dev n) s)
      | None \<Rightarrow> bget dev n s = Panic ''bget: no buffers'')) \<and>
    (\<forall>b<30. slocks s (SlBuf b) = \<lparr>sl_locked = True, sl_pid = mypid s\<rparr> \<and> b_refcnt (bufs s ! b) = 1 \<and> ptab_ok s \<longrightarrow>
      (\<exists>t. brelse b s = Ret () t \<and> mru (bufs t) (b # remove1 b xs) \<and> b_refcnt (bufs t ! b) = 0 \<and>
         slocks t (SlBuf b) = \<lparr>sl_locked = False, sl_pid = 0\<rparr>))"
proof (intro conjI allI impI)
  fix dev n
  have h: "LBcache \<notin> set (held s)" "\<And>b. sl_spin (SlBuf b) \<notin> set (held s)" using assms(2) by simp_all
  note g = bget_eq [OF assms(1) h(1) assms(3) h(2), of dev n]
  show "case find (\<lambda>j. b_dev (bufs s ! j) = dev \<and> b_blockno (bufs s ! j) = n) xs of
      Some b \<Rightarrow> sl_locked (slocks s (SlBuf b)) \<or> bget dev n s = Ret b (grab b (\<lambda>x. x\<lparr>b_refcnt := b_refcnt x + 1\<rparr>) s)
    | None \<Rightarrow> (case find (\<lambda>j. b_refcnt (bufs s ! j) = 0 \<and> \<not> b_dirty (bufs s ! j)) (rev xs) of
        Some b \<Rightarrow> sl_locked (slocks s (SlBuf b)) \<or> bget dev n s = Ret b (grab b (recycle dev n) s)
      | None \<Rightarrow> bget dev n s = Panic ''bget: no buffers'')"
    using g by (auto split: option.split)
next
  fix b assume b: "b < (30 :: nat)" and "slocks s (SlBuf b) = \<lparr>sl_locked = True, sl_pid = mypid s\<rparr> \<and> b_refcnt (bufs s ! b) = 1 \<and> ptab_ok s"
  then have l: "slocks s (SlBuf b) = \<lparr>sl_locked = True, sl_pid = mypid s\<rparr>" "b_refcnt (bufs s ! b) = 1" "ptab_ok s" by auto
  have len: "length (bufs s) = 31" using assms(1) by (simp add: mru_def)
  let ?v = "updb b (\<lambda>x. x\<lparr>b_refcnt := b_refcnt x - 1\<rparr>) (s\<lparr>slocks := (slocks s)(SlBuf b := \<lparr>sl_locked = False, sl_pid = 0\<rparr>),
      procs := woken (ChBufLock b) (procs s)\<rparr>)"
  let ?t = "blink b (bunlink b ?v)"
  have "mru (bufs ?v) xs" using mru_updb [OF assms(1)] by simp
  note mt = mru_move [OF this b]
  have "holdingsleep (SlBuf b) s = Ret True s"
    using holdingsleep_Ret [OF assms(3), of "SlBuf b"] l(1) assms(2,3) by (simp add: mypid_def)
  then have r: "brelse b s = Ret () (?t\<lparr>held := []\<rparr>)"
    using releasesleep_Ret [OF l(3), of "SlBuf b"] assms(2) b len l(2) by (simp add: brelse_def blink_held)
  have "b_refcnt (bufs ?t ! b) = b_refcnt (bufs ?v ! b)"
    using b len by (intro bcore_fields(6)) simp
  then show "\<exists>t. brelse b s = Ret () t \<and> mru (bufs t) (b # remove1 b xs) \<and> b_refcnt (bufs t ! b) = 0 \<and>
         slocks t (SlBuf b) = \<lparr>sl_locked = False, sl_pid = 0\<rparr>"
    using r mt b len l(2) by (intro exI [of _ "?t\<lparr>held := []\<rparr>"]) simp
qed

text \<open>
  C28. A block that is read, changed, written with \<^verbatim>\<open>bwrite\<close> and released is on the disk with its new contents: exactly one block is
  written, reading that block again gives the new contents and reading any other block that is not in use gives what it held before.
\<close>

theorem bwrite_roundtrip:
  fixes s :: "'a idest_scheme"
  assumes "bio_ok s" "locked_blocks s = {}" "n < 1000" "card (dirty_blocks s) < 29"
  shows "\<exists>t. kbind (bread 1 n s) (\<lambda>b s. kbind (bwrite b (bput b (f (b_data (bufs s ! b))) s)) (\<lambda>_ s. brelse b s)) = Ret () t \<and>
    disk t 1 = (disk s 1)(n := f (blk s n)) \<and> dwrites t = (1, n, f (blk s n)) # dwrites s \<and> procs t = procs s \<and>
    (\<forall>m<1000. \<exists>b u. bread 1 m t = Ret b u \<and> b_data (bufs u ! b) = (if m = n then f (blk s n) else blk s m))"
proof -
  obtain t where t: "kbind (bread 1 n s) (\<lambda>b s. kbind (bwrite b (bput b (f (b_data (bufs s ! b))) s)) (\<lambda>_ s. brelse b s)) = Ret () t"
    "bio_ok t" "bview t = bview s" "locked_blocks t = {}" "dirty_blocks t = dirty_blocks s - {n}" "blk t = (blk s)(n := f (blk s n))"
    "disk t 1 = (disk s 1)(n := f (blk s n))" "dwrites t = (1, n, f (blk s n)) # dwrites s"
    using bc.rewrite_block [OF assms(1-3), of f] assms(4) by auto
  have "card (dirty_blocks t) < 30"
    using t(5) assms(4) finite_blocks(2) [of s] card_mono [of "dirty_blocks s" "dirty_blocks s - {n}"] by simp
  then have "\<exists>b u. bread 1 m t = Ret b u \<and> b_data (bufs u ! b) = blk t m" if "m < 1000" for m
    using bc.rd [OF t(2) that] t(4) bc.dat by (metis Un_empty_left empty_iff)
  then show ?thesis using t(1,6-8) bview_fields(1) [OF t(3)] by (intro exI [of _ t]) auto
qed

text \<open>A freshly initialised cache.\<close>

definition boot_ex :: idest where
  "boot_ex = idest_ex\<lparr>bufs := replicate 31 buf_ex, idequeue := None, ide_cmd := None\<rparr>"

lemma boot_ex_simps [simp]:
  "procs boot_ex = procs_ex" "cpu_proc boot_ex = Some 0" "held boot_ex = []" "bufs boot_ex = replicate 31 buf_ex"
  "idequeue boot_ex = None" "havedisk1 boot_ex" "ide_errs boot_ex = []" "dwrites boot_ex = []" "nextpid boot_ex = 5" "fssize boot_ex = 1000"
  "disk boot_ex = (\<lambda>_ _. replicate 512 3)"
  by (simp_all add: boot_ex_def) (simp add: idest_ex_def slst.defs idest.defs)

lemma bio_ok_ex: "bio_ok (binit boot_ex)" "mru (bufs (binit boot_ex)) (rev [0..<30])" "blk (binit boot_ex) = (\<lambda>n. replicate 512 3)"
  "dirty_blocks (binit boot_ex) = {}" "locked_blocks (binit boot_ex) = {}" "dwrites (binit boot_ex) = []"
  "\<And>b. b < 30 \<Longrightarrow> b_dev (bufs (binit boot_ex) ! b) = 0"
proof -
  have "ptab_ok boot_ex" using ptab_ok_ex by (simp add: ptab_ok_def ptab_ex_def)
  moreover have "fs_quiet boot_ex"
    by (auto simp: fs_quiet_def procs_ex_def proc_ex_def unused_proc_def split: if_splits)
  moreover have "b_dev (bufs boot_ex ! b) = 0 \<and> b_refcnt (bufs boot_ex ! b) = 0 \<and> \<not> b_dirty (bufs boot_ex ! b)" if "b < 30" for b
    using that by (simp add: buf_ex_def)
  ultimately show "bio_ok (binit boot_ex)" "mru (bufs (binit boot_ex)) (rev [0..<30])" "blk (binit boot_ex) = (\<lambda>n. replicate 512 3)"
    "dirty_blocks (binit boot_ex) = {}" "locked_blocks (binit boot_ex) = {}" "dwrites (binit boot_ex) = []"
    "\<And>b. b < 30 \<Longrightarrow> b_dev (bufs (binit boot_ex) ! b) = 0"
    using binit_ok [of boot_ex] by simp_all
qed

theorem bcache_lru_witness:
  "\<exists>t. bget 1 7 (binit boot_ex) = Ret 0 t"
proof -
  obtain i where i: "cpu_proc (binit boot_ex) = Some i" using bio_ok_ex(1) by (auto simp: bio_ok_def)
  note c = bio_okD [OF bio_ok_ex(1)]
  have s: "b_dev (bufs (binit boot_ex) ! b) \<noteq> 1" "b_refcnt (bufs (binit boot_ex) ! b) = 0"
    "\<not> b_dirty (bufs (binit boot_ex) ! b)" "\<not> sl_locked (slocks (binit boot_ex) (SlBuf b))" if "b < 30" for b
  proof -
    have "b_dev (bufs (binit boot_ex) ! b) = 0" by (rule bio_ok_ex(7) [OF that])
    then show "b_dev (bufs (binit boot_ex) ! b) \<noteq> 1" "b_refcnt (bufs (binit boot_ex) ! b) = 0"
    "\<not> b_dirty (bufs (binit boot_ex) ! b)" "\<not> sl_locked (slocks (binit boot_ex) (SlBuf b))"
      using c(3) [OF that] by (auto simp: bslot_def split: if_splits)
  qed
  have "find (\<lambda>j. b_dev (bufs (binit boot_ex) ! j) = 1 \<and> b_blockno (bufs (binit boot_ex) ! j) = 7) (rev [0..<30]) = None"
    using s(1) by (auto simp: find_None_iff)
  moreover have "find (\<lambda>j. b_refcnt (bufs (binit boot_ex) ! j) = 0 \<and> \<not> b_dirty (bufs (binit boot_ex) ! j)) (rev (rev [0..<30])) = Some 0"
    using s(2,3) [of 0] by (simp add: upt_rec [of 0])
  ultimately show ?thesis
    using bcache_lru [OF bio_ok_ex(2) c(4) i, THEN conjunct1, THEN spec, of 1, THEN spec, of 7] s(4) [of 0] by auto
qed

theorem bwrite_roundtrip_witness:
  "\<exists>t. kbind (bread 1 7 (binit boot_ex)) (\<lambda>b s. kbind (bwrite b (bput b ((b_data (bufs s ! b))[0 := 1]) s)) (\<lambda>_ s. brelse b s)) = Ret () t \<and>
    dwrites t = [(1, 7, 1 # replicate 511 3)]"
proof -
  have "(replicate 512 (3 :: u8))[0 := 1] = 1 # replicate 511 3" by (simp add: eval_nat_numeral)
  then show ?thesis
    using bwrite_roundtrip [OF bio_ok_ex(1,5), of 7 "\<lambda>d. d[0 := 1]"] bio_ok_ex(3,4,6) by auto
qed

end
