(* ===== verification/Log.thy ===== *)
theory Log
  imports Bio
begin

text \<open>
  The write-ahead log (\<^verbatim>\<open>log.c\<close>, and \<^verbatim>\<open>readsb\<close> of \<^verbatim>\<open>fs.c\<close>). The state adds the in-memory log to the buffer cache. \<^verbatim>\<open>begin_op\<close> ends in \<open>Sleep\<close>
  when it has to wait. The number of entries does not change while \<^verbatim>\<open>install_trans\<close> and \<^verbatim>\<open>write_log\<close> run, so their loops go over the list of the entries'
  indexes. Accesses outside \<^verbatim>\<open>block[LOGSIZE]\<close> are faults.

  The main result is crash safety: whichever prefix of the disk writes of \<^verbatim>\<open>commit\<close> reaches the disk, recovery ends with all blocks of the
  transaction or with none.
\<close>

section \<open>Bytes of a block\<close>

definition splice :: "u8 list \<Rightarrow> nat \<Rightarrow> u8 list \<Rightarrow> u8 list" where
  "splice d i xs = take i d @ xs @ drop (i + length xs) d"

definition bytes32 :: "u32 \<Rightarrow> u8 list" where
  "bytes32 w = [ucast w, ucast (drop_bit 8 w), ucast (drop_bit 16 w), ucast (drop_bit 24 w)]"

definition get32 :: "u8 list \<Rightarrow> nat \<Rightarrow> u32" where
  "get32 d i = ucast (d ! i) OR push_bit 8 (ucast (d ! (i + 1))) OR push_bit 16 (ucast (d ! (i + 2))) OR push_bit 24 (ucast (d ! (i + 3)))"

definition put32 :: "nat \<Rightarrow> u32 \<Rightarrow> u8 list \<Rightarrow> u8 list" where
  "put32 i w d = splice d i (bytes32 w)"

lemma length_splice: "i + length xs \<le> length d \<Longrightarrow> length (splice d i xs) = length d"
  by (simp add: splice_def)

lemma nth_splice:
  "i + length xs \<le> length d \<Longrightarrow> j < length d \<Longrightarrow>
   splice d i xs ! j = (if i \<le> j \<and> j < i + length xs then xs ! (j - i) else d ! j)"
  by (auto simp: splice_def nth_append not_less not_le)

lemma length_put32 [simp]: "i + 4 \<le> length d \<Longrightarrow> length (put32 i w d) = length d"
  by (simp add: put32_def length_splice bytes32_def)

lemma get32_put32_same [simp]:
  assumes "i + 4 \<le> length d"
  shows "get32 (put32 i w d) i = w"
proof -
  have n: "put32 i w d ! (i + k) = bytes32 w ! k" if "k < 4" for k
    using assms that by (simp add: put32_def nth_splice bytes32_def)
  have "get32 (put32 i w d) i = load32 (store32 (\<lambda>_. 0) 0 w) 0"
    using n [of 0] n [of 1] n [of 2] n [of 3] by (simp add: get32_def load32_def store32_def bytes32_def)
  then show ?thesis by simp
qed

lemma get32_put32_other [simp]:
  "i + 4 \<le> length d \<Longrightarrow> j + 4 \<le> length d \<Longrightarrow> j + 4 \<le> i \<or> i + 4 \<le> j \<Longrightarrow> get32 (put32 i w d) j = get32 d j"
  by (auto simp: get32_def put32_def nth_splice bytes32_def)

section \<open>State and operations\<close>

record superblock =
  sb_size :: u32
  sb_nblocks :: u32
  sb_ninodes :: u32
  sb_nlog :: u32
  sb_logstart :: u32
  sb_inodestart :: u32
  sb_bmapstart :: u32

record lgst = idest +
  lg_start :: int
  lg_size :: int
  lg_outstanding :: int
  lg_committing :: bool
  lg_dev :: u32
  lh_n :: int
  lh_block :: "u32 list"

abbreviation (input) LOGSIZE :: int where "LOGSIZE \<equiv> 30"
abbreviation (input) MAXOPBLOCKS :: int where "MAXOPBLOCKS \<equiv> 10"

definition readsb :: "u32 \<Rightarrow> 'a idest_scheme \<Rightarrow> (superblock, 'a idest_scheme) res" where
  "readsb dev s =
     kbind (bread dev 1 s) (\<lambda>bp s.
       let d = b_data (bufs s ! bp);
           sb = \<lparr>sb_size = get32 d 0, sb_nblocks = get32 d 4, sb_ninodes = get32 d 8, sb_nlog = get32 d 12,
                 sb_logstart = get32 d 16, sb_inodestart = get32 d 20, sb_bmapstart = get32 d 24\<rparr>
       in kbind (brelse bp s) (\<lambda>_ s. Ret sb s))"

text \<open>The number of block \<open>i\<close> of the log, as the \<^verbatim>\<open>uint\<close> argument of \<^verbatim>\<open>bread\<close>.\<close>

definition log_blk :: "int \<Rightarrow> 'a lgst_scheme \<Rightarrow> u32" where
  "log_blk i s = word_of_int (lg_start s + i)"

definition install_entry :: "nat \<Rightarrow> 'a lgst_scheme \<Rightarrow> (unit, 'a lgst_scheme) res" where
  "install_entry tail s =
     kbind (bread (lg_dev s) (log_blk (int tail + 1) s) s) (\<lambda>lbuf s.
     if tail \<ge> length (lh_block s) then Fault ''install_trans: index''
     else kbind (bread (lg_dev s) (lh_block s ! tail) s) (\<lambda>dbuf s.
          kbind (bwrite dbuf (bput dbuf (b_data (bufs s ! lbuf)) s)) (\<lambda>_ s.
          kbind (brelse lbuf s) (\<lambda>_ s. brelse dbuf s))))"

primrec kfor :: "(nat \<Rightarrow> 's \<Rightarrow> (unit, 's) res) \<Rightarrow> nat list \<Rightarrow> 's \<Rightarrow> (unit, 's) res" where
  "kfor f [] s = Ret () s"
| "kfor f (i # is) s = kbind (f i s) (\<lambda>_ s. kfor f is s)"

definition install_trans :: "'a lgst_scheme \<Rightarrow> (unit, 'a lgst_scheme) res" where
  "install_trans s = kfor install_entry [0..<nat (lh_n s)] s"

definition read_head :: "'a lgst_scheme \<Rightarrow> (unit, 'a lgst_scheme) res" where
  "read_head s =
     kbind (bread (lg_dev s) (log_blk 0 s) s) (\<lambda>b s.
       let d = b_data (bufs s ! b); n = sint (get32 d 0)
       in if n > LOGSIZE then Fault ''read_head: index''
          else brelse b (s\<lparr>lh_n := n, lh_block := map (\<lambda>i. get32 d (4 + 4 * i)) [0..<nat n] @ drop (nat n) (lh_block s)\<rparr>))"

text \<open>The header block with \<open>n\<close> and the first entries stored into it.\<close>

definition head_bytes :: "int \<Rightarrow> u32 list \<Rightarrow> u8 list \<Rightarrow> u8 list" where
  "head_bytes n bs d = fold (\<lambda>i. put32 (4 + 4 * i) (bs ! i)) [0..<nat n] (put32 0 (word_of_int n) d)"

definition write_head :: "'a lgst_scheme \<Rightarrow> (unit, 'a lgst_scheme) res" where
  "write_head s =
     kbind (bread (lg_dev s) (log_blk 0 s) s) (\<lambda>b s.
       if lh_n s > int (length (lh_block s)) then Fault ''write_head: index''
       else kbind (bwrite b (bput b (head_bytes (lh_n s) (lh_block s) (b_data (bufs s ! b))) s)) (\<lambda>_ s. brelse b s))"

definition recover_from_log :: "'a lgst_scheme \<Rightarrow> (unit, 'a lgst_scheme) res" where
  "recover_from_log s =
     kbind (read_head s) (\<lambda>_ s.
     kbind (install_trans s) (\<lambda>_ s. write_head (s\<lparr>lh_n := 0\<rparr>)))"

definition initlog :: "u32 \<Rightarrow> 'a lgst_scheme \<Rightarrow> (unit, 'a lgst_scheme) res" where
  "initlog dev s =
     kbind (readsb dev (s\<lparr>held := removeAll LLog (held s)\<rparr>)) (\<lambda>sb s.
       recover_from_log (s\<lparr>lg_start := sint (sb_logstart sb), lg_size := sint (sb_nlog sb), lg_dev := dev\<rparr>))"

definition begin_op_loop :: "'a lgst_scheme \<Rightarrow> (unit, 'a lgst_scheme) res" where
  "begin_op_loop s =
     (if lg_committing s then sleep ChLog (Some LLog) s
      else if lh_n s + (lg_outstanding s + 1) * MAXOPBLOCKS > LOGSIZE then sleep ChLog (Some LLog) s
      else lock_release LLog (s\<lparr>lg_outstanding := lg_outstanding s + 1\<rparr>))"

definition begin_op :: "'a lgst_scheme \<Rightarrow> (unit, 'a lgst_scheme) res" where
  "begin_op s = kbind (lock_acquire LLog s) (\<lambda>_ s. begin_op_loop s)"

definition begin_op_resume :: "nat \<Rightarrow> 'a lgst_scheme \<Rightarrow> (unit, 'a lgst_scheme) res" where
  "begin_op_resume me s = kbind (sleep_resume me LLog s) (\<lambda>_ s. begin_op_loop s)"

definition write_log_entry :: "nat \<Rightarrow> 'a lgst_scheme \<Rightarrow> (unit, 'a lgst_scheme) res" where
  "write_log_entry tail s =
     kbind (bread (lg_dev s) (log_blk (int tail + 1) s) s) (\<lambda>to s.
     if tail \<ge> length (lh_block s) then Fault ''write_log: index''
     else kbind (bread (lg_dev s) (lh_block s ! tail) s) (\<lambda>from s.
          kbind (bwrite to (bput to (b_data (bufs s ! from)) s)) (\<lambda>_ s.
          kbind (brelse from s) (\<lambda>_ s. brelse to s))))"

definition write_log :: "'a lgst_scheme \<Rightarrow> (unit, 'a lgst_scheme) res" where
  "write_log s = kfor write_log_entry [0..<nat (lh_n s)] s"

definition commit :: "'a lgst_scheme \<Rightarrow> (unit, 'a lgst_scheme) res" where
  "commit s =
     (if lh_n s > 0 then
        kbind (write_log s) (\<lambda>_ s.
        kbind (write_head s) (\<lambda>_ s.
        kbind (install_trans s) (\<lambda>_ s.
          write_head (s\<lparr>lh_n := 0\<rparr>))))
      else Ret () s)"

definition end_op :: "'a lgst_scheme \<Rightarrow> (unit, 'a lgst_scheme) res" where
  "end_op s =
     kbind (lock_acquire LLog s) (\<lambda>_ s.
       let s = s\<lparr>lg_outstanding := lg_outstanding s - 1\<rparr>
       in if lg_committing s then Panic ''log.committing''
          else if lg_outstanding s = 0 then
            kbind (lock_release LLog (s\<lparr>lg_committing := True\<rparr>)) (\<lambda>_ s.
            kbind (commit s) (\<lambda>_ s.
            kbind (lock_acquire LLog s) (\<lambda>_ s.
            kbind (wakeup ChLog (s\<lparr>lg_committing := False\<rparr>)) (\<lambda>_ s. lock_release LLog s))))
          else kbind (wakeup ChLog s) (\<lambda>_ s. lock_release LLog s))"

definition log_index :: "u32 \<Rightarrow> int \<Rightarrow> u32 list \<Rightarrow> nat" where
  "log_index n k bs = (case find_index (\<lambda>x. x = n) (take (nat k) bs) of Some i \<Rightarrow> i | None \<Rightarrow> nat k)"

definition log_write :: "nat \<Rightarrow> 'a lgst_scheme \<Rightarrow> (unit, 'a lgst_scheme) res" where
  "log_write b s =
     (if lh_n s \<ge> LOGSIZE \<or> lh_n s \<ge> lg_size s - 1 then Panic ''too big a transaction''
      else if lg_outstanding s < 1 then Panic ''log_write outside of trans''
      else kbind (lock_acquire LLog s) (\<lambda>_ s.
        let n = b_blockno (bufs s ! b);
            i = log_index n (lh_n s) (lh_block s);
            s = s\<lparr>lh_block := (lh_block s)[i := n], lh_n := (if int i = lh_n s then lh_n s + 1 else lh_n s)\<rparr>
        in lock_release LLog (bpin b s)))"

section \<open>Updates of many blocks\<close>

definition updn :: "(nat \<Rightarrow> u32) \<Rightarrow> (nat \<Rightarrow> u8 list) \<Rightarrow> nat \<Rightarrow> (u32 \<Rightarrow> u8 list) \<Rightarrow> u32 \<Rightarrow> u8 list" where
  "updn f v k d = fold (\<lambda>i d. d(f i := v i)) [0..<k] d"

lemma updn_simps [simp]: "updn f v 0 d = d" "updn f v (Suc k) d = (updn f v k d)(f k := v k)"
  by (simp_all add: updn_def)

lemma updn_out: "(\<And>i. i < k \<Longrightarrow> f i \<noteq> m) \<Longrightarrow> updn f v k d m = d m"
  by (induction k) auto

lemma updn_in: "inj_on f {..<k} \<Longrightarrow> i < k \<Longrightarrow> updn f v k d (f i) = v i"
proof (induction k)
  case (Suc k)
  then have "inj_on f {..<k}" by (auto intro: inj_on_subset)
  moreover have "i < k \<Longrightarrow> f i \<noteq> f k" using Suc.prems by (auto dest: inj_onD)
  ultimately show ?case using Suc by (auto simp: less_Suc_eq)
qed simp

lemma updn_cong: "(\<And>i. i < k \<Longrightarrow> f i = g i \<and> v i = w i) \<Longrightarrow> updn f v k d = updn g w k d"
  by (induction k) auto

definition apply_writes :: "(u32 \<times> u32 \<times> u8 list) list \<Rightarrow> (u32 \<Rightarrow> u8 list) \<Rightarrow> u32 \<Rightarrow> u8 list" where
  "apply_writes ws d = foldr (\<lambda>(dev, m, x) d. d(m := x)) ws d"

lemma apply_writes_simps [simp]:
  "apply_writes [] d = d" "apply_writes ((dev, m, x) # ws) d = (apply_writes ws d)(m := x)"
  "apply_writes (ws @ ws') d = apply_writes ws (apply_writes ws' d)"
  by (simp_all add: apply_writes_def)

definition wlist :: "(nat \<Rightarrow> u32) \<Rightarrow> (nat \<Rightarrow> u8 list) \<Rightarrow> nat \<Rightarrow> (u32 \<times> u32 \<times> u8 list) list" where
  "wlist f v k = rev (map (\<lambda>i. (1, f i, v i)) [0..<k])"

lemma wlist_simps [simp]: "wlist f v 0 = []" "wlist f v (Suc k) = (1, f k, v k) # wlist f v k" "length (wlist f v k) = k"
  by (simp_all add: wlist_def)

lemma apply_wlist [simp]: "apply_writes (wlist f v k) d = updn f v k d"
  by (induction k) simp_all

lemma drop_wlist: "drop j (wlist f v k) = wlist f v (k - j)"
  by (induction k arbitrary: j) (auto simp: drop_Cons split: nat.split)

lemma kfor_append: "kfor f (xs @ ys) s = kbind (kfor f xs s) (\<lambda>_ s. kfor f ys s)"
  by (induction xs arbitrary: s) (simp_all add: kbind_assoc)

lemma kfor_Suc: "kfor f [0..<Suc k] s = kbind (kfor f [0..<k] s) (\<lambda>_ s. f k s)"
proof -
  have "kbind m (\<lambda>_. Ret ()) = m" for m :: "(unit, 'a) res" by (cases m) auto
  then show ?thesis by (simp add: kfor_append)
qed

section \<open>The header block\<close>

lemma length_fold_put32:
  "(\<And>i. i \<in> set is \<Longrightarrow> 4 * i + 8 \<le> length d) \<Longrightarrow> length (fold (\<lambda>i. put32 (4 + 4 * i) (bs ! i)) is d) = length d"
proof (induction "is" arbitrary: d)
  case (Cons a "is")
  have "4 * a + 8 \<le> length d" using Cons.prems [of a] by simp
  then have "length (put32 (4 + 4 * a) (bs ! a) d) = length d" by simp
  then show ?case using Cons.IH [of "put32 (4 + 4 * a) (bs ! a) d"] Cons.prems by simp
qed simp

lemma fold_put32_other:
  "(\<And>i. i < k \<Longrightarrow> 4 * i + 8 \<le> length d) \<Longrightarrow> j + 4 \<le> length d \<Longrightarrow> (\<And>i. i < k \<Longrightarrow> j + 4 \<le> 4 + 4 * i \<or> 8 + 4 * i \<le> j) \<Longrightarrow>
   get32 (fold (\<lambda>i. put32 (4 + 4 * i) (bs ! i)) [0..<k] d) j = get32 d j"
proof (induction k)
  case (Suc k)
  let ?d = "fold (\<lambda>i. put32 (4 + 4 * i) (bs ! i)) [0..<k] d"
  have "length ?d = length d" using Suc.prems(1) by (intro length_fold_put32) auto
  moreover have "get32 ?d j = get32 d j" using Suc.prems by (intro Suc.IH) auto
  ultimately show ?case using Suc.prems(1) [of k] Suc.prems(2) Suc.prems(3) [of k] by (auto simp: ac_simps)
qed simp

lemma head_bytes_read:
  assumes "0 \<le> n" "n \<le> 30" "length d = 512"
  shows "get32 (head_bytes n bs d) 0 = word_of_int n" "length (head_bytes n bs d) = 512"
    "i < nat n \<Longrightarrow> get32 (head_bytes n bs d) (4 + 4 * i) = bs ! i"
proof -
  let ?d = "put32 0 (word_of_int n) d"
  have l: "4 * i + 8 \<le> length ?d" if "i < nat n" for i using that assms by simp
  show "get32 (head_bytes n bs d) 0 = word_of_int n"
    unfolding head_bytes_def using assms l by (subst fold_put32_other) auto
  show "length (head_bytes n bs d) = 512"
    unfolding head_bytes_def using assms l by (subst length_fold_put32) auto
  have "get32 (fold (\<lambda>i. put32 (4 + 4 * i) (bs ! i)) [0..<k] ?d) (4 + 4 * i) = bs ! i" if "i < k" "k \<le> nat n" for i k
    using that
  proof (induction k)
    case (Suc k)
    let ?e = "fold (\<lambda>i. put32 (4 + 4 * i) (bs ! i)) [0..<k] ?d"
    have len: "length ?e = 512" using Suc.prems l assms(3) by (subst length_fold_put32) auto
    have k: "8 + 4 * k \<le> 512" using Suc.prems assms by simp
    show ?case
    proof (cases "i = k")
      case True
      then show ?thesis using len k by simp
    next
      case False
      then have "i < k" using Suc.prems by simp
      then show ?thesis using Suc.IH Suc.prems len k by simp
    qed
  qed simp
  then show "i < nat n \<Longrightarrow> get32 (head_bytes n bs d) (4 + 4 * i) = bs ! i"
    unfolding head_bytes_def by blast
qed

section \<open>The steps of a commit\<close>

text \<open>The cache and the log are separate parts of the state.\<close>

lemma bio_ok_log [simp]:
  "bio_ok (s\<lparr>lh_n := x0\<rparr>) = bio_ok s"
  "bio_ok (s\<lparr>lh_block := x1\<rparr>) = bio_ok s"
  "bio_ok (s\<lparr>lg_outstanding := x2\<rparr>) = bio_ok s"
  "bio_ok (s\<lparr>lg_committing := x3\<rparr>) = bio_ok s"
  "bio_ok (s\<lparr>lg_start := x4\<rparr>) = bio_ok s"
  "bio_ok (s\<lparr>lg_size := x5\<rparr>) = bio_ok s"
  "bio_ok (s\<lparr>lg_dev := x6\<rparr>) = bio_ok s"
  by (simp_all add: bio_ok_def ptab_ok_def fs_quiet_def mypid_def)

lemma blk_log [simp]:
  "blk (s\<lparr>lh_n := x0\<rparr>) = blk s"
  "blk (s\<lparr>lh_block := x1\<rparr>) = blk s"
  "blk (s\<lparr>lg_outstanding := x2\<rparr>) = blk s"
  "blk (s\<lparr>lg_committing := x3\<rparr>) = blk s"
  "blk (s\<lparr>lg_start := x4\<rparr>) = blk s"
  "blk (s\<lparr>lg_size := x5\<rparr>) = blk s"
  "blk (s\<lparr>lg_dev := x6\<rparr>) = blk s"
  by (simp_all add: blk_def fun_eq_iff cong: option.case_cong)

lemma locked_blocks_log [simp]:
  "locked_blocks (s\<lparr>lh_n := x0\<rparr>) = locked_blocks s"
  "locked_blocks (s\<lparr>lh_block := x1\<rparr>) = locked_blocks s"
  "locked_blocks (s\<lparr>lg_outstanding := x2\<rparr>) = locked_blocks s"
  "locked_blocks (s\<lparr>lg_committing := x3\<rparr>) = locked_blocks s"
  "locked_blocks (s\<lparr>lg_start := x4\<rparr>) = locked_blocks s"
  "locked_blocks (s\<lparr>lg_size := x5\<rparr>) = locked_blocks s"
  "locked_blocks (s\<lparr>lg_dev := x6\<rparr>) = locked_blocks s"
  by (simp_all add: locked_blocks_def)

lemma dirty_blocks_log [simp]:
  "dirty_blocks (s\<lparr>lh_n := x0\<rparr>) = dirty_blocks s"
  "dirty_blocks (s\<lparr>lh_block := x1\<rparr>) = dirty_blocks s"
  "dirty_blocks (s\<lparr>lg_outstanding := x2\<rparr>) = dirty_blocks s"
  "dirty_blocks (s\<lparr>lg_committing := x3\<rparr>) = dirty_blocks s"
  "dirty_blocks (s\<lparr>lg_start := x4\<rparr>) = dirty_blocks s"
  "dirty_blocks (s\<lparr>lg_size := x5\<rparr>) = dirty_blocks s"
  "dirty_blocks (s\<lparr>lg_dev := x6\<rparr>) = dirty_blocks s"
  by (simp_all add: dirty_blocks_def)

lemma holds_buf_log [simp]:
  "holds_buf (s\<lparr>lh_n := x0\<rparr>) m c = holds_buf s m c"
  "holds_buf (s\<lparr>lh_block := x1\<rparr>) m c = holds_buf s m c"
  "holds_buf (s\<lparr>lg_outstanding := x2\<rparr>) m c = holds_buf s m c"
  "holds_buf (s\<lparr>lg_committing := x3\<rparr>) m c = holds_buf s m c"
  "holds_buf (s\<lparr>lg_start := x4\<rparr>) m c = holds_buf s m c"
  "holds_buf (s\<lparr>lg_size := x5\<rparr>) m c = holds_buf s m c"
  "holds_buf (s\<lparr>lg_dev := x6\<rparr>) m c = holds_buf s m c"
  by (simp_all add: holds_buf_def)

lemma bview_log:
  assumes "bview t = bview s"
  shows "lg_start t = lg_start s" "lg_size t = lg_size s" "lg_dev t = lg_dev s" "lh_n t = lh_n s" "lh_block t = lh_block s"
    "lg_outstanding t = lg_outstanding s" "lg_committing t = lg_committing s" "log_blk i t = log_blk i s"
proof -
  note c = arg_cong [OF assms]
  show e: "lg_start t = lg_start s" "lg_size t = lg_size s" "lg_dev t = lg_dev s" "lh_n t = lh_n s" "lh_block t = lh_block s"
    "lg_outstanding t = lg_outstanding s" "lg_committing t = lg_committing s"
    using c [of lg_start] c [of lg_size] c [of lg_dev] c [of lh_n] c [of lh_block] c [of lg_outstanding] c [of lg_committing]
    by (simp_all add: bview_def)
  then show "log_blk i t = log_blk i s" by (simp add: log_blk_def)
qed

text \<open>
  The geometry of the log: device 1, the log area below block 1000, and \<open>n\<close> entries for different blocks outside the area.
\<close>

definition log_area :: "'a lgst_scheme \<Rightarrow> u32 set" where
  "log_area s = (\<lambda>i. log_blk i s) ` {0..<lg_size s}"

definition entries_ok :: "'a lgst_scheme \<Rightarrow> nat \<Rightarrow> u32 list \<Rightarrow> bool" where
  "entries_ok s n bs \<longleftrightarrow> n \<le> length bs \<and> n < 30 \<and> int n < lg_size s \<and> distinct (take n bs) \<and>
     (\<forall>i<n. bs ! i < 1000 \<and> bs ! i \<notin> log_area s)"

definition geom_ok :: "'a lgst_scheme \<Rightarrow> bool" where
  "geom_ok s \<longleftrightarrow> lg_dev s = 1 \<and> 0 \<le> lg_start s \<and> 0 < lg_size s \<and> lg_start s + lg_size s \<le> 1000"

lemma log_blk_props:
  assumes "geom_ok s" "0 \<le> i" "i < lg_size s"
  shows "log_blk i s < 1000" "log_blk i s \<in> log_area s" "0 \<le> j \<Longrightarrow> j < lg_size s \<Longrightarrow> log_blk i s = log_blk j s \<longleftrightarrow> i = j"
proof -
  have u: "uint (log_blk k s) = lg_start s + k" if "0 \<le> k" "k < lg_size s" for k
    using assms(1) that by (simp add: log_blk_def geom_ok_def unsigned_of_int take_bit_int_eq_self del: of_int_add)
  show "log_blk i s < 1000" using u [OF assms(2,3)] assms by (simp add: word_less_def geom_ok_def)
  show "log_blk i s \<in> log_area s" unfolding log_area_def using assms(2,3) by (intro imageI) simp
  assume j: "0 \<le> j" "j < lg_size s"
  show "log_blk i s = log_blk j s \<longleftrightarrow> i = j"
  proof
    assume "log_blk i s = log_blk j s"
    then have "uint (log_blk i s) = uint (log_blk j s)" by (rule arg_cong)
    then show "i = j" unfolding u [OF assms(2,3)] u [OF j] by simp
  qed simp
qed

lemma bview_geom: "bview t = bview s \<Longrightarrow> geom_ok t = geom_ok s" "bview t = bview s \<Longrightarrow> log_area t = log_area s"
  "bview t = bview s \<Longrightarrow> entries_ok t n bs = entries_ok s n bs"
  using bview_log [of t s] by (auto simp: geom_ok_def log_area_def entries_ok_def)

lemma write_log_loop:
  assumes "bio_ok s" "geom_ok s" "locked_blocks s = {}" "entries_ok s n (lh_block s)" "dirty_blocks s = set (take n (lh_block s))" "k \<le> n"
  shows "\<exists>t. kfor write_log_entry [0..<k] s = Ret () t \<and> bio_ok t \<and> bview t = bview s \<and> locked_blocks t = {} \<and>
    dirty_blocks t = dirty_blocks s \<and> blk t = updn (\<lambda>i. log_blk (int i + 1) s) (\<lambda>i. blk s (lh_block s ! i)) k (blk s) \<and>
    disk t 1 = updn (\<lambda>i. log_blk (int i + 1) s) (\<lambda>i. blk s (lh_block s ! i)) k (disk s 1) \<and>
    dwrites t = wlist (\<lambda>i. log_blk (int i + 1) s) (\<lambda>i. blk s (lh_block s ! i)) k @ dwrites s"
  using assms(6)
proof (induction k)
  case 0
  then show ?case using assms by simp
next
  case (Suc k)
  let ?l = "\<lambda>i. log_blk (int i + 1) s" and ?v = "\<lambda>i. blk s (lh_block s ! i)"
  obtain t where t: "kfor write_log_entry [0..<k] s = Ret () t" "bio_ok t" "bview t = bview s" "locked_blocks t = {}"
    "dirty_blocks t = dirty_blocks s" "blk t = updn ?l ?v k (blk s)" "disk t 1 = updn ?l ?v k (disk s 1)"
    "dwrites t = wlist ?l ?v k @ dwrites s" using Suc by auto
  note e = assms(4) [unfolded entries_ok_def]
  have kn: "k < n" "k < length (lh_block s)" "int k + 1 < lg_size s" using Suc.prems e by auto
  let ?a = "lh_block s ! k"
  have a: "?a < 1000" "?a \<notin> log_area s" "?a \<in> dirty_blocks s" using e kn assms(5) by (auto simp: in_set_conv_nth)
  have l: "?l k < 1000" "?l k \<in> log_area s" using log_blk_props [OF assms(2), of "int k + 1"] kn by auto
  have dcard: "card (dirty_blocks t) < 30" using t(5) assms(5) e distinct_card [of "take n (lh_block s)"] by simp
  have "?l i \<noteq> ?a" if "i < k" for i using that a(2) kn log_blk_props(2) [OF assms(2), of "int i + 1"] by auto
  then have bl: "blk t ?a = ?v k" unfolding t(6) by (intro updn_out)
  have nd: "?l k \<notin> dirty_blocks s" using e l(2) assms(5) by (auto simp: in_set_conv_nth)
  have ne: "?a \<noteq> ?l k" using a(2) l(2) by metis
  obtain u where u: "kbind (bread 1 (?l k) t) (\<lambda>y s. kbind (bread 1 ?a s) (\<lambda>x s. kbind (bwrite y (bput y (b_data (bufs s ! x)) s)) (\<lambda>_ s.
      kbind (brelse x s) (\<lambda>_ s. brelse y s)))) = Ret () u" "bio_ok u" "bview u = bview t" "locked_blocks u = {}"
    "dirty_blocks u = dirty_blocks t - {?l k}" "blk u = (blk t)(?l k := blk t ?a)" "disk u 1 = (disk t 1)(?l k := blk t ?a)"
    "dwrites u = (1, ?l k, blk t ?a) # dwrites t"
    using bc.copy_block(2) [OF t(2,4) a(1) l(1) ne dcard] a(3) t(5) by auto
  note tl = bview_log [OF t(3)]
  have "write_log_entry k t = Ret () u"
  proof -
    have "lg_dev (x :: 'a lgst_scheme) = 1 \<and> lh_block x = lh_block s" if "bread 1 (?l k) t = Ret b x" for b x
      using that bc.rd [OF t(2) l(1)] t(4) dcard bview_log [of x t] tl assms(2) by (auto simp: geom_ok_def)
    then have "write_log_entry k t = kbind (bread 1 (?l k) t) (\<lambda>y s. kbind (bread 1 ?a s) (\<lambda>x s. kbind (bwrite y (bput y (b_data (bufs s ! x)) s)) (\<lambda>_ s.
      kbind (brelse x s) (\<lambda>_ s. brelse y s))))"
      using kn tl assms(2) unfolding write_log_entry_def geom_ok_def by (auto intro!: kbind_cong)
    then show ?thesis using u(1) by simp
  qed
  then have "kfor write_log_entry [0..<Suc k] s = Ret () u" unfolding kfor_Suc using t(1) by simp
  then show ?case using t(3,5-8) u bl nd by (intro exI [of _ u]) simp
qed

lemma install_loop:
  assumes "bio_ok s" "geom_ok s" "locked_blocks s = {}" "entries_ok s n (lh_block s)"
    and dirty: "dirty_blocks s = set (take n (lh_block s)) \<or> dirty_blocks s = {}" and "k \<le> n"
  shows "\<exists>t. kfor install_entry [0..<k] s = Ret () t \<and> bio_ok t \<and> bview t = bview s \<and> locked_blocks t = {} \<and>
    dirty_blocks t = dirty_blocks s - set (take k (lh_block s)) \<and>
    blk t = updn (\<lambda>i. lh_block s ! i) (\<lambda>i. blk s (log_blk (int i + 1) s)) k (blk s) \<and>
    disk t 1 = updn (\<lambda>i. lh_block s ! i) (\<lambda>i. blk s (log_blk (int i + 1) s)) k (disk s 1) \<and>
    dwrites t = wlist (\<lambda>i. lh_block s ! i) (\<lambda>i. blk s (log_blk (int i + 1) s)) k @ dwrites s"
  using assms(6)
proof (induction k)
  case 0
  then show ?case using assms by simp
next
  case (Suc k)
  let ?l = "\<lambda>i. log_blk (int i + 1) s" and ?b = "\<lambda>i. lh_block s ! i"
  let ?v = "\<lambda>i. blk s (?l i)"
  obtain t where t: "kfor install_entry [0..<k] s = Ret () t" "bio_ok t" "bview t = bview s" "locked_blocks t = {}"
    "dirty_blocks t = dirty_blocks s - set (take k (lh_block s))" "blk t = updn ?b ?v k (blk s)" "disk t 1 = updn ?b ?v k (disk s 1)"
    "dwrites t = wlist ?b ?v k @ dwrites s" using Suc by auto
  note e = assms(4) [unfolded entries_ok_def]
  have kn: "k < n" "k < length (lh_block s)" "int k + 1 < lg_size s" using Suc.prems e by auto
  have b: "?b i < 1000" "?b i \<notin> log_area s" if "i < n" for i using e that by auto
  have l: "?l k < 1000" "?l k \<in> log_area s" using log_blk_props [OF assms(2), of "int k + 1"] kn by auto
  have "card (dirty_blocks s) < 30" using dirty e distinct_card [of "take n (lh_block s)"] by auto
  then have dcard: "card (dirty_blocks t) < 30"
    unfolding t(5) using card_mono [OF finite_blocks(2), of "dirty_blocks s - set (take k (lh_block s))" s] by auto
  have "?b k \<notin> set (take k (lh_block s))" using e kn by (auto simp: distinct_conv_nth in_set_conv_nth)
  moreover have "?b k \<in> set (take n (lh_block s))" using kn by (auto simp: in_set_conv_nth)
  ultimately have room: "?b k \<in> dirty_blocks t \<or> card (dirty_blocks t) < 29" using dirty unfolding t(5) by auto
  have "?b i \<noteq> ?l k" if "i < k" for i using that b(2) [of i] kn(1) l(2) by auto
  then have bl: "blk t (?l k) = ?v k" unfolding t(6) by (intro updn_out)
  have ne: "?l k \<noteq> ?b k" using b(2) [OF kn(1)] l(2) by metis
  obtain u where u: "kbind (bread 1 (?l k) t) (\<lambda>x s. kbind (bread 1 (?b k) s) (\<lambda>y s. kbind (bwrite y (bput y (b_data (bufs s ! x)) s)) (\<lambda>_ s.
      kbind (brelse x s) (\<lambda>_ s. brelse y s)))) = Ret () u" "bio_ok u" "bview u = bview t" "locked_blocks u = {}"
    "dirty_blocks u = dirty_blocks t - {?b k}" "blk u = (blk t)(?b k := blk t (?l k))" "disk u 1 = (disk t 1)(?b k := blk t (?l k))"
    "dwrites u = (1, ?b k, blk t (?l k)) # dwrites t"
    using bc.copy_block(1) [OF t(2,4) l(1) b(1) [OF kn(1)] ne dcard room] by auto
  note tl = bview_log [OF t(3)]
  have "lg_dev (x :: 'a lgst_scheme) = 1 \<and> lh_block x = lh_block s" if "bread 1 (?l k) t = Ret b x" for b x
    using that bc.rd [OF t(2) l(1)] t(4) dcard bview_log [of x t] tl assms(2) by (auto simp: geom_ok_def)
  then have "install_entry k t = kbind (bread 1 (?l k) t) (\<lambda>x s. kbind (bread 1 (?b k) s) (\<lambda>y s. kbind (bwrite y (bput y (b_data (bufs s ! x)) s)) (\<lambda>_ s.
      kbind (brelse x s) (\<lambda>_ s. brelse y s))))"
    using kn tl assms(2) unfolding install_entry_def geom_ok_def by (auto intro!: kbind_cong)
  then have r: "kfor install_entry [0..<Suc k] s = Ret () u" unfolding kfor_Suc using t(1) u(1) by simp
  have "set (take (Suc k) (lh_block s)) = insert (?b k) (set (take k (lh_block s)))" using kn by (simp add: take_Suc_conv_app_nth)
  then show ?case using r t(3,5-8) u bl by (intro exI [of _ u]) auto
qed

lemma write_head_Ret:
  assumes "bio_ok s" "geom_ok s" "locked_blocks s = {}" "card (dirty_blocks s) < 30" "log_blk 0 s \<notin> dirty_blocks s"
    "lh_n s \<le> int (length (lh_block s))"
  shows "\<exists>t. write_head s = Ret () t \<and> bio_ok t \<and> bview t = bview s \<and> locked_blocks t = {} \<and> dirty_blocks t = dirty_blocks s \<and>
    blk t = (blk s)(log_blk 0 s := head_bytes (lh_n s) (lh_block s) (blk s (log_blk 0 s))) \<and>
    disk t 1 = (disk s 1)(log_blk 0 s := head_bytes (lh_n s) (lh_block s) (blk s (log_blk 0 s))) \<and>
    dwrites t = (1, log_blk 0 s, head_bytes (lh_n s) (lh_block s) (blk s (log_blk 0 s))) # dwrites s"
proof -
  have l: "log_blk 0 s < 1000" using log_blk_props(1) [OF assms(2), of 0] assms(2) by (simp add: geom_ok_def)
  let ?h = "head_bytes (lh_n s) (lh_block s)"
  obtain t where t: "kbind (bread 1 (log_blk 0 s) s) (\<lambda>b s. kbind (bwrite b (bput b (?h (b_data (bufs s ! b))) s)) (\<lambda>_ s. brelse b s)) = Ret () t"
    "bio_ok t" "bview t = bview s" "locked_blocks t = {}" "dirty_blocks t = dirty_blocks s - {log_blk 0 s}"
    "blk t = (blk s)(log_blk 0 s := ?h (blk s (log_blk 0 s)))" "disk t 1 = (disk s 1)(log_blk 0 s := ?h (blk s (log_blk 0 s)))"
    "dwrites t = (1, log_blk 0 s, ?h (blk s (log_blk 0 s))) # dwrites s"
    using bc.rewrite_block [OF assms(1,3) l assms(4), of ?h] by auto
  have "lh_n (x :: 'a lgst_scheme) = lh_n s \<and> lh_block x = lh_block s" if "bread 1 (log_blk 0 s) s = Ret b x" for b x
    using that bc.rd [OF assms(1) l] assms(3,4) bview_log [of x s] by auto
  then have "write_head s = kbind (bread 1 (log_blk 0 s) s) (\<lambda>b s. kbind (bwrite b (bput b (?h (b_data (bufs s ! b))) s)) (\<lambda>_ s. brelse b s))"
    using assms(2,6) unfolding write_head_def geom_ok_def by (auto intro!: kbind_cong)
  then show ?thesis using t assms(5) by (intro exI [of _ t]) simp
qed

section \<open>Recovery\<close>

definition head_blocks :: "nat \<Rightarrow> u8 list \<Rightarrow> u32 list" where
  "head_blocks n d = map (\<lambda>i. get32 d (4 + 4 * i)) [0..<n]"

lemma bview_lh [simp]: "bview (s\<lparr>lh_n := x\<rparr>) = (bview s)\<lparr>lh_n := x\<rparr>" "bview (s\<lparr>lh_block := y\<rparr>) = (bview s)\<lparr>lh_block := y\<rparr>"
  "bview (s\<lparr>lg_outstanding := z\<rparr>) = (bview s)\<lparr>lg_outstanding := z\<rparr>" "bview (s\<lparr>lg_committing := w\<rparr>) = (bview s)\<lparr>lg_committing := w\<rparr>"
  by (simp_all add: bview_def)

lemma geom_lh [simp]: "geom_ok (s\<lparr>lh_n := x\<rparr>) = geom_ok s" "geom_ok (s\<lparr>lh_block := y\<rparr>) = geom_ok s"
  "log_blk i (s\<lparr>lh_n := x\<rparr>) = log_blk i s" "log_blk i (s\<lparr>lh_block := y\<rparr>) = log_blk i s"
  "log_area (s\<lparr>lh_n := x\<rparr>) = log_area s" "log_area (s\<lparr>lh_block := y\<rparr>) = log_area s"
  "entries_ok (s\<lparr>lh_n := x\<rparr>) k bs = entries_ok s k bs" "entries_ok (s\<lparr>lh_block := y\<rparr>) k bs = entries_ok s k bs"
  by (simp_all add: geom_ok_def log_blk_def log_area_def entries_ok_def)

lemma read_head_Ret:
  assumes ok: "bio_ok s" "geom_ok s" "locked_blocks s = {}" "dirty_blocks s = {}"
    and n: "n = sint (get32 (disk s 1 (log_blk 0 s)) 0)" "n \<le> 30"
  shows "\<exists>t. read_head s = Ret () t \<and> bio_ok t \<and> locked_blocks t = {} \<and> dirty_blocks t = {} \<and> disk t = disk s \<and> dwrites t = dwrites s \<and>
    bview t = bview (s\<lparr>lh_n := n, lh_block := head_blocks (nat n) (disk s 1 (log_blk 0 s)) @ drop (nat n) (lh_block s)\<rparr>)"
proof -
  have l: "log_blk 0 s < 1000" using log_blk_props(1) [OF assms(2), of 0] assms(2) by (simp add: geom_ok_def)
  have bs: "blk s (log_blk 0 s) = disk s 1 (log_blk 0 s)" using bc.clean [OF ok(1)] ok(3,4) by blast
  obtain b u where u: "bread 1 (log_blk 0 s) s = Ret b u" "bio_ok u" "bview u = bview s" "holds_buf u (log_blk 0 s) b" "blk u = blk s"
    "disk u = disk s" "dwrites u = dwrites s" "locked_blocks u = {log_blk 0 s}" "dirty_blocks u = {}"
    using bread_Ret [OF ok(1) l] ok(3,4) by (auto simp: holds_buf_def)
  have d: "b_data (bufs u ! b) = disk s 1 (log_blk 0 s)" using bc.dat [OF u(2,4)] u(5) bs by simp
  let ?v = "u\<lparr>lh_n := n, lh_block := head_blocks (nat n) (disk s 1 (log_blk 0 s)) @ drop (nat n) (lh_block s)\<rparr>"
  have v: "bio_ok ?v" "holds_buf ?v (log_blk 0 s) b" "blk ?v (log_blk 0 s) = disk ?v 1 (log_blk 0 s)"
    using u bs by simp_all
  obtain t where t: "brelse b ?v = Ret () t" "bio_ok t" "bview t = bview ?v" "disk t = disk s" "dwrites t = dwrites s"
    "locked_blocks t = {}" "dirty_blocks t = {}" using brelse_Ret [OF v(1,2)] v(3) u by auto
  have "read_head s = Ret () t"
    using u(1) t(1) d n bview_log(5) [OF u(3)] ok(2) by (simp add: read_head_def geom_ok_def head_blocks_def Let_def)
  then show ?thesis using t u(3) by (intro exI [of _ t]) simp
qed

lemma recover_Ret:
  assumes ok: "bio_ok s" "geom_ok s" "locked_blocks s = {}" "dirty_blocks s = {}" "length (lh_block s) = 30"
    and n: "int n = sint (get32 (disk s 1 (log_blk 0 s)) 0)" and e: "entries_ok s n (head_blocks n (disk s 1 (log_blk 0 s)))"
  shows "\<exists>t. recover_from_log s = Ret () t \<and> bio_ok t \<and> locked_blocks t = {} \<and> dirty_blocks t = {} \<and> lh_n t = 0 \<and> geom_ok t \<and>
    log_area t = log_area s \<and> disk t 1 = (updn (\<lambda>i. head_blocks n (disk s 1 (log_blk 0 s)) ! i) (\<lambda>i. disk s 1 (log_blk (int i + 1) s)) n
      (disk s 1)) (log_blk 0 s := put32 0 0 (disk s 1 (log_blk 0 s)))"
proof -
  let ?d = "disk s 1 (log_blk 0 s)"
  let ?bs = "head_blocks n ?d @ drop n (lh_block s)"
  have n30: "n < 30" using e by (simp add: entries_ok_def)
  have lh: "length (head_blocks n ?d) = n" by (simp add: head_blocks_def)
  obtain t where t: "read_head s = Ret () t" "bio_ok t" "locked_blocks t = {}" "dirty_blocks t = {}" "disk t = disk s"
    "bview t = bview (s\<lparr>lh_n := int n, lh_block := ?bs\<rparr>)"
    using read_head_Ret [OF ok(1-4) n] n30 by auto
  note tl = bview_log [OF t(6)] and tg = bview_geom [OF t(6)]
  have lhb: "lh_block t = ?bs" "lh_n t = int n" "log_blk i t = log_blk i s" for i using tl by simp_all
  have et: "entries_ok t n (lh_block t)" using e lh ok(5) n30 unfolding tg(3) lhb(1) by (auto simp: entries_ok_def nth_append)
  have gt: "geom_ok t" using tg(1) ok(2) by simp
  have cl: "blk t = disk s 1" using bc.clean [OF t(2)] t(3,4,5) by auto
  obtain u where u: "kfor install_entry [0..<n] t = Ret () u" "bio_ok u" "bview u = bview t" "locked_blocks u = {}"
    "dirty_blocks u = {}" "blk u = updn (\<lambda>i. lh_block t ! i) (\<lambda>i. blk t (log_blk (int i + 1) t)) n (blk t)"
    "disk u 1 = updn (\<lambda>i. lh_block t ! i) (\<lambda>i. blk t (log_blk (int i + 1) t)) n (disk t 1)"
    using install_loop [OF t(2) gt t(3) et _ order_refl] t(4) by auto
  have i: "install_trans t = Ret () u" using u(1) lhb by (simp add: install_trans_def)
  note ul = bview_log [OF u(3)] and ug = bview_geom [OF u(3)]
  let ?u = "u\<lparr>lh_n := 0\<rparr>"
  obtain v where v: "write_head ?u = Ret () v" "bio_ok v" "bview v = bview ?u" "locked_blocks v = {}" "dirty_blocks v = {}"
    "disk v 1 = (disk u 1)(log_blk 0 s := head_bytes 0 (lh_block u) (blk u (log_blk 0 s)))"
    using write_head_Ret [of ?u] u(2,4,5) gt ug ul lhb by auto
  have area: "log_blk 0 s \<in> log_area s" using log_blk_props(2) [OF ok(2), of 0] ok(2) by (simp add: geom_ok_def)
  have bsn: "i < n \<Longrightarrow> ?bs ! i = head_blocks n ?d ! i" for i using lh by (simp add: nth_append)
  have "blk u (log_blk 0 s) = ?d" unfolding u(6) cl lhb using e area by (intro updn_out) (auto simp: entries_ok_def bsn)
  moreover have "disk u 1 = updn (\<lambda>i. head_blocks n ?d ! i) (\<lambda>i. disk s 1 (log_blk (int i + 1) s)) n (disk s 1)"
    unfolding u(7) cl lhb t(5) by (rule updn_cong) (simp add: bsn)
  moreover have "recover_from_log s = Ret () v" using t(1) i v(1) by (simp add: recover_from_log_def)
  ultimately show ?thesis
    using v bview_log(4) [OF v(3)] bview_geom(1,2) [OF v(3)] ug gt tg by (intro exI [of _ v]) (simp add: head_bytes_def)
qed

section \<open>Commit\<close>

text \<open>
  The log between two operations: \<open>n\<close> blocks are logged, exactly these are dirty in the cache, and the header on the disk is that of an empty log.
\<close>

definition log_ok :: "'a lgst_scheme \<Rightarrow> nat \<Rightarrow> bool" where
  "log_ok s n \<longleftrightarrow> bio_ok s \<and> geom_ok s \<and> locked_blocks s = {} \<and> length (lh_block s) = 30 \<and> lh_n s = int n \<and>
     entries_ok s n (lh_block s) \<and> dirty_blocks s = set (take n (lh_block s)) \<and>
     length (disk s 1 (log_blk 0 s)) = 512 \<and> get32 (disk s 1 (log_blk 0 s)) 0 = 0"

text \<open>The disk writes of a commit, newest first.\<close>

definition commit_writes :: "'a lgst_scheme \<Rightarrow> nat \<Rightarrow> (u32 \<times> u32 \<times> u8 list) list" where
  "commit_writes s n =
     (let h = head_bytes (int n) (lh_block s) (disk s 1 (log_blk 0 s)); new = (\<lambda>i. blk s (lh_block s ! i))
      in (1, log_blk 0 s, put32 0 0 h) # wlist (\<lambda>i. lh_block s ! i) new n @ (1, log_blk 0 s, h) # wlist (\<lambda>i. log_blk (int i + 1) s) new n)"

lemma log_okD:
  assumes "log_ok s n"
  shows "i < n \<Longrightarrow> lh_block s ! i \<notin> log_area s" "i < n \<Longrightarrow> log_blk (int i + 1) s \<in> log_area s"
    "log_blk 0 s \<in> log_area s" "i < n \<Longrightarrow> log_blk (int i + 1) s \<noteq> log_blk 0 s" "i < n \<Longrightarrow> lh_block s ! i \<noteq> log_blk 0 s"
    "inj_on (\<lambda>i. log_blk (int i + 1) s) {..<n}" "inj_on (\<lambda>i. lh_block s ! i) {..<n}" "m \<in> log_area s \<Longrightarrow> m \<notin> dirty_blocks s"
    "m \<notin> dirty_blocks s \<Longrightarrow> blk s m = disk s 1 m"
proof -
  have g: "geom_ok s" and e: "entries_ok s n (lh_block s)" and d: "dirty_blocks s = set (take n (lh_block s))"
    and b: "bio_ok s" "locked_blocks s = {}" using assms by (simp_all add: log_ok_def)
  have sz: "int n < lg_size s" "n \<le> length (lh_block s)" "distinct (take n (lh_block s))" using e by (auto simp: entries_ok_def)
  show a: "i < n \<Longrightarrow> lh_block s ! i \<notin> log_area s" for i using e by (simp add: entries_ok_def)
  show "i < n \<Longrightarrow> log_blk (int i + 1) s \<in> log_area s" using log_blk_props(2) [OF g, of "int i + 1"] sz by simp
  show z: "log_blk 0 s \<in> log_area s" using log_blk_props(2) [OF g, of 0] sz by simp
  show "i < n \<Longrightarrow> log_blk (int i + 1) s \<noteq> log_blk 0 s" using log_blk_props(3) [OF g, of "int i + 1" 0] sz by simp
  show "i < n \<Longrightarrow> lh_block s ! i \<noteq> log_blk 0 s" using a [of i] z by metis
  show "inj_on (\<lambda>i. log_blk (int i + 1) s) {..<n}"
  proof (rule inj_onI)
    fix i j assume "i \<in> {..<n}" "j \<in> {..<n}" "log_blk (int i + 1) s = log_blk (int j + 1) s"
    then show "i = j" using log_blk_props(3) [OF g, of "int i + 1" "int j + 1"] sz by simp
  qed
  show "inj_on (\<lambda>i. lh_block s ! i) {..<n}"
  proof (rule inj_onI)
    fix i j assume "i \<in> {..<n}" "j \<in> {..<n}" "lh_block s ! i = lh_block s ! j"
    then show "i = j" using sz nth_eq_iff_index_eq [OF sz(3), of i j] by simp
  qed
  show "m \<in> log_area s \<Longrightarrow> m \<notin> dirty_blocks s" using a unfolding d by (auto simp: in_set_conv_nth)
  show "m \<notin> dirty_blocks s \<Longrightarrow> blk s m = disk s 1 m" using bc.clean [OF b(1)] b(2) by blast
qed

lemma commit_Ret:
  assumes ok: "log_ok s n" and n: "0 < n"
  shows "\<exists>t. commit s = Ret () t \<and> bio_ok t \<and> locked_blocks t = {} \<and> dirty_blocks t = {} \<and> lh_n t = 0 \<and>
    bview t = bview (s\<lparr>lh_n := 0\<rparr>) \<and> dwrites t = commit_writes s n @ dwrites s \<and> disk t 1 = apply_writes (commit_writes s n) (disk s 1) \<and>
    blk t = disk t 1"
proof -
  let ?L = "log_blk 0 s" and ?l = "\<lambda>i. log_blk (int i + 1) s" and ?b = "\<lambda>i. lh_block s ! i"
  let ?new = "\<lambda>i. blk s (?b i)" and ?h = "head_bytes (int n) (lh_block s) (disk s 1 ?L)"
  have a: "bio_ok s" "geom_ok s" "locked_blocks s = {}" "entries_ok s n (lh_block s)" "dirty_blocks s = set (take n (lh_block s))"
    and lh: "lh_n s = int n" "length (lh_block s) = 30" using ok by (simp_all add: log_ok_def)
  note okd = log_okD [OF ok]
  have n30: "n < 30" using a(4) by (simp add: entries_ok_def)
  have c30: "card (dirty_blocks s) < 30" using a(4,5) distinct_card [of "take n (lh_block s)"] by (auto simp: entries_ok_def)
  obtain s1 where 1: "kfor write_log_entry [0..<n] s = Ret () s1" "bio_ok s1" "bview s1 = bview s" "locked_blocks s1 = {}"
    "dirty_blocks s1 = dirty_blocks s" "blk s1 = updn ?l ?new n (blk s)" "disk s1 1 = updn ?l ?new n (disk s 1)"
    "dwrites s1 = wlist ?l ?new n @ dwrites s" using write_log_loop [OF a order_refl] by auto
  note l1 = bview_log [OF 1(3)] and g1 = bview_geom [OF 1(3)]
  have L1: "blk s1 ?L = disk s 1 ?L" unfolding 1(6) using okd(3,4,8,9) by (subst updn_out) auto
  obtain s2 where 2: "write_head s1 = Ret () s2" "bio_ok s2" "bview s2 = bview s1" "locked_blocks s2 = {}" "dirty_blocks s2 = dirty_blocks s"
    "blk s2 = (blk s1)(?L := ?h)" "disk s2 1 = (disk s1 1)(?L := ?h)" "dwrites s2 = (1, ?L, ?h) # dwrites s1"
    using write_head_Ret [of s1] 1 a l1 g1 lh L1 c30 n30 okd(3,8) by auto
  have v2: "bview s2 = bview s" using 2(3) 1(3) by simp
  note l2 = bview_log [OF v2] and g2 = bview_geom [OF v2]
  have nw: "blk s2 (?l i) = ?new i" if "i < n" for i using okd(4) [OF that] updn_in [OF okd(6) that] by (simp add: 2(6) 1(6))
  have cp: "updn ?b (\<lambda>i. blk s2 (?l i)) n d = updn ?b ?new n d" "wlist ?b (\<lambda>i. blk s2 (?l i)) n = wlist ?b ?new n" for d
    by (rule updn_cong, simp add: nw) (simp add: wlist_def nw)
  have lh2: "lh_block s2 = lh_block s" "\<And>i. log_blk i s2 = log_blk i s" using l2 by simp_all
  obtain s3 where 3: "kfor install_entry [0..<n] s2 = Ret () s3" "bio_ok s3" "bview s3 = bview s2" "locked_blocks s3 = {}"
    "dirty_blocks s3 = {}" "blk s3 = updn ?b ?new n (blk s2)" "disk s3 1 = updn ?b ?new n (disk s2 1)"
    "dwrites s3 = wlist ?b ?new n @ dwrites s2"
    using install_loop [of s2 n n] 2(2,4,5) a g2 unfolding lh2 cp by auto
  have v3: "bview s3 = bview s" using 3(3) v2 by simp
  note l3 = bview_log [OF v3] and g3 = bview_geom [OF v3]
  have L3: "blk s3 ?L = ?h" unfolding 3(6) 2(6) using okd(5) by (subst updn_out) auto
  let ?u = "s3\<lparr>lh_n := 0\<rparr>"
  obtain t where t: "write_head ?u = Ret () t" "bio_ok t" "bview t = bview ?u" "locked_blocks t = {}" "dirty_blocks t = {}"
    "disk t 1 = (disk s3 1)(?L := put32 0 0 ?h)" "dwrites t = (1, ?L, put32 0 0 ?h) # dwrites s3"
    using write_head_Ret [of ?u] 3(2,4,5) a(2) g3 l3 L3 by (auto simp: head_bytes_def)
  have r: "commit s = Ret () t"
    using 1(1) 2(1) 3(1) t(1) n lh l1 l2 by (simp add: commit_def write_log_def install_trans_def)
  have w: "dwrites t = commit_writes s n @ dwrites s" using t(7) 3(8) 2(8) 1(8) by (simp add: commit_writes_def Let_def)
  have d: "disk t 1 = apply_writes (commit_writes s n) (disk s 1)" using t(6) 3(7) 2(7) 1(7) by (simp add: commit_writes_def Let_def)
  have "blk t = disk t 1" using bc.clean [OF t(2)] t(4,5) by auto
  moreover have "bview t = bview (s\<lparr>lh_n := 0\<rparr>)" "lh_n t = 0" using t(3) v3 bview_log(4) [OF t(3)] by simp_all
  ultimately show ?thesis using r t w d by blast
qed

section \<open>Crash safety\<close>

text \<open>A machine that has just been started with the disk \<open>d\<close> and the same log area.\<close>

definition booted :: "'a lgst_scheme \<Rightarrow> (u32 \<Rightarrow> u8 list) \<Rightarrow> 'a lgst_scheme \<Rightarrow> bool" where
  "booted s d u \<longleftrightarrow> bio_ok u \<and> locked_blocks u = {} \<and> dirty_blocks u = {} \<and> disk u 1 = d \<and> length (lh_block u) = 30 \<and>
     lg_dev u = 1 \<and> lg_start u = lg_start s \<and> lg_size u = lg_size s"

lemma booted_geom: "booted s d u \<Longrightarrow> geom_ok s \<Longrightarrow> geom_ok u \<and> log_blk i u = log_blk i s \<and> log_area u = log_area s"
  by (auto simp: booted_def geom_ok_def log_blk_def log_area_def)

lemma recover_empty:
  assumes b: "booted s d u" and g: "geom_ok s" and h: "get32 (d (log_blk 0 s)) 0 = 0"
  shows "\<exists>v. recover_from_log u = Ret () v \<and> (\<forall>m. m \<notin> log_area s \<longrightarrow> disk v 1 m = d m)"
proof -
  note bg = booted_geom [OF b g]
  have z: "log_blk 0 s \<in> log_area s" using log_blk_props(2) [OF g, of 0] g by (simp add: geom_ok_def)
  have "entries_ok u 0 (head_blocks 0 (disk u 1 (log_blk 0 u)))"
    using bg g b by (auto simp: entries_ok_def geom_ok_def booted_def)
  then show ?thesis using recover_Ret [of u 0] b bg h z by (auto simp: booted_def)
qed

lemma recover_full:
  assumes ok: "log_ok s n" and b: "booted s d u"
    and h: "d (log_blk 0 s) = head_bytes (int n) (lh_block s) (disk s 1 (log_blk 0 s))"
    and l: "\<And>i. i < n \<Longrightarrow> d (log_blk (int i + 1) s) = blk s (lh_block s ! i)"
  shows "\<exists>v. recover_from_log u = Ret () v \<and>
    (\<forall>m. m \<notin> log_area s \<longrightarrow> disk v 1 m = updn (\<lambda>i. lh_block s ! i) (\<lambda>i. blk s (lh_block s ! i)) n d m)"
proof -
  have g: "geom_ok s" and e: "entries_ok s n (lh_block s)" and len: "length (disk s 1 (log_blk 0 s)) = 512"
    using ok by (simp_all add: log_ok_def)
  note bg = booted_geom [OF b g]
  have n: "n < 30" "n \<le> length (lh_block s)" using e by (auto simp: entries_ok_def)
  have dd: "disk u 1 = d" "lg_size u = lg_size s" using b by (simp_all add: booted_def)
  note hb = head_bytes_read [where n = "int n" and bs = "lh_block s", OF _ _ len]
  have "sint (word_of_int (int n) :: u32) = int n"
    using n(1) by (simp add: signed_of_int signed_take_bit_int_eq_self del: of_int_of_nat_eq)
  then have hd: "sint (get32 (d (log_blk 0 s)) 0) = int n" using hb(1) n(1) by (simp add: h)
  have bs: "head_blocks n (d (log_blk 0 s)) = take n (lh_block s)"
    using hb(3) n by (intro nth_equalityI) (auto simp: head_blocks_def h)
  have eu: "entries_ok u n (take n (lh_block s))" using e bg dd n by (auto simp: entries_ok_def)
  have "updn (\<lambda>i. take n (lh_block s) ! i) (\<lambda>i. d (log_blk (int i + 1) s)) n d = updn (\<lambda>i. lh_block s ! i) (\<lambda>i. blk s (lh_block s ! i)) n d"
    by (rule updn_cong) (simp add: l)
  moreover have "log_blk 0 s \<in> log_area s" using log_okD(3) [OF ok] .
  ultimately show ?thesis
    using recover_Ret [of u n] b bg hd bs eu dd by (auto simp: booted_def)
qed

section \<open>Logging a block\<close>

lemma log_index:
  assumes "n \<le> length bs"
  shows "log_index m (int n) bs \<le> n" "log_index m (int n) bs = n \<longleftrightarrow> m \<notin> set (take n bs)"
    "m \<in> set (take n bs) \<Longrightarrow> bs ! log_index m (int n) bs = m"
proof -
  let ?i = "log_index m (int n) bs"
  have "(m \<notin> set (take n bs) \<and> ?i = n) \<or> (?i < n \<and> bs ! ?i = m \<and> m \<in> set (take n bs))"
  proof (cases "find_index (\<lambda>x. x = m) (take n bs)")
    case None
    then have "m \<notin> set (take n bs)" by (auto simp only: find_index_None)
    moreover have "log_index m (int n) bs = n" unfolding log_index_def using None by (simp del: find_index_None)
    ultimately show ?thesis by blast
  next
    case (Some i)
    then have "i < n" "bs ! i = m" using find_index_SomeD [OF Some] assms by auto
    then have "m \<in> set (take n bs)" using assms by (auto simp: in_set_conv_nth)
    then show ?thesis using Some \<open>i < n\<close> \<open>bs ! i = m\<close> by (simp add: log_index_def)
  qed
  then show "?i \<le> n" "?i = n \<longleftrightarrow> m \<notin> set (take n bs)" "m \<in> set (take n bs) \<Longrightarrow> bs ! ?i = m" by auto
qed

text \<open>The state after \<^verbatim>\<open>log_write\<close>, when it does not panic.\<close>

lemma log_write_step:
  fixes s :: "'a lgst_scheme"
  assumes "bio_ok s" "geom_ok s" "entries_ok s n (lh_block s)" "lh_n s = int n" "length (lh_block s) = 30"
    "dirty_blocks s = set (take n (lh_block s))" "holds_buf s m b" "m \<notin> log_area s"
    and room: "int n < lg_size s - 1" "1 \<le> lg_outstanding s"
  shows "\<exists>t k. log_write b s = Ret () t \<and> lh_n t = int k \<and> k = (if m \<in> dirty_blocks s then n else n + 1) \<and>
      take n (lh_block t) = take n (lh_block s) \<and> set (take k (lh_block t)) = insert m (set (take n (lh_block s))) \<and>
      distinct (take k (lh_block t)) \<and> dirty_blocks t = set (take k (lh_block t)) \<and> blk t = blk s \<and> disk t = disk s \<and> bio_ok t \<and>
      (k < 30 \<longrightarrow> entries_ok t k (lh_block t)) \<and> length (lh_block t) = 30 \<and> dwrites t = dwrites s \<and> locked_blocks t = locked_blocks s \<and>
      (\<forall>m c. holds_buf t m c = holds_buf s m c) \<and> bview t = bview (s\<lparr>lh_block := lh_block t, lh_n := lh_n t\<rparr>)"
proof -
  note h = held_fields [OF assms(1,7)]
  have e: "n \<le> 30" "n < 30" "int n < lg_size s" "distinct (take n (lh_block s))" "\<And>i. i < n \<Longrightarrow> lh_block s ! i < 1000 \<and> lh_block s ! i \<notin> log_area s"
    using assms(3,5) by (auto simp: entries_ok_def)
  have held: "held s = []" using assms(1) by (simp add: bio_ok_def)
  let ?i = "log_index m (int n) (lh_block s)"
  let ?k = "if m \<in> dirty_blocks s then n else n + 1"
  let ?bs = "(lh_block s)[?i := m]"
  let ?t = "bpin b (s\<lparr>lh_block := ?bs, lh_n := int ?k\<rparr>)"
  have li: "?i \<le> n" "?i = n \<longleftrightarrow> m \<notin> dirty_blocks s" "m \<in> dirty_blocks s \<Longrightarrow> lh_block s ! ?i = m"
    using log_index [of n "lh_block s" m] e(1) assms(5,6) by simp_all
  have same: "m \<in> dirty_blocks s \<Longrightarrow> ?bs = lh_block s" using li(3) by (metis list_update_id)
  have new: "m \<notin> dirty_blocks s \<Longrightarrow> ?bs = (lh_block s)[n := m]" using li(2) by simp
  have tk: "take (n + 1) ((lh_block s)[n := m]) = take n (lh_block s) @ [m]" using e(2) assms(5) by (simp add: take_Suc_conv_app_nth)
  have hp: "holds_buf (s\<lparr>lh_block := ?bs, lh_n := int ?k\<rparr>) m b" "bio_ok (s\<lparr>lh_block := ?bs, lh_n := int ?k\<rparr>)" using assms(1,7) by simp_all
  note pin = bc.pin [OF hp(2,1)]
  have v: "bview ?t = bview (s\<lparr>lh_block := ?bs, lh_n := int ?k\<rparr>)" using pin by blast
  note tl = bview_log [OF v] and tg = bview_geom [OF v]
  have lhb: "lh_block ?t = ?bs" "lh_n ?t = int ?k" using tl by simp_all
  have dd: "dirty_blocks ?t = insert m (dirty_blocks s)" "blk ?t = blk s" "disk ?t = disk s" "bio_ok ?t"
    using pin by (simp_all) (simp add: bpin_def)
  have dist: "distinct (take ?k ?bs)" "set (take ?k ?bs) = insert m (set (take n (lh_block s)))" "take n ?bs = take n (lh_block s)"
    using same new tk e(4) assms(6) by (cases "m \<in> dirty_blocks s"; simp add: insert_absorb)+
  have "m < 1000" using h by simp
  then have x: "x < 1000 \<and> x \<notin> log_area s" if "x \<in> set (take ?k ?bs)" for x
    using that e(5) assms(8) e(1) assms(5) unfolding dist(2) by (auto simp: in_set_conv_nth)
  have ent: "entries_ok ?t ?k ?bs" if "int n < lg_size s - 1" "?k < 30"
  proof -
    have "?bs ! i \<in> set (take ?k ?bs)" if "i < ?k" for i
      using that \<open>?k < 30\<close> assms(5) by (simp only: in_set_conv_nth length_take) (intro exI [of _ i], simp)
    moreover have "?k \<le> length ?bs" "int ?k < lg_size s" using that assms(5) by auto
    ultimately have "entries_ok s ?k ?bs" using dist(1) x that(2) unfolding entries_ok_def by blast
    then show ?thesis using tg(3) by simp
  qed
  have run: "log_write b s = Ret () ?t" if "\<not> int n \<ge> lg_size s - 1" "\<not> lg_outstanding s < 1"
  proof -
    have p: "bpin b (s\<lparr>held := x, lh_block := y, lh_n := z\<rparr>) = (bpin b (s\<lparr>lh_block := y, lh_n := z\<rparr>))\<lparr>held := x\<rparr>" for x y z
      by (simp add: bpin_def updb_def)
    have q: "(bpin b (s\<lparr>lh_block := y, lh_n := z\<rparr>))\<lparr>held := []\<rparr> = bpin b (s\<lparr>lh_block := y, lh_n := z\<rparr>)" for y z
      by (rule held_id) (simp add: bpin_def held)
    show ?thesis using that e(2) held h(4) assms(4) li(2)
      by (cases "m \<in> dirty_blocks s") (simp_all add: log_write_def Let_def p q add.commute)
  qed
  show ?thesis
  proof (intro exI [of _ ?t] exI [of _ ?k] conjI)
    show "log_write b s = Ret () ?t" using run room by simp
    show "bview ?t = bview (s\<lparr>lh_block := lh_block ?t, lh_n := lh_n ?t\<rparr>)" using v unfolding lhb .
    show "locked_blocks ?t = locked_blocks s" "\<forall>m c. holds_buf ?t m c = holds_buf s m c" "dwrites ?t = dwrites s" using pin by simp_all
    show "length (lh_block ?t) = 30" unfolding lhb using assms(5) by simp
    show "?k < 30 \<longrightarrow> entries_ok ?t ?k (lh_block ?t)" unfolding lhb using ent room(1) by blast
    show "lh_n ?t = int ?k" "take n (lh_block ?t) = take n (lh_block s)" "set (take ?k (lh_block ?t)) = insert m (set (take n (lh_block s)))"
      "distinct (take ?k (lh_block ?t))" unfolding lhb using dist by (simp_all only: lhb(2))
    show "dirty_blocks ?t = set (take ?k (lh_block ?t))" unfolding lhb using dd(1) dist(2) assms(6) by simp
    show "blk ?t = blk s" "disk ?t = disk s" "bio_ok ?t" using dd by simp_all
  qed simp
qed


lemma commit_home:
  assumes ok: "log_ok s n" and d: "d m = disk s 1 m"
  shows "updn (\<lambda>i. lh_block s ! i) (\<lambda>i. blk s (lh_block s ! i)) n d m = blk s m"
proof (cases "\<exists>i<n. m = lh_block s ! i")
  case True
  then show ?thesis using updn_in [OF log_okD(7) [OF ok]] by auto
next
  case False
  have "n \<le> length (lh_block s)" "dirty_blocks s = set (take n (lh_block s))" using ok by (auto simp: log_ok_def entries_ok_def)
  then have "m \<notin> dirty_blocks s" using False by (auto simp: in_set_conv_nth)
  then show ?thesis using False d log_okD(9) [OF ok] by (subst updn_out) auto
qed

lemma commit_result:
  assumes ok: "log_ok s n" and m: "m \<notin> log_area s"
  shows "apply_writes (commit_writes s n) (disk s 1) m = blk s m"
proof -
  let ?d = "updn (\<lambda>i. log_blk (int i + 1) s) (\<lambda>i. blk s (lh_block s ! i)) n (disk s 1)"
  have "?d m = disk s 1 m" using m log_okD(2) [OF ok] by (intro updn_out) auto
  then show ?thesis using m log_okD(3) [OF ok] commit_home [OF ok, of "?d(log_blk 0 s := head_bytes (int n) (lh_block s) (disk s 1 (log_blk 0 s)))" m]
    by (auto simp: commit_writes_def Let_def)
qed

text \<open>
  C1. Crash safety of the log. \<^verbatim>\<open>commit\<close> of a transaction returns, leaves the log empty and every block of the disk outside the log area as the
  transaction left it in the cache. And whatever prefix of its disk writes has reached the disk when the machine stops, \<^verbatim>\<open>recover_from_log\<close> on the
  machine started again returns, and then either all blocks outside the log area are as before the transaction or all are as
  the transaction left them.
\<close>

theorem commit_crash_safe:
  fixes s :: "'a lgst_scheme"
  assumes ok: "log_ok s n" and n: "0 < n"
  shows "\<exists>t ws. commit s = Ret () t \<and> lh_n t = 0 \<and> dirty_blocks t = {} \<and> dwrites t = ws @ dwrites s \<and>
    (\<forall>m. m \<notin> log_area s \<longrightarrow> disk t 1 m = blk s m) \<and>
    (\<forall>j u. booted s (apply_writes (drop j ws) (disk s 1)) u \<longrightarrow>
       (\<exists>v. recover_from_log u = Ret () v \<and>
          ((\<forall>m. m \<notin> log_area s \<longrightarrow> disk v 1 m = disk s 1 m) \<or> (\<forall>m. m \<notin> log_area s \<longrightarrow> disk v 1 m = blk s m))))"
proof -
  let ?L = "log_blk 0 s" and ?l = "\<lambda>i. log_blk (int i + 1) s" and ?b = "\<lambda>i. lh_block s ! i"
  let ?new = "\<lambda>i. blk s (?b i)" and ?h = "head_bytes (int n) (lh_block s) (disk s 1 ?L)" and ?W = "commit_writes s n"
  have g: "geom_ok s" and e: "entries_ok s n (lh_block s)" and len: "length (disk s 1 ?L) = 512" and h0: "get32 (disk s 1 ?L) 0 = 0"
    and dset: "dirty_blocks s = set (take n (lh_block s))" using ok by (simp_all add: log_ok_def)
  note okd = log_okD [OF ok]
  have n30: "n < 30" "n \<le> length (lh_block s)" using e by (auto simp: entries_ok_def)
  have hl: "length ?h = 512" using head_bytes_read(2) len n30 by simp
  note home = commit_home [OF ok] and fm = commit_result [OF ok]
  have lout: "updn ?l ?new k d m = d m" if "m \<notin> log_area s" "k \<le> n" for k d m using that okd(2) by (intro updn_out) auto
  have bout: "updn ?b ?new k d m = d m" if "m \<in> log_area s" "k \<le> n" for k d m using that okd(1) by (intro updn_out) auto
  have LL: "updn ?l ?new k d ?L = d ?L" if "k \<le> n" for k d using that okd(4) by (intro updn_out) auto
  obtain t where t: "commit s = Ret () t" "lh_n t = 0" "dirty_blocks t = {}" "dwrites t = ?W @ dwrites s"
    "disk t 1 = apply_writes ?W (disk s 1)" using commit_Ret [OF ok n] by blast
  have full: "apply_writes ?W (disk s 1) = (updn ?b ?new n ((updn ?l ?new n (disk s 1))(?L := ?h)))(?L := put32 0 0 ?h)"
    by (simp add: commit_writes_def Let_def)
  have crash: "\<exists>v. recover_from_log u = Ret () v \<and>
      ((\<forall>m. m \<notin> log_area s \<longrightarrow> disk v 1 m = disk s 1 m) \<or> (\<forall>m. m \<notin> log_area s \<longrightarrow> disk v 1 m = blk s m))"
    if u: "booted s (apply_writes (drop j ?W) (disk s 1)) u" for j u
  proof -
    consider "j = 0" | "0 < j" "j \<le> n + 1" | "n + 2 \<le> j" by linarith
    then show ?thesis
    proof cases
      case 1
      have "get32 (apply_writes ?W (disk s 1) ?L) 0 = 0" unfolding full using hl by simp
      then show ?thesis using recover_empty [of s "apply_writes ?W (disk s 1)" u] u g fm 1 by auto
    next
      case 2
      define k where "k = n - (j - 1)"
      define d where "d = updn ?b ?new k ((updn ?l ?new n (disk s 1))(?L := ?h))"
      have "drop j ?W = wlist ?b ?new k @ (1, ?L, ?h) # wlist ?l ?new n"
        using 2 by (simp add: commit_writes_def Let_def drop_Cons' drop_wlist k_def)
      then have ud: "booted s d u" using u by (simp add: d_def)
      have k: "k \<le> n" by (simp add: k_def)
      have "d ?L = ?h" unfolding d_def using bout okd(3) k by simp
      moreover have "d (?l i) = ?new i" if "i < n" for i
        unfolding d_def using bout [OF okd(2) [OF that] k] updn_in [OF okd(6) that] okd(4) [OF that] by simp
      ultimately obtain v where v: "recover_from_log u = Ret () v" "\<forall>m. m \<notin> log_area s \<longrightarrow> disk v 1 m = updn ?b ?new n d m"
        using recover_full [OF ok ud] by blast
      have "updn ?b ?new n d m = blk s m" if m: "m \<notin> log_area s" for m
      proof (cases "\<exists>i<n. m = ?b i")
        case True
        then show ?thesis using updn_in [OF okd(7)] by auto
      next
        case False
        then have "?b i \<noteq> m" if "i < k" for i using that k by (metis less_le_trans)
        then have "d m = disk s 1 m" unfolding d_def using lout [OF m, of n] okd(3) m by (subst updn_out) auto
        then show ?thesis by (rule home)
      qed
      then show ?thesis using v by auto
    next
      case 3
      define k where "k = n - (j - (n + 2))"
      have "drop j ?W = wlist ?l ?new k"
        using 3 by (simp add: commit_writes_def Let_def drop_Cons' drop_wlist k_def)
      then have ud: "booted s (updn ?l ?new k (disk s 1)) u" using u by simp
      have k: "k \<le> n" by (simp add: k_def)
      have "get32 (updn ?l ?new k (disk s 1) ?L) 0 = 0" using LL [OF k] h0 by simp
      then show ?thesis using recover_empty [OF ud g] lout k by auto
    qed
  qed
  show ?thesis using t fm crash by (intro exI [of _ t] exI [of _ ?W]) simp
qed

section \<open>The contract of a transaction\<close>

text \<open>
  What the file system relies on between \<^verbatim>\<open>begin_op\<close> and \<^verbatim>\<open>end_op\<close>: the block cache together with \<^verbatim>\<open>log_write\<close>. \<open>tx\<close> holds
  inside a transaction, \<open>room\<close> is the number of further blocks that it may log, \<open>home\<close> are the blocks outside the log, and \<open>tv\<close> is what
  no operation of the cache or the log changes.
\<close>

locale logged_cache = block_cache +
  fixes tx :: "'a \<Rightarrow> bool" and room :: "'a \<Rightarrow> nat" and tv :: "'a \<Rightarrow> 'a" and home :: "'a \<Rightarrow> u32 \<Rightarrow> bool"
    and lw :: "nat \<Rightarrow> 'a \<Rightarrow> (unit, 'a) res"
  assumes tx: "tx s \<Longrightarrow> ok s" and cap: "tx s \<Longrightarrow> card (dty s) + room s \<le> 29"
    and step: "tx s \<Longrightarrow> ok t \<Longrightarrow> vw t = vw s \<Longrightarrow> dty t = dty s \<Longrightarrow> tx t \<and> tv t = tv s \<and> room t = room s"
    and home: "home s n \<Longrightarrow> n < 1000" "tv t = tv s \<Longrightarrow> home t n = home s n"
    and lw: "tx s \<Longrightarrow> hold s n b \<Longrightarrow> home s n \<Longrightarrow> 0 < room s \<Longrightarrow>
      \<exists>t. lw b s = Ret () t \<and> tx t \<and> tv t = tv s \<and> blk t = blk s \<and> dsk t = dsk s \<and> lck t = lck s \<and> dty t = insert n (dty s) \<and>
        room s \<le> room t + 1 \<and> (\<forall>m c. hold t m c = hold s m c)"
begin

lemma tx_read:
  assumes "tx s" "n < 1000" "n \<notin> lck s" "card (lck s) \<le> room s"
  shows "\<exists>b t. rd n s = Ret b t \<and> tx t \<and> tv t = tv s \<and> room t = room s \<and> hold t n b \<and> dat t b = blk s n \<and> blk t = blk s \<and>
    dsk t = dsk s \<and> lck t = insert n (lck s) \<and> dty t = dty s \<and> (\<forall>m c. hold s m c \<longrightarrow> hold t m c) \<and> (n \<in> dty t \<or> blk t n = dsk t n)"
proof -
  have "card (lck s \<union> dty s) < 30" using cap [OF assms(1)] assms(4) card_Un_le [of "lck s" "dty s"] by linarith
  then obtain b t where t: "rd n s = Ret b t" "ok t" "vw t = vw s" "hold t n b" "blk t = blk s" "dsk t = dsk s"
    "lck t = insert n (lck s)" "dty t = dty s" "\<forall>m c. hold s m c \<longrightarrow> hold t m c"
    using rd [OF tx [OF assms(1)] assms(2,3)] by auto
  moreover have "n \<in> dty t \<or> blk t n = dsk t n" using clean [OF tx [OF assms(1)]] assms(3) t(5,6,8) by auto
  ultimately show ?thesis using step [OF assms(1) t(2,3,8)] dat [OF t(2,4)] by auto
qed

lemma tx_log:
  assumes "tx s" "hold s n b" "home s n" "0 < room s"
  shows "\<exists>t. lw b (put b d s) = Ret () t \<and> tx t \<and> tv t = tv s \<and> room s \<le> room t + 1 \<and> blk t = (blk s)(n := d) \<and> dsk t = dsk s \<and>
    lck t = lck s \<and> dty t = insert n (dty s) \<and> (\<forall>m c. hold t m c = hold s m c)"
proof -
  note p = put [OF tx [OF assms(1)] assms(2), of d]
  then have s: "tx (put b d s)" "tv (put b d s) = tv s" "room (put b d s) = room s" using step [OF assms(1), of "put b d s"] by simp_all
  have "hold (put b d s) n b" "home (put b d s) n" using p assms(2,3) home(2) [OF s(2)] by simp_all
  then show ?thesis using lw [OF s(1), of n b] s p assms(4) by auto
qed

lemma tx_release:
  assumes "tx s" "hold s n b" "n \<in> dty s \<or> blk s n = dsk s n"
  shows "\<exists>t. rel b s = Ret () t \<and> tx t \<and> tv t = tv s \<and> room t = room s \<and> blk t = blk s \<and> dsk t = dsk s \<and>
    lck t = lck s - {n} \<and> dty t = dty s \<and> (\<forall>m c. m \<noteq> n \<longrightarrow> hold t m c = hold s m c)"
proof -
  obtain t where t: "rel b s = Ret () t" "ok t" "vw t = vw s" "blk t = blk s" "dsk t = dsk s" "lck t = lck s - {n}" "dty t = dty s"
    "\<forall>m c. m \<noteq> n \<longrightarrow> hold t m c = hold s m c" using rel [OF tx [OF assms(1)] assms(2,3)] by auto
  then show ?thesis using step [OF assms(1) t(2,3,7)] by auto
qed

text \<open>Read a block, log it with new contents, release it.\<close>

lemma tx_update:
  assumes "tx s" "home s n" "n \<notin> lck s" "card (lck s) \<le> room s" "0 < room s"
  shows "\<exists>t. kbind (rd n s) (\<lambda>b s. kbind (lw b (put b (f (dat s b)) s)) (\<lambda>_ s. rel b s)) = Ret () t \<and> tx t \<and> tv t = tv s \<and>
    room s \<le> room t + 1 \<and> blk t = (blk s)(n := f (blk s n)) \<and> dsk t = dsk s \<and> lck t = lck s \<and> dty t = insert n (dty s) \<and>
    (\<forall>m c. m \<noteq> n \<longrightarrow> hold s m c \<longrightarrow> hold t m c)"
proof -
  obtain b t where t: "rd n s = Ret b t" "tx t" "tv t = tv s" "room t = room s" "hold t n b" "dat t b = blk s n" "blk t = blk s"
    "dsk t = dsk s" "lck t = insert n (lck s)" "dty t = dty s" "\<forall>m c. hold s m c \<longrightarrow> hold t m c"
    using tx_read [OF assms(1) home(1) [OF assms(2)] assms(3,4)] by blast
  have h: "home t n" "0 < room t" using home(2) [OF t(3)] assms(2,5) t(4) by simp_all
  obtain u where u: "lw b (put b (f (blk s n)) t) = Ret () u" "tx u" "tv u = tv t" "room t \<le> room u + 1" "blk u = (blk t)(n := f (blk s n))"
    "dsk u = dsk t" "lck u = lck t" "dty u = insert n (dty t)" "\<forall>m c. hold u m c = hold t m c"
    using tx_log [OF t(2,5) h] by blast
  have "hold u n b" "n \<in> dty u \<or> blk u n = dsk u n" using u t(5) by simp_all
  then obtain v where v: "rel b u = Ret () v" "tx v" "tv v = tv u" "room v = room u" "blk v = blk u" "dsk v = dsk u" "lck v = lck u - {n}"
    "dty v = dty u" "\<forall>m c. m \<noteq> n \<longrightarrow> hold v m c = hold u m c" using tx_release [OF u(2)] by blast
  have "lck v = lck s" using v(7) u(7) t(9) assms(3) by simp
  then show ?thesis using t u v by (intro exI [of _ v]) auto
qed

end

definition tx_ok :: "'a lgst_scheme \<Rightarrow> bool" where
  "tx_ok s \<longleftrightarrow> bio_ok s \<and> geom_ok s \<and> lg_size s \<le> 30 \<and> 1 \<le> lg_outstanding s \<and> length (lh_block s) = 30 \<and> 0 \<le> lh_n s \<and>
     entries_ok s (nat (lh_n s)) (lh_block s) \<and> dirty_blocks s = set (take (nat (lh_n s)) (lh_block s))"

definition log_room :: "'a lgst_scheme \<Rightarrow> nat" where
  "log_room s = nat (lg_size s - 1 - lh_n s)"

definition tview :: "'a lgst_scheme \<Rightarrow> 'a lgst_scheme" where
  "tview s = bview (s\<lparr>lh_n := 0, lh_block := []\<rparr>)"

definition home_block :: "'a lgst_scheme \<Rightarrow> u32 \<Rightarrow> bool" where
  "home_block s n \<longleftrightarrow> n < 1000 \<and> n \<notin> log_area s"

lemma tview_fields:
  assumes "tview t = tview s"
  shows "bview (t\<lparr>lh_n := x, lh_block := y\<rparr>) = bview (s\<lparr>lh_n := x, lh_block := y\<rparr>)" "lg_size t = lg_size s" "lg_outstanding t = lg_outstanding s"
    "geom_ok t = geom_ok s" "log_area t = log_area s" "entries_ok t n bs = entries_ok s n bs" "procs t = procs s" "cpu_proc t = cpu_proc s"
    "slocks t (SlInode k) = slocks s (SlInode k)" "lgst.more t = lgst.more s"
proof -
  have "(bview (s\<lparr>lh_n := 0, lh_block := []\<rparr>))\<lparr>lh_n := x, lh_block := y\<rparr> = bview (s\<lparr>lh_n := x, lh_block := y\<rparr>)" for s :: "'a lgst_scheme"
    by simp
  then show "bview (t\<lparr>lh_n := x, lh_block := y\<rparr>) = bview (s\<lparr>lh_n := x, lh_block := y\<rparr>)" using assms unfolding tview_def by metis
  have v: "bview (t\<lparr>lh_n := 0, lh_block := []\<rparr>) = bview (s\<lparr>lh_n := 0, lh_block := []\<rparr>)" using assms by (simp only: tview_def)
  note l = bview_log [OF v] and g = bview_geom [OF v] and f = bview_fields [OF v]
  show "lg_size t = lg_size s" "lg_outstanding t = lg_outstanding s" using l by simp_all
  show "geom_ok t = geom_ok s" "log_area t = log_area s" "entries_ok t n bs = entries_ok s n bs" using g by simp_all
  show "procs t = procs s" "cpu_proc t = cpu_proc s" "slocks t (SlInode k) = slocks s (SlInode k)" using f by simp_all
  show "lgst.more t = lgst.more s" using arg_cong [OF v, of lgst.more] by (simp add: bview_def)
qed

lemma tview_bview: "bview t = bview s \<Longrightarrow> tview t = tview s"
  unfolding tview_def bview_lh by simp

interpretation lc: logged_cache bio_ok blk "\<lambda>s. disk s 1" dwrites locked_blocks dirty_blocks holds_buf
  "\<lambda>s b. b_data (bufs s ! b)" bview "bread 1" bput bpin bwrite brelse tx_ok log_room tview home_block log_write
proof unfold_locales
  fix s t :: "'a lgst_scheme" and n :: u32 and b :: nat
  show "tx_ok s \<Longrightarrow> bio_ok s" by (simp add: tx_ok_def)
  show "card (dirty_blocks s) + log_room s \<le> 29" if "tx_ok s"
  proof -
    have "distinct (take (nat (lh_n s)) (lh_block s))" "nat (lh_n s) \<le> length (lh_block s)" "int (nat (lh_n s)) < lg_size s" "lg_size s \<le> 30"
      "dirty_blocks s = set (take (nat (lh_n s)) (lh_block s))" "0 \<le> lh_n s" using that by (auto simp: tx_ok_def entries_ok_def)
    then show ?thesis by (simp add: log_room_def distinct_card)
  qed
  show "tx_ok t \<and> tview t = tview s \<and> log_room t = log_room s"
    if "tx_ok s" "bio_ok t" "bview t = bview s" "dirty_blocks t = dirty_blocks s"
  proof -
    note l = bview_log(1-7) [OF that(3)] and g = bview_geom [OF that(3)]
    have "tx_ok t" using that(1,2) unfolding tx_ok_def l g that(4) by blast
    moreover have "log_room t = log_room s" unfolding log_room_def l ..
    ultimately show ?thesis using tview_bview [OF that(3)] by blast
  qed
  show "home_block s n \<Longrightarrow> n < 1000" by (simp add: home_block_def)
  show "home_block t n = home_block s n" if v: "tview t = tview s" unfolding home_block_def tview_fields(5) [OF v] ..
  show "\<exists>t. log_write b s = Ret () t \<and> tx_ok t \<and> tview t = tview s \<and> blk t = blk s \<and> disk t 1 = disk s 1 \<and> locked_blocks t = locked_blocks s \<and>
      dirty_blocks t = insert n (dirty_blocks s) \<and> log_room s \<le> log_room t + 1 \<and> (\<forall>m c. holds_buf t m c = holds_buf s m c)"
    if h: "tx_ok s" "holds_buf s n b" "home_block s n" "0 < log_room s"
  proof -
    let ?n = "nat (lh_n s)"
    have s: "bio_ok s" "geom_ok s" "entries_ok s ?n (lh_block s)" "lh_n s = int ?n" "length (lh_block s) = 30"
      "dirty_blocks s = set (take ?n (lh_block s))" "lg_size s \<le> 30" "1 \<le> lg_outstanding s" "n \<notin> log_area s" "int ?n < lg_size s - 1"
      using that by (auto simp: tx_ok_def log_room_def home_block_def)
    obtain t k where t: "log_write b s = Ret () t" "lh_n t = int k" "k = (if n \<in> dirty_blocks s then ?n else ?n + 1)"
      "set (take k (lh_block t)) = insert n (set (take ?n (lh_block s)))" "dirty_blocks t = set (take k (lh_block t))" "blk t = blk s" "disk t = disk s"
      "bio_ok t" "k < 30 \<longrightarrow> entries_ok t k (lh_block t)" "length (lh_block t) = 30" "locked_blocks t = locked_blocks s"
      "\<forall>m c. holds_buf t m c = holds_buf s m c" "bview t = bview (s\<lparr>lh_block := lh_block t, lh_n := lh_n t\<rparr>)"
      using log_write_step [OF s(1-6) h(2) s(9,10,8)] by blast
    have k1: "k \<le> ?n + 1" using t(3) by simp
    then have "int k < 30" using s(7,10) by linarith
    then have k: "k < 30" "k \<le> ?n + 1" using k1 by simp_all
    have v: "tview t = tview s" using tview_bview [OF t(13)] by (simp add: tview_def)
    have "tx_ok t" using t(2,4,5,8,9,10) k(1) s(2,7,8) tview_fields(2-4) [OF v] by (simp add: tx_ok_def)
    moreover have "log_room s \<le> log_room t + 1" unfolding log_room_def t(2) tview_fields(2) [OF v] using k(2) s(4) by linarith
    moreover have "dirty_blocks t = insert n (dirty_blocks s)" using t(4,5) s(6) by simp
    ultimately show ?thesis using t(1,6,7,11,12) v by (intro exI [of _ t]) simp
  qed
qed

section \<open>Operations on the log\<close>

lemma lh_id: "lh_n s = 0 \<Longrightarrow> s\<lparr>lh_n := 0\<rparr> = s"
  by (cases s) simp

text \<open>
  C39. \<^verbatim>\<open>begin_op\<close> admits an operation exactly when no commit is running and the log has room for ten more blocks for it and for every operation in
  progress, and then counts it, so the entries and the reservations together never exceed the 30 entries of the log. Otherwise the caller goes to sleep
  on the log and nothing of the log changes. \<^verbatim>\<open>end_op\<close> of the only operation in progress commits: it returns with the log empty and open again,
  no dirty buffer left, and every block outside the log area on the disk as it was in the cache.
\<close>

theorem transaction_bounds:
  fixes s :: "'a lgst_scheme"
  assumes "log_ok s n" "cpu_proc s = Some i"
  shows "(if lg_committing s \<or> int n + (lg_outstanding s + 1) * 10 > 30
      then \<exists>t. begin_op s = Sleep ChLog t \<and> held t = [LPtable] \<and> sleeps_on ChLog (procs t ! i) \<and> lh_n t = lh_n s \<and> lg_outstanding t = lg_outstanding s
      else begin_op s = Ret () (s\<lparr>lg_outstanding := lg_outstanding s + 1\<rparr>)) \<and>
    (lg_outstanding s = 1 \<and> \<not> lg_committing s \<longrightarrow>
      (\<exists>t. end_op s = Ret () t \<and> lg_outstanding t = 0 \<and> \<not> lg_committing t \<and> lh_n t = 0 \<and> dirty_blocks t = {} \<and> bio_ok t \<and>
         (\<forall>m. m \<notin> log_area s \<longrightarrow> disk t 1 m = blk s m)))"
proof (rule conjI; (rule impI)?)
  have ok: "bio_ok s" "lh_n s = int n" using assms(1) by (simp_all add: log_ok_def)
  have h: "held s = []" "ptab_ok s" "fs_quiet s" using bio_okD [OF ok(1)] by auto
  have i: "i < 64" "length (procs s) = 64" using h(2) assms(2) by (auto simp: ptab_ok_def procs_ok_def)
  have hid: "s\<lparr>held := [], lg_outstanding := x\<rparr> = s\<lparr>lg_outstanding := x\<rparr>" for x using h(1) by (cases s) simp
  show "if lg_committing s \<or> int n + (lg_outstanding s + 1) * 10 > 30
      then \<exists>t. begin_op s = Sleep ChLog t \<and> held t = [LPtable] \<and> sleeps_on ChLog (procs t ! i) \<and> lh_n t = lh_n s \<and> lg_outstanding t = lg_outstanding s
      else begin_op s = Ret () (s\<lparr>lg_outstanding := lg_outstanding s + 1\<rparr>)"
    using h(1) ok(2) assms(2) i hid
    by (auto simp: begin_op_def begin_op_loop_def sleep_def sched_def updp_def sleeps_on_def)
  assume o: "lg_outstanding s = 1 \<and> \<not> lg_committing s"
  let ?s = "s\<lparr>lg_outstanding := 0, lg_committing := True\<rparr>"
  have g: "geom_ok ?s = geom_ok s" "log_area ?s = log_area s" "log_blk k ?s = log_blk k s" "entries_ok ?s j bs = entries_ok s j bs" for k j bs
    by (simp_all add: geom_ok_def log_area_def log_blk_def entries_ok_def)
  have lok: "log_ok ?s n" using assms(1) g by (simp add: log_ok_def)
  have "\<exists>t. commit ?s = Ret () t \<and> bio_ok t \<and> dirty_blocks t = {} \<and> lh_n t = 0 \<and> bview t = bview (?s\<lparr>lh_n := 0\<rparr>) \<and>
      (\<forall>m. m \<notin> log_area s \<longrightarrow> disk t 1 m = blk s m)"
  proof (cases "n = 0")
    case True
    have "dirty_blocks s = {}" using assms(1) True by (simp add: log_ok_def)
    then have bl: "blk s m = disk s 1 m" for m using log_okD(9) [OF assms(1)] by blast
    have eq: "?s\<lparr>lh_n := 0\<rparr> = ?s" using ok(2) True by (intro lh_id) simp
    show ?thesis
    proof (intro exI [of _ ?s] conjI)
      show "commit ?s = Ret () ?s" using ok(2) True by (simp add: commit_def)
      show "bview ?s = bview (?s\<lparr>lh_n := 0\<rparr>)" unfolding eq ..
      show "bio_ok ?s" "dirty_blocks ?s = {}" "lh_n ?s = 0" "\<forall>m. m \<notin> log_area s \<longrightarrow> disk ?s 1 m = blk s m"
        using ok True \<open>dirty_blocks s = {}\<close> bl by simp_all
    qed
  next
    case False
    then obtain t where t: "commit ?s = Ret () t" "bio_ok t" "dirty_blocks t = {}" "lh_n t = 0" "bview t = bview (?s\<lparr>lh_n := 0\<rparr>)"
      "disk t 1 = apply_writes (commit_writes ?s n) (disk ?s 1)" using commit_Ret [OF lok] by blast
    then show ?thesis using commit_result [OF lok] g(2) by (intro exI [of _ t]) simp
  qed
  then obtain t where t: "commit ?s = Ret () t" "bio_ok t" "dirty_blocks t = {}" "lh_n t = 0" "bview t = bview (?s\<lparr>lh_n := 0\<rparr>)"
    "\<forall>m. m \<notin> log_area s \<longrightarrow> disk t 1 m = blk s m" by blast
  note tb = bio_okD(4-6) [OF t(2)] and tl = bview_log [OF t(5)]
  let ?t = "t\<lparr>lg_committing := False\<rparr>"
  have wk: "wakeup ChLog (t\<lparr>held := [LLog], lg_committing := False\<rparr>) = Ret () (t\<lparr>held := [LLog], lg_committing := False\<rparr>)"
  proof -
    have "ptab_ok (t\<lparr>held := [LLog], lg_committing := False\<rparr>)" using tb(2) by (simp add: ptab_ok_def)
    then show ?thesis using quiet_woken(4) [OF tb(3)] by (simp add: wakeup_Ret)
  qed
  have s0: "s\<lparr>lg_outstanding := 0, lg_committing := True, held := []\<rparr> = ?s" using h(1) by (cases s) simp
  have s1: "t\<lparr>lg_committing := False, held := []\<rparr> = ?t" "t\<lparr>held := [], lg_committing := False\<rparr> = ?t" using tb(1) by (cases t; simp)+
  have "end_op s = Ret () ?t"
    using o h(1) t(1) tb(1) wk by (simp add: end_op_def Let_def s0 s1)
  then show "\<exists>t. end_op s = Ret () t \<and> lg_outstanding t = 0 \<and> \<not> lg_committing t \<and> lh_n t = 0 \<and> dirty_blocks t = {} \<and> bio_ok t \<and>
         (\<forall>m. m \<notin> log_area s \<longrightarrow> disk t 1 m = blk s m)"
    using t tl by (intro exI [of _ ?t]) simp
qed

text \<open>
  A started machine with an empty log at block 2, and the same machine in the middle of an operation that has overwritten and logged block 40.
\<close>

definition lgst_of :: "(u32 \<Rightarrow> u8 list) \<Rightarrow> lgst" where
  "lgst_of d = binit (idest.extend (boot_ex\<lparr>disk := (\<lambda>_. d)\<rparr>)
     (lgst.fields 2 30 1 False 1 0 (replicate 30 0)))"

lemma lgst_of_ok: "bio_ok (lgst_of d)" "geom_ok (lgst_of d)" "locked_blocks (lgst_of d) = {}" "dirty_blocks (lgst_of d) = {}" "lh_n (lgst_of d) = 0"
  "lh_block (lgst_of d) = replicate 30 0" "disk (lgst_of d) = (\<lambda>_. d)" "lg_size (lgst_of d) = 30" "lg_outstanding (lgst_of d) = 1"
  "lg_start (lgst_of d) = 2" "blk (lgst_of d) = d" "\<not> lg_committing (lgst_of d)"
proof -
  let ?s = "idest.extend (boot_ex\<lparr>disk := (\<lambda>_. d)\<rparr>) (lgst.fields 2 30 1 False 1 0 (replicate 30 0)) :: lgst"
  have f: "procs ?s = procs_ex" "cpu_proc ?s = Some 0" "held ?s = []" "bufs ?s = replicate 31 buf_ex" "nextpid ?s = 5"
    "idequeue ?s = None" "havedisk1 ?s" "ide_errs ?s = []" "dwrites ?s = []" "fssize ?s = 1000" "disk ?s = (\<lambda>_. d)"
    by (simp_all add: idest.defs lgst.defs)
  have "ptab_ok boot_ex" using ptab_ok_ex by (simp add: ptab_ok_def ptab_ex_def)
  then have "ptab_ok ?s" using f by (simp add: ptab_ok_def)
  moreover have "fs_quiet ?s" unfolding fs_quiet_def f
    by (auto simp: procs_ex_def proc_ex_def unused_proc_def split: if_splits)
  moreover have "b_dev (bufs ?s ! b) = 0 \<and> b_refcnt (bufs ?s ! b) = 0 \<and> \<not> b_dirty (bufs ?s ! b)" if "b < 30" for b
    using that by (simp add: f buf_ex_def)
  ultimately have b: "bio_ok (lgst_of d)" "blk (lgst_of d) = disk ?s 1" "disk (lgst_of d) = disk ?s" "dirty_blocks (lgst_of d) = {}" "locked_blocks (lgst_of d) = {}"
    "bview (lgst_of d) = bview (?s\<lparr>held := []\<rparr>)"
    using binit_ok [of ?s] f by (simp_all add: lgst_of_def)
  note l = bview_log [OF b(6)]
  have g: "lg_start ?s = 2" "lg_size ?s = 30" "lg_outstanding ?s = 1" "lg_dev ?s = 1" "lh_n ?s = 0" "lh_block ?s = replicate 30 0"
    "\<not> lg_committing ?s" by (simp_all add: idest.defs lgst.defs)
  show "bio_ok (lgst_of d)" "locked_blocks (lgst_of d) = {}" "dirty_blocks (lgst_of d) = {}" "disk (lgst_of d) = (\<lambda>_. d)"
    "blk (lgst_of d) = d" using b f by simp_all
  show "lh_n (lgst_of d) = 0" "lh_block (lgst_of d) = replicate 30 0" "lg_size (lgst_of d) = 30" "lg_outstanding (lgst_of d) = 1" "lg_start (lgst_of d) = 2"
    "\<not> lg_committing (lgst_of d)" using l g by simp_all
  then show "geom_ok (lgst_of d)" using l g by (simp add: geom_ok_def)
qed

definition lgst_ex :: lgst where
  "lgst_ex = lgst_of (\<lambda>_. replicate 512 0)"

lemmas lgst_ex_ok = lgst_of_ok [where d = "\<lambda>_. replicate 512 0", folded lgst_ex_def]

lemma log_area_of:
  assumes "n \<in> log_area (lgst_of d)"
  shows "2 \<le> unat n \<and> unat n < 32"
proof -
  obtain i where i: "0 \<le> i" "i < 30" "n = word_of_int (2 + i)" using assms by (auto simp: log_area_def log_blk_def lgst_of_ok)
  have "uint (word_of_int (2 + i) :: u32) = 2 + i"
    using i(1,2) by (simp add: unsigned_of_int take_bit_int_eq_self del: of_int_add)
  then have "uint n = 2 + i" unfolding i(3) .
  then have "unat n = nat (2 + i)" unfolding unat_eq_nat_uint by simp
  then show ?thesis using i(1,2) by linarith
qed

lemma log_area_ex: "(40 :: u32) \<notin> log_area lgst_ex"
  using log_area_of [of 40 "\<lambda>_. replicate 512 0"] by (auto simp: lgst_ex_def)

lemma get32_zero: "i + 4 \<le> k \<Longrightarrow> get32 (replicate k 0) i = 0"
  by (simp add: get32_def)


theorem commit_crash_safe_witness:
  "\<exists>(s :: lgst) t. log_ok s 1 \<and> commit s = Ret () t \<and> lh_n t = 0"
proof -
  obtain b s where s: "bio_ok s" "bview s = bview lgst_ex" "holds_buf s 40 b" "dirty_blocks s = {}" "locked_blocks s = {40}" "disk s 1 = disk lgst_ex 1"
    using bc.rd [OF lgst_ex_ok(1), of 40] lgst_ex_ok(3,4) by auto
  note l = bview_log [OF s(2)] and g = bview_geom [OF s(2)]
  let ?bs = "(40 :: u32) # replicate 29 0"
  let ?t = "bpin b (s\<lparr>lh_block := ?bs, lh_n := 1\<rparr>)"
  have "bio_ok (s\<lparr>lh_block := ?bs, lh_n := 1\<rparr>)" "holds_buf (s\<lparr>lh_block := ?bs, lh_n := 1\<rparr>) 40 b" using s by simp_all
  note p = bc.pin [OF this]
  have t: "bio_ok ?t" "bview ?t = bview (s\<lparr>lh_block := ?bs, lh_n := 1\<rparr>)" "dirty_blocks ?t = {40}" "locked_blocks ?t = {40}"
    "holds_buf ?t 40 b" "disk ?t 1 = disk lgst_ex 1" using p s by auto
  obtain u where u: "bio_ok u" "bview u = bview ?t" "dirty_blocks u = {40}" "locked_blocks u = {}" "disk u 1 = disk lgst_ex 1"
    using bc.rel [OF t(1,5)] t by auto
  have v: "bview u = bview (s\<lparr>lh_block := ?bs, lh_n := 1\<rparr>)" using u(2) t(2) by simp
  note lu = bview_log [OF v] and gu = bview_geom [OF v]
  have a: "log_area u = log_area lgst_ex" using gu g by simp
  have "geom_ok u" "lh_n u = 1" "lg_size u = 30" "lh_block u = ?bs" using lu gu l g lgst_ex_ok(2,8) by simp_all
  moreover have "entries_ok u 1 ?bs" using calculation log_area_ex by (simp add: entries_ok_def a)
  moreover have "set (take 1 ?bs) = {40}" by simp
  moreover have "length (disk u 1 (log_blk 0 u)) = 512" "get32 (disk u 1 (log_blk 0 u)) 0 = 0"
    unfolding u(5) lgst_ex_ok(7) by (simp_all add: get32_zero)
  ultimately have "log_ok u 1" using u(1,3,4) by (simp add: log_ok_def)
  then show ?thesis using commit_crash_safe [of u 1] by auto
qed

theorem transaction_bounds_witness:
  "\<exists>t. end_op lgst_ex = Ret () t \<and> lg_outstanding t = 0"
proof -
  have "entries_ok lgst_ex 0 (replicate 30 0)" using lgst_ex_ok(8) by (simp add: entries_ok_def)
  moreover have "length (disk lgst_ex 1 (log_blk 0 lgst_ex)) = 512" "get32 (disk lgst_ex 1 (log_blk 0 lgst_ex)) 0 = 0"
    unfolding lgst_ex_ok(7) by (simp_all add: get32_zero)
  ultimately have "log_ok lgst_ex 0" using lgst_ex_ok by (simp add: log_ok_def)
  moreover obtain i where "cpu_proc lgst_ex = Some i" using lgst_ex_ok(1) by (auto simp: bio_ok_def)
  moreover have "\<not> lg_committing lgst_ex" by (rule lgst_ex_ok(12))
  ultimately show ?thesis using transaction_bounds [of lgst_ex 0 i] lgst_ex_ok(9) by blast
qed

end
