(* ===== verification/Fs.thy ===== *)
theory Fs
  imports Log
begin

text \<open>
  The file system (\<^verbatim>\<open>fs.c\<close>, \<^verbatim>\<open>fs.h\<close>, \<^verbatim>\<open>file.h\<close>): the block allocator, inodes, directories and path names, on top of the log and the buffer
  cache. Pointers to in-memory inodes are indexes into \<^verbatim>\<open>icache.inode\<close>; on-disk structures are bytes of a block, in little-endian order. Where a caller passes
  memory to \<^verbatim>\<open>readi\<close> and \<^verbatim>\<open>writei\<close>, \<open>readi\<close> returns the bytes that the code stores at \<^verbatim>\<open>dst\<close>, in order, and \<open>writei\<close> takes the bytes at \<^verbatim>\<open>src\<close>.
  A C string is the list of its bytes before the terminating 0. The device table \<^verbatim>\<open>devsw\<close>, whose functions belong to other components, is
  an argument of \<open>readi\<close> and \<open>writei\<close>. An operation that has to wait for a sleep lock ends in \<open>Sleep\<close>.
\<close>

section \<open>State\<close>

record inode =
  i_dev :: u32
  i_inum :: u32
  i_ref :: int
  i_valid :: bool
  i_type :: u16
  i_major :: u16
  i_minor :: u16
  i_nlink :: u16
  i_size :: u32
  i_addrs :: "u32 list"         \<comment> \<open>\<^verbatim>\<open>NDIRECT+1\<close> block numbers\<close>

record fsst = lgst +
  sb :: superblock
  inodes :: "inode list"        \<comment> \<open>\<^verbatim>\<open>icache.inode\<close>\<close>

record statbuf =
  st_type :: u16
  st_dev :: u32
  st_ino :: u32
  st_nlink :: u16
  st_size :: u32

record dinode =
  di_type :: u16
  di_major :: u16
  di_minor :: u16
  di_nlink :: u16
  di_size :: u32
  di_addrs :: "u32 list"

abbreviation (input) NINODE :: nat where "NINODE \<equiv> 50"
abbreviation (input) BSIZE :: nat where "BSIZE \<equiv> 512"
abbreviation (input) BPB :: nat where "BPB \<equiv> 4096"
abbreviation (input) NDIRECT :: nat where "NDIRECT \<equiv> 12"
abbreviation (input) NINDIRECT :: nat where "NINDIRECT \<equiv> 128"
abbreviation (input) DIRSIZ :: nat where "DIRSIZ \<equiv> 14"
abbreviation (input) ROOTDEV :: u32 where "ROOTDEV \<equiv> 1"
abbreviation (input) ROOTINO :: u32 where "ROOTINO \<equiv> 1"
abbreviation (input) T_DIR :: u16 where "T_DIR \<equiv> 1"
abbreviation (input) T_FILE :: u16 where "T_FILE \<equiv> 2"
abbreviation (input) T_DEV :: u16 where "T_DEV \<equiv> 3"

definition updi :: "nat \<Rightarrow> (inode \<Rightarrow> inode) \<Rightarrow> 'a fsst_scheme \<Rightarrow> 'a fsst_scheme" where
  "updi ip f s = s\<lparr>inodes := (inodes s)[ip := f (inodes s ! ip)]\<rparr>"

definition IBLOCK :: "u32 \<Rightarrow> 'a fsst_scheme \<Rightarrow> u32" where
  "IBLOCK i s = i div 8 + sb_inodestart (sb s)"

definition BBLOCK :: "u32 \<Rightarrow> 'a fsst_scheme \<Rightarrow> u32" where
  "BBLOCK b s = b div 4096 + sb_bmapstart (sb s)"

section \<open>Structures on the disk\<close>

definition get16 :: "u8 list \<Rightarrow> nat \<Rightarrow> u16" where
  "get16 d i = ucast (d ! i) OR push_bit 8 (ucast (d ! (i + 1)))"

definition bytes16 :: "u16 \<Rightarrow> u8 list" where
  "bytes16 w = [ucast w, ucast (drop_bit 8 w)]"

text \<open>The inode structure at the offset \<open>i\<close> of a block.\<close>

definition get_dinode :: "u8 list \<Rightarrow> nat \<Rightarrow> dinode" where
  "get_dinode d i = \<lparr>di_type = get16 d i, di_major = get16 d (i + 2), di_minor = get16 d (i + 4), di_nlink = get16 d (i + 6),
     di_size = get32 d (i + 8), di_addrs = map (\<lambda>k. get32 d (i + 12 + 4 * k)) [0..<13]\<rparr>"

definition dinode_bytes :: "dinode \<Rightarrow> u8 list" where
  "dinode_bytes x = bytes16 (di_type x) @ bytes16 (di_major x) @ bytes16 (di_minor x) @ bytes16 (di_nlink x) @
     bytes32 (di_size x) @ concat (map bytes32 (di_addrs x))"

text \<open>The offset of inode \<open>inum\<close> in its block.\<close>

definition dinode_off :: "u32 \<Rightarrow> nat" where
  "dinode_off inum = unat (inum mod 8) * 64"

record dirent =
  de_inum :: u16
  de_name :: "u8 list"

definition get_dirent :: "u8 list \<Rightarrow> dirent" where
  "get_dirent d = \<lparr>de_inum = get16 d 0, de_name = take DIRSIZ (drop 2 d)\<rparr>"

definition dirent_bytes :: "dirent \<Rightarrow> u8 list" where
  "dirent_bytes e = bytes16 (de_inum e) @ de_name e"

section \<open>Blocks\<close>

definition bzero :: "u32 \<Rightarrow> u32 \<Rightarrow> 'a fsst_scheme \<Rightarrow> (unit, 'a fsst_scheme) res" where
  "bzero dev bno s =
     kbind (bread dev bno s) (\<lambda>bp s.
     kbind (log_write bp (bput bp (replicate BSIZE 0) s)) (\<lambda>_ s. brelse bp s))"

text \<open>Bit \<open>bi\<close> of a block of the free map, and the block with the bit set or cleared.\<close>

definition bit_mask :: "nat \<Rightarrow> u8" where
  "bit_mask bi = push_bit (bi mod 8) 1"

definition bit_used :: "u8 list \<Rightarrow> nat \<Rightarrow> bool" where
  "bit_used d bi \<longleftrightarrow> d ! (bi div 8) AND bit_mask bi \<noteq> 0"

definition set_bit_used :: "u8 list \<Rightarrow> nat \<Rightarrow> u8 list" where
  "set_bit_used d bi = d[bi div 8 := d ! (bi div 8) OR bit_mask bi]"

definition clear_bit_used :: "u8 list \<Rightarrow> nat \<Rightarrow> u8 list" where
  "clear_bit_used d bi = d[bi div 8 := d ! (bi div 8) AND NOT (bit_mask bi)]"

text \<open>
  \<open>balloc_scan\<close> is the outer loop, over the numbers of the blocks of the free map; the inner loop looks for the first free bit below \<^verbatim>\<open>sb.size\<close>.
  The model is that of a file system of fewer than 2 to the 31 blocks, where the signed \<^verbatim>\<open>b\<close> does not overflow.
\<close>

fun balloc_scan :: "u32 \<Rightarrow> nat list \<Rightarrow> 'a fsst_scheme \<Rightarrow> (u32, 'a fsst_scheme) res" where
  "balloc_scan dev [] s = Panic ''balloc: out of blocks''"
| "balloc_scan dev (k # ks) s =
     kbind (bread dev (BBLOCK (of_nat (k * BPB)) s) s) (\<lambda>bp s.
       case find (\<lambda>bi. \<not> bit_used (b_data (bufs s ! bp)) bi) [0..<min BPB (unat (sb_size (sb s)) - k * BPB)] of
         Some bi \<Rightarrow>
           kbind (log_write bp (bput bp (set_bit_used (b_data (bufs s ! bp)) bi) s)) (\<lambda>_ s.
           kbind (brelse bp s) (\<lambda>_ s.
           kbind (bzero dev (of_nat (k * BPB + bi)) s) (\<lambda>_ s. Ret (of_nat (k * BPB + bi)) s)))
       | None \<Rightarrow> kbind (brelse bp s) (\<lambda>_ s. balloc_scan dev ks s))"

definition balloc :: "u32 \<Rightarrow> 'a fsst_scheme \<Rightarrow> (u32, 'a fsst_scheme) res" where
  "balloc dev s = balloc_scan dev [0..<(unat (sb_size (sb s)) + BPB - 1) div BPB] s"

definition bfree :: "u32 \<Rightarrow> u32 \<Rightarrow> 'a fsst_scheme \<Rightarrow> (unit, 'a fsst_scheme) res" where
  "bfree dev b s =
     kbind (bread dev (BBLOCK b s) s) (\<lambda>bp s.
       let bi = unat (b mod 4096); d = b_data (bufs s ! bp)
       in if \<not> bit_used d bi then Panic ''freeing free block''
          else kbind (log_write bp (bput bp (clear_bit_used d bi) s)) (\<lambda>_ s. brelse bp s))"

section \<open>Inodes\<close>

definition sb_message :: "superblock \<Rightarrow> string \<times> parg list" where
  "sb_message x = (''sb: size %d nblocks %d ninodes %d nlog %d logstart %d inodestart %d bmap start %d'' @ [CHR 0x0A],
     map AInt [sb_size x, sb_nblocks x, sb_ninodes x, sb_nlog x, sb_logstart x, sb_inodestart x, sb_bmapstart x])"

definition iinit :: "u32 \<Rightarrow> 'a fsst_scheme \<Rightarrow> (unit, 'a fsst_scheme) res" where
  "iinit dev s =
     (let s = s\<lparr>held := removeAll LIcache (held s)\<rparr>;
          s = fold (\<lambda>i s. initsleeplock (SlInode i) s) [0..<NINODE] s
      in kbind (readsb dev s) (\<lambda>x s.
           let s = s\<lparr>sb := x\<rparr>; (fmt, args) = sb_message x in cprintf fmt args s))"

definition iget :: "u32 \<Rightarrow> u32 \<Rightarrow> 'a fsst_scheme \<Rightarrow> (nat, 'a fsst_scheme) res" where
  "iget dev inum s =
     kbind (lock_acquire LIcache s) (\<lambda>_ s.
       case find_index (\<lambda>x. i_ref x > 0 \<and> i_dev x = dev \<and> i_inum x = inum) (inodes s) of
         Some ip \<Rightarrow> kbind (lock_release LIcache (updi ip (\<lambda>x. x\<lparr>i_ref := i_ref x + 1\<rparr>) s)) (\<lambda>_ s. Ret ip s)
       | None \<Rightarrow>
           (case find_index (\<lambda>x. i_ref x = 0) (inodes s) of
              None \<Rightarrow> Panic ''iget: no inodes''
            | Some ip \<Rightarrow>
                kbind (lock_release LIcache (updi ip (\<lambda>x. x\<lparr>i_dev := dev, i_inum := inum, i_ref := 1, i_valid := False\<rparr>) s)) (\<lambda>_ s.
                  Ret ip s)))"

fun ialloc_scan :: "u32 \<Rightarrow> u16 \<Rightarrow> nat list \<Rightarrow> 'a fsst_scheme \<Rightarrow> (nat, 'a fsst_scheme) res" where
  "ialloc_scan dev type [] s = Panic ''ialloc: no inodes''"
| "ialloc_scan dev type (n # ns) s =
     kbind (bread dev (IBLOCK (of_nat n) s) s) (\<lambda>bp s.
       let d = b_data (bufs s ! bp); off = dinode_off (of_nat n)
       in if get16 d off = 0 then
            kbind (log_write bp (bput bp (splice d off (bytes16 type @ replicate 62 0)) s)) (\<lambda>_ s.
            kbind (brelse bp s) (\<lambda>_ s. iget dev (of_nat n) s))
          else kbind (brelse bp s) (\<lambda>_ s. ialloc_scan dev type ns s))"

definition ialloc :: "u32 \<Rightarrow> u16 \<Rightarrow> 'a fsst_scheme \<Rightarrow> (nat, 'a fsst_scheme) res" where
  "ialloc dev type s = ialloc_scan dev type [1..<unat (sb_ninodes (sb s))] s"

text \<open>The part of an in-memory inode that is kept on the disk.\<close>

definition to_dinode :: "inode \<Rightarrow> dinode" where
  "to_dinode x = \<lparr>di_type = i_type x, di_major = i_major x, di_minor = i_minor x, di_nlink = i_nlink x, di_size = i_size x,
     di_addrs = i_addrs x\<rparr>"

definition load_dinode :: "dinode \<Rightarrow> inode \<Rightarrow> inode" where
  "load_dinode d x = x\<lparr>i_type := di_type d, i_major := di_major d, i_minor := di_minor d, i_nlink := di_nlink d, i_size := di_size d,
     i_addrs := di_addrs d\<rparr>"

definition iupdate :: "nat \<Rightarrow> 'a fsst_scheme \<Rightarrow> (unit, 'a fsst_scheme) res" where
  "iupdate ip s =
     kbind (bread (i_dev (inodes s ! ip)) (IBLOCK (i_inum (inodes s ! ip)) s) s) (\<lambda>bp s.
       let x = inodes s ! ip; d = b_data (bufs s ! bp)
       in kbind (log_write bp (bput bp (splice d (dinode_off (i_inum x)) (dinode_bytes (to_dinode x))) s)) (\<lambda>_ s. brelse bp s))"

definition idup :: "nat \<Rightarrow> 'a fsst_scheme \<Rightarrow> (nat, 'a fsst_scheme) res" where
  "idup ip s =
     kbind (lock_acquire LIcache s) (\<lambda>_ s.
     kbind (lock_release LIcache (updi ip (\<lambda>x. x\<lparr>i_ref := i_ref x + 1\<rparr>) s)) (\<lambda>_ s. Ret ip s))"

text \<open>\<^verbatim>\<open>ilock\<close> after the sleep lock is taken.\<close>

definition ilock_load :: "nat \<Rightarrow> 'a fsst_scheme \<Rightarrow> (unit, 'a fsst_scheme) res" where
  "ilock_load ip s =
     (if i_valid (inodes s ! ip) then Ret () s
      else kbind (bread (i_dev (inodes s ! ip)) (IBLOCK (i_inum (inodes s ! ip)) s) s) (\<lambda>bp s.
             let x = load_dinode (get_dinode (b_data (bufs s ! bp)) (dinode_off (i_inum (inodes s ! ip)))) (inodes s ! ip)
             in kbind (brelse bp (updi ip (\<lambda>_. x) s)) (\<lambda>_ s.
                  let s = updi ip (\<lambda>x. x\<lparr>i_valid := True\<rparr>) s
                  in if i_type (inodes s ! ip) = 0 then Panic ''ilock: no type'' else Ret () s)))"

definition ilock :: "nat option \<Rightarrow> 'a fsst_scheme \<Rightarrow> (unit, 'a fsst_scheme) res" where
  "ilock p s =
     (case p of
        None \<Rightarrow> Panic ''ilock''
      | Some ip \<Rightarrow>
          if i_ref (inodes s ! ip) < 1 then Panic ''ilock''
          else kbind (acquiresleep (SlInode ip) s) (\<lambda>_ s. ilock_load ip s))"

definition ilock_resume :: "nat \<Rightarrow> nat \<Rightarrow> 'a fsst_scheme \<Rightarrow> (unit, 'a fsst_scheme) res" where
  "ilock_resume me ip s = kbind (acquiresleep_resume me (SlInode ip) s) (\<lambda>_ s. ilock_load ip s)"

definition iunlock :: "nat option \<Rightarrow> 'a fsst_scheme \<Rightarrow> (unit, 'a fsst_scheme) res" where
  "iunlock p s =
     (case p of
        None \<Rightarrow> Panic ''iunlock''
      | Some ip \<Rightarrow>
          kbind (holdingsleep (SlInode ip) s) (\<lambda>h s.
            if \<not> h \<or> i_ref (inodes s ! ip) < 1 then Panic ''iunlock'' else releasesleep (SlInode ip) s))"

section \<open>Inode content\<close>

definition bmap :: "nat \<Rightarrow> u32 \<Rightarrow> 'a fsst_scheme \<Rightarrow> (u32, 'a fsst_scheme) res" where
  "bmap ip bn s =
     (let x = inodes s ! ip
      in if unat bn < NDIRECT then
           (let addr = i_addrs x ! unat bn
            in if addr = 0
               then kbind (balloc (i_dev x) s) (\<lambda>addr s.
                      Ret addr (updi ip (\<lambda>x. x\<lparr>i_addrs := (i_addrs x)[unat bn := addr]\<rparr>) s))
               else Ret addr s)
         else let bn = unat bn - NDIRECT
         in if bn < NINDIRECT then
              kbind (if i_addrs x ! NDIRECT = 0
                     then kbind (balloc (i_dev x) s) (\<lambda>addr s.
                            Ret addr (updi ip (\<lambda>x. x\<lparr>i_addrs := (i_addrs x)[NDIRECT := addr]\<rparr>) s))
                     else Ret (i_addrs x ! NDIRECT) s) (\<lambda>addr s.
              kbind (bread (i_dev x) addr s) (\<lambda>bp s.
                let addr = get32 (b_data (bufs s ! bp)) (4 * bn)
                in kbind (if addr = 0
                          then kbind (balloc (i_dev x) s) (\<lambda>addr s.
                               kbind (log_write bp (bput bp (put32 (4 * bn) addr (b_data (bufs s ! bp))) s)) (\<lambda>_ s. Ret addr s))
                          else Ret addr s) (\<lambda>addr s.
                   kbind (brelse bp s) (\<lambda>_ s. Ret addr s))))
            else Panic ''bmap: out of range'')"

definition itrunc_direct :: "nat \<Rightarrow> nat \<Rightarrow> 'a fsst_scheme \<Rightarrow> (unit, 'a fsst_scheme) res" where
  "itrunc_direct ip i s =
     (if i_addrs (inodes s ! ip) ! i \<noteq> 0
      then kbind (bfree (i_dev (inodes s ! ip)) (i_addrs (inodes s ! ip) ! i) s) (\<lambda>_ s.
             Ret () (updi ip (\<lambda>x. x\<lparr>i_addrs := (i_addrs x)[i := 0]\<rparr>) s))
      else Ret () s)"

definition itrunc_indirect :: "nat \<Rightarrow> nat \<Rightarrow> nat \<Rightarrow> 'a fsst_scheme \<Rightarrow> (unit, 'a fsst_scheme) res" where
  "itrunc_indirect ip bp j s =
     (let a = get32 (b_data (bufs s ! bp)) (4 * j) in if a \<noteq> 0 then bfree (i_dev (inodes s ! ip)) a s else Ret () s)"

definition itrunc :: "nat \<Rightarrow> 'a fsst_scheme \<Rightarrow> (unit, 'a fsst_scheme) res" where
  "itrunc ip s =
     kbind (kfor (itrunc_direct ip) [0..<NDIRECT] s) (\<lambda>_ s.
     kbind (let x = inodes s ! ip
            in if i_addrs x ! NDIRECT \<noteq> 0
               then kbind (bread (i_dev x) (i_addrs x ! NDIRECT) s) (\<lambda>bp s.
                    kbind (kfor (itrunc_indirect ip bp) [0..<NINDIRECT] s) (\<lambda>_ s.
                    kbind (brelse bp s) (\<lambda>_ s.
                    kbind (bfree (i_dev x) (i_addrs (inodes s ! ip) ! NDIRECT) s) (\<lambda>_ s.
                      Ret () (updi ip (\<lambda>x. x\<lparr>i_addrs := (i_addrs x)[NDIRECT := 0]\<rparr>) s)))))
               else Ret () s) (\<lambda>_ s.
       iupdate ip (updi ip (\<lambda>x. x\<lparr>i_size := 0\<rparr>) s)))"

text \<open>\<^verbatim>\<open>iput\<close> after the sleep lock is taken.\<close>

definition iput_locked :: "nat \<Rightarrow> 'a fsst_scheme \<Rightarrow> (unit, 'a fsst_scheme) res" where
  "iput_locked ip s =
     kbind (if i_valid (inodes s ! ip) \<and> i_nlink (inodes s ! ip) = 0
            then kbind (lock_acquire LIcache s) (\<lambda>_ s.
              let r = i_ref (inodes s ! ip)
              in kbind (lock_release LIcache s) (\<lambda>_ s.
                   if r = 1
                   then kbind (itrunc ip s) (\<lambda>_ s.
                        kbind (iupdate ip (updi ip (\<lambda>x. x\<lparr>i_type := 0\<rparr>) s)) (\<lambda>_ s.
                          Ret () (updi ip (\<lambda>x. x\<lparr>i_valid := False\<rparr>) s)))
                   else Ret () s))
            else Ret () s) (\<lambda>_ s.
     kbind (releasesleep (SlInode ip) s) (\<lambda>_ s.
     kbind (lock_acquire LIcache s) (\<lambda>_ s.
       lock_release LIcache (updi ip (\<lambda>x. x\<lparr>i_ref := i_ref x - 1\<rparr>) s))))"

definition iput :: "nat \<Rightarrow> 'a fsst_scheme \<Rightarrow> (unit, 'a fsst_scheme) res" where
  "iput ip s = kbind (acquiresleep (SlInode ip) s) (\<lambda>_ s. iput_locked ip s)"

definition iput_resume :: "nat \<Rightarrow> nat \<Rightarrow> 'a fsst_scheme \<Rightarrow> (unit, 'a fsst_scheme) res" where
  "iput_resume me ip s = kbind (acquiresleep_resume me (SlInode ip) s) (\<lambda>_ s. iput_locked ip s)"

definition iunlockput :: "nat \<Rightarrow> 'a fsst_scheme \<Rightarrow> (unit, 'a fsst_scheme) res" where
  "iunlockput ip s = kbind (iunlock (Some ip) s) (\<lambda>_ s. iput ip s)"

definition stati :: "nat \<Rightarrow> 'a fsst_scheme \<Rightarrow> statbuf" where
  "stati ip s = (let x = inodes s ! ip
     in \<lparr>st_type = i_type x, st_dev = i_dev x, st_ino = i_inum x, st_nlink = i_nlink x, st_size = i_size x\<rparr>)"

text \<open>
  The bytes that fit into the block at the offset: \<^verbatim>\<open>min(n - tot, BSIZE - off%BSIZE)\<close> of \<open>k\<close> bytes that remain.
\<close>

definition chunk :: "nat \<Rightarrow> u32 \<Rightarrow> nat" where
  "chunk k off = min k (BSIZE - unat (off mod 512))"

lemma chunk_pos [simp]: "0 < k \<Longrightarrow> 0 < chunk k off" "chunk k off \<le> k"
proof -
  have "unat (off mod 512) < 512" by (simp add: unat_mod)
  then show "0 < k \<Longrightarrow> 0 < chunk k off" "chunk k off \<le> k" by (auto simp: chunk_def)
qed

function readi_loop :: "nat \<Rightarrow> u32 \<Rightarrow> nat \<Rightarrow> 'a fsst_scheme \<Rightarrow> (u8 list, 'a fsst_scheme) res" where
  "readi_loop ip off k s =
     (if k = 0 then Ret [] s
      else kbind (bmap ip (off div 512) s) (\<lambda>a s.
           kbind (bread (i_dev (inodes s ! ip)) a s) (\<lambda>bp s.
             let m = chunk k off; xs = take m (drop (unat (off mod 512)) (b_data (bufs s ! bp)))
             in kbind (brelse bp s) (\<lambda>_ s.
                kbind (readi_loop ip (off + of_nat m) (k - m) s) (\<lambda>ys s. Ret (xs @ ys) s)))))"
  by pat_completeness auto
termination
  by (relation "measure (\<lambda>(ip, off, k, s). k)") (use chunk_pos(1) in \<open>auto simp: Let_def\<close>)

declare readi_loop.simps [simp del]

type_synonym 's devread = "int \<Rightarrow> (nat \<Rightarrow> int \<Rightarrow> 's \<Rightarrow> (int \<times> u8 list, 's) res) option"
type_synonym 's devwrite = "int \<Rightarrow> (nat \<Rightarrow> u8 list \<Rightarrow> 's \<Rightarrow> (int, 's) res) option"

text \<open>\<^verbatim>\<open>readi\<close> of a file or directory.\<close>

definition readi_data :: "nat \<Rightarrow> u32 \<Rightarrow> u32 \<Rightarrow> 'a fsst_scheme \<Rightarrow> (int \<times> u8 list, 'a fsst_scheme) res" where
  "readi_data ip off n s =
     (let size = i_size (inodes s ! ip)
      in if off > size \<or> off + n < off then Ret (-1, []) s
         else let n = (if off + n > size then size - off else n)
         in kbind (readi_loop ip off (unat n) s) (\<lambda>xs s. Ret (sint n, xs) s))"

definition readi :: "'a fsst_scheme devread \<Rightarrow> nat \<Rightarrow> u32 \<Rightarrow> u32 \<Rightarrow> 'a fsst_scheme \<Rightarrow> (int \<times> u8 list, 'a fsst_scheme) res" where
  "readi dv ip off n s =
     (let x = inodes s ! ip
      in if i_type x = T_DEV then
           (if sint (i_major x) < 0 \<or> sint (i_major x) \<ge> 10 then Ret (-1, []) s
            else case dv (sint (i_major x)) of None \<Rightarrow> Ret (-1, []) s | Some f \<Rightarrow> f ip (sint n) s)
         else readi_data ip off n s)"

function writei_loop :: "nat \<Rightarrow> u8 list \<Rightarrow> u32 \<Rightarrow> 'a fsst_scheme \<Rightarrow> (u32, 'a fsst_scheme) res" where
  "writei_loop ip src off s =
     (if src = [] then Ret off s
      else kbind (bmap ip (off div 512) s) (\<lambda>a s.
           kbind (bread (i_dev (inodes s ! ip)) a s) (\<lambda>bp s.
             let m = chunk (length src) off
             in kbind (log_write bp (bput bp (splice (b_data (bufs s ! bp)) (unat (off mod 512)) (take m src)) s)) (\<lambda>_ s.
                kbind (brelse bp s) (\<lambda>_ s.
                  writei_loop ip (drop m src) (off + of_nat m) s)))))"
  by pat_completeness auto
termination
  by (relation "measure (\<lambda>(ip, src, off, s). length src)") (use chunk_pos(1) in \<open>auto simp: Let_def\<close>)

declare writei_loop.simps [simp del]

definition writei_data :: "nat \<Rightarrow> u8 list \<Rightarrow> u32 \<Rightarrow> 'a fsst_scheme \<Rightarrow> (int, 'a fsst_scheme) res" where
  "writei_data ip src off s =
     (let n = of_nat (length src)
      in if off > i_size (inodes s ! ip) \<or> off + n < off then Ret (-1) s
         else if off + n > 71680 then Ret (-1) s
         else kbind (writei_loop ip src off s) (\<lambda>off s.
           if n > 0 \<and> off > i_size (inodes s ! ip)
           then kbind (iupdate ip (updi ip (\<lambda>x. x\<lparr>i_size := off\<rparr>) s)) (\<lambda>_ s. Ret (sint n) s)
           else Ret (sint n) s))"

definition writei :: "'a fsst_scheme devwrite \<Rightarrow> nat \<Rightarrow> u8 list \<Rightarrow> u32 \<Rightarrow> 'a fsst_scheme \<Rightarrow> (int, 'a fsst_scheme) res" where
  "writei dv ip src off s =
     (let x = inodes s ! ip
      in if i_type x = T_DEV then
           (if sint (i_major x) < 0 \<or> sint (i_major x) \<ge> 10 then Ret (-1) s
            else case dv (sint (i_major x)) of None \<Rightarrow> Ret (-1) s | Some f \<Rightarrow> f ip src s)
         else writei_data ip src off s)"

section \<open>Directories\<close>

text \<open>\<^verbatim>\<open>strncmp\<close> on the bytes of two strings; the end of a list stands for the terminating 0.\<close>

primrec bstrncmp :: "nat \<Rightarrow> u8 list \<Rightarrow> u8 list \<Rightarrow> int" where
  "bstrncmp 0 s t = 0"
| "bstrncmp (Suc n) s t =
     (let p = (case s of [] \<Rightarrow> 0 | c # _ \<Rightarrow> c); q = (case t of [] \<Rightarrow> 0 | c # _ \<Rightarrow> c)
      in if p \<noteq> 0 \<and> p = q then bstrncmp n (tl s) (tl t) else uint p - uint q)"

definition namecmp :: "u8 list \<Rightarrow> u8 list \<Rightarrow> int" where
  "namecmp s t = bstrncmp DIRSIZ s t"

text \<open>
  The loops of \<^verbatim>\<open>dirlookup\<close> and \<^verbatim>\<open>dirlink\<close> end at the first entry with the property, or else at the end of the directory, and return the offset. They
  end although \<^verbatim>\<open>off\<close> may wrap around, because \<^verbatim>\<open>readi\<close> fails first. The directory is no device, so \<^verbatim>\<open>readi\<close> is \<open>readi_data\<close>.
\<close>

lemma readi_data_no_wrap:
  assumes "readi_data dp off 16 s = Ret (r, xs) t" "r = 16"
  shows "unat (off + 16) = unat off + 16"
proof -
  have "\<not> off + 16 < off" using assms by (auto simp: readi_data_def Let_def split: if_splits)
  then show ?thesis by (simp add: word_less_nat_alt unat_plus_if' not_less split: if_splits)
qed

function dir_scan :: "string \<Rightarrow> (dirent \<Rightarrow> bool) \<Rightarrow> nat \<Rightarrow> u32 \<Rightarrow> 'a fsst_scheme \<Rightarrow> (dirent option \<times> u32, 'a fsst_scheme) res" where
  "dir_scan msg P dp off s =
     (if off < i_size (inodes s ! dp) then
        kbind (readi_data dp off 16 s) (\<lambda>(r, xs) s.
          if r \<noteq> 16 then Panic msg
          else if P (get_dirent xs) then Ret (Some (get_dirent xs), off) s
          else dir_scan msg P dp (off + 16) s)
      else Ret (None, off) s)"
  by pat_completeness auto
termination
  apply (relation "measure (\<lambda>(msg, P, dp, off, s). 2 ^ 32 - unat off)")
   apply simp
  subgoal premises prems for msg P dp off s a t r xs u
  proof -
    have "unat (off + 16) = unat off + 16" using readi_data_no_wrap [of dp off s r xs t] prems by simp
    then show ?thesis using unat_lt32 [of off] unat_lt32 [of "off + 16"] by simp
  qed
  done

declare dir_scan.simps [simp del]

definition dirlookup :: "nat \<Rightarrow> u8 list \<Rightarrow> 'a fsst_scheme \<Rightarrow> ((nat \<times> u32) option, 'a fsst_scheme) res" where
  "dirlookup dp name s =
     (if i_type (inodes s ! dp) \<noteq> T_DIR then Panic ''dirlookup not DIR''
      else kbind (dir_scan ''dirlookup read'' (\<lambda>e. de_inum e \<noteq> 0 \<and> namecmp name (de_name e) = 0) dp 0 s) (\<lambda>(e, off) s.
        case e of
          None \<Rightarrow> Ret None s
        | Some e \<Rightarrow> kbind (iget (i_dev (inodes s ! dp)) (ucast (de_inum e)) s) (\<lambda>ip s. Ret (Some (ip, off)) s)))"

text \<open>\<^verbatim>\<open>strncpy\<close> into an array of \<open>n\<close> bytes.\<close>

definition bstrncpy :: "nat \<Rightarrow> u8 list \<Rightarrow> u8 list" where
  "bstrncpy n s = take n s @ replicate (n - length s) 0"

definition dirlink :: "nat \<Rightarrow> u8 list \<Rightarrow> u32 \<Rightarrow> 'a fsst_scheme \<Rightarrow> (int, 'a fsst_scheme) res" where
  "dirlink dp name inum s =
     kbind (dirlookup dp name s) (\<lambda>found s.
       case found of
         Some (ip, _) \<Rightarrow> kbind (iput ip s) (\<lambda>_ s. Ret (-1) s)
       | None \<Rightarrow>
           kbind (dir_scan ''dirlink read'' (\<lambda>e. de_inum e = 0) dp 0 s) (\<lambda>(_, off) s.
           kbind (writei_data dp (dirent_bytes \<lparr>de_inum = ucast inum, de_name = bstrncpy DIRSIZ name\<rparr>) off s) (\<lambda>r s.
             if r \<noteq> 16 then Panic ''dirlink'' else Ret 0 s)))"

section \<open>Paths\<close>

abbreviation (input) slash :: u8 where "slash \<equiv> 47"

text \<open>A path element and the rest of the path; the element is cut off after \<^verbatim>\<open>DIRSIZ\<close> bytes.\<close>

definition skipelem :: "u8 list \<Rightarrow> (u8 list \<times> u8 list) option" where
  "skipelem path =
     (let path = dropWhile (\<lambda>c. c = slash) path
      in if path = [] then None
         else let s = takeWhile (\<lambda>c. c \<noteq> slash) path; rest = dropWhile (\<lambda>c. c \<noteq> slash) path
         in Some (take DIRSIZ s, dropWhile (\<lambda>c. c = slash) rest))"

lemma skipelem_shorter: "skipelem path = Some (name, rest) \<Longrightarrow> length rest < length path"
proof -
  assume a: "skipelem path = Some (name, rest)"
  let ?p = "dropWhile (\<lambda>c. c = slash) path"
  have p: "?p \<noteq> []" "rest = dropWhile (\<lambda>c. c = slash) (dropWhile (\<lambda>c. c \<noteq> slash) ?p)"
    using a by (auto simp: skipelem_def Let_def split: if_splits)
  then obtain c cs where c: "?p = c # cs" by (cases ?p) auto
  then have "c \<noteq> slash" using hd_dropWhile [of "\<lambda>c. c = slash" path] by auto
  then have "length (dropWhile (\<lambda>c. c \<noteq> slash) ?p) \<le> length cs"
    unfolding c by (simp add: length_dropWhile_le)
  then have "length rest \<le> length cs"
    unfolding p(2) by (rule le_trans [OF length_dropWhile_le])
  also have "length cs < length path" using c length_dropWhile_le [of "\<lambda>c. c = slash" path] by simp
  finally show ?thesis .
qed

text \<open>\<open>namex_loop\<close> returns the inode, if there is one, and the last element that \<^verbatim>\<open>skipelem\<close> has stored into \<^verbatim>\<open>name\<close>.\<close>

function namex_loop :: "bool \<Rightarrow> nat \<Rightarrow> u8 list \<Rightarrow> u8 list \<Rightarrow> 'a fsst_scheme \<Rightarrow> (nat option \<times> u8 list, 'a fsst_scheme) res" where
  "namex_loop nameiparent ip path name s =
     (case skipelem path of
        None \<Rightarrow> if nameiparent then kbind (iput ip s) (\<lambda>_ s. Ret (None, name) s) else Ret (Some ip, name) s
      | Some (name, path) \<Rightarrow>
          kbind (ilock (Some ip) s) (\<lambda>_ s.
            if i_type (inodes s ! ip) \<noteq> T_DIR then kbind (iunlockput ip s) (\<lambda>_ s. Ret (None, name) s)
            else if nameiparent \<and> path = [] then kbind (iunlock (Some ip) s) (\<lambda>_ s. Ret (Some ip, name) s)
            else kbind (dirlookup ip name s) (\<lambda>next s.
                   kbind (iunlockput ip s) (\<lambda>_ s.
                     case next of
                       None \<Rightarrow> Ret (None, name) s
                     | Some (next, _) \<Rightarrow> namex_loop nameiparent next path name s))))"
  by pat_completeness auto
termination
  by (relation "measure (\<lambda>(np, ip, path, name, s). length path)") (simp, simp only: in_measure prod.case, metis skipelem_shorter prod.collapse)

declare namex_loop.simps [simp del]

definition namex :: "u8 list \<Rightarrow> bool \<Rightarrow> 'a fsst_scheme \<Rightarrow> (nat option \<times> u8 list, 'a fsst_scheme) res" where
  "namex path nameiparent s =
     kbind (if path \<noteq> [] \<and> hd path = slash then iget ROOTDEV ROOTINO s
            else case cpu_proc s of
                   None \<Rightarrow> Fault ''namex: null process''
                 | Some i \<Rightarrow> (case p_cwd (procs s ! i) of None \<Rightarrow> Fault ''namex: null cwd'' | Some ip \<Rightarrow> idup ip s)) (\<lambda>ip s.
       namex_loop nameiparent ip path [] s)"

definition namei :: "u8 list \<Rightarrow> 'a fsst_scheme \<Rightarrow> (nat option, 'a fsst_scheme) res" where
  "namei path s = kbind (namex path False s) (\<lambda>(ip, _) s. Ret ip s)"

definition nameiparent :: "u8 list \<Rightarrow> 'a fsst_scheme \<Rightarrow> (nat option \<times> u8 list, 'a fsst_scheme) res" where
  "nameiparent path s = namex path True s"

section \<open>The file system's part of the state\<close>

lemma fs_more:
  fixes s t :: "'a fsst_scheme"
  assumes "tview t = tview s"
  shows "sb t = sb s" "inodes t = inodes s"
  using tview_fields(10) [OF assms] by (cases s, cases t, simp)+

lemma fs_upd [simp]:
  fixes s :: "'a fsst_scheme"
  shows "bio_ok (s\<lparr>inodes := x\<rparr>) = bio_ok s" "blk (s\<lparr>inodes := x\<rparr>) = blk s" "locked_blocks (s\<lparr>inodes := x\<rparr>) = locked_blocks s"
    "dirty_blocks (s\<lparr>inodes := x\<rparr>) = dirty_blocks s" "holds_buf (s\<lparr>inodes := x\<rparr>) = holds_buf s" "geom_ok (s\<lparr>inodes := x\<rparr>) = geom_ok s"
    "log_area (s\<lparr>inodes := x\<rparr>) = log_area s" "entries_ok (s\<lparr>inodes := x\<rparr>) n bs = entries_ok s n bs"
    "log_room (s\<lparr>inodes := x\<rparr>) = log_room s"
proof -
  show g: "geom_ok (s\<lparr>inodes := x\<rparr>) = geom_ok s" "log_area (s\<lparr>inodes := x\<rparr>) = log_area s" "log_room (s\<lparr>inodes := x\<rparr>) = log_room s"
    by (simp_all add: geom_ok_def log_area_def log_blk_def log_room_def)
  show "entries_ok (s\<lparr>inodes := x\<rparr>) n bs = entries_ok s n bs" using g by (simp add: entries_ok_def)
  show "bio_ok (s\<lparr>inodes := x\<rparr>) = bio_ok s" by (simp add: bio_ok_def ptab_ok_def fs_quiet_def mypid_def)
  show "blk (s\<lparr>inodes := x\<rparr>) = blk s" by (simp add: blk_def fun_eq_iff cong: option.case_cong)
  show "locked_blocks (s\<lparr>inodes := x\<rparr>) = locked_blocks s" "dirty_blocks (s\<lparr>inodes := x\<rparr>) = dirty_blocks s"
    "holds_buf (s\<lparr>inodes := x\<rparr>) = holds_buf s" by (simp_all add: locked_blocks_def dirty_blocks_def holds_buf_def fun_eq_iff)
qed

lemma tx_ok_inodes [simp]: "tx_ok (s\<lparr>inodes := x\<rparr>) = tx_ok (s :: 'a fsst_scheme)"
  by (simp add: tx_ok_def)

section \<open>The free map\<close>

lemma bit_used_iff: "bit_used d bi \<longleftrightarrow> bit (d ! (bi div 8)) (bi mod 8)"
proof -
  have "bit_mask bi = 2 ^ (bi mod 8)" by (simp add: bit_mask_def push_bit_eq_mult)
  then show ?thesis by (simp add: bit_used_def and_exp_eq_0_iff_not_bit)
qed

lemma bit_mask_bit: "bit (bit_mask bi) k \<longleftrightarrow> k = bi mod 8"
  by (auto simp: bit_mask_def push_bit_eq_mult bit_exp_iff possible_bit_def)

lemma bit_used_set:
  assumes "b < 8 * length d" "c < 8 * length d"
  shows "bit_used (set_bit_used d b) c \<longleftrightarrow> c = b \<or> bit_used d c"
proof -
  have "b div 8 < length d" using assms by auto
  moreover have "c = b \<longleftrightarrow> c div 8 = b div 8 \<and> c mod 8 = b mod 8" by (metis div_mod_decomp)
  ultimately show ?thesis
    by (auto simp: bit_used_iff set_bit_used_def nth_list_update bit_or_iff bit_mask_bit)
qed

lemma bit_used_clear:
  assumes "b < 8 * length d" "c < 8 * length d"
  shows "bit_used (clear_bit_used d b) c \<longleftrightarrow> c \<noteq> b \<and> bit_used d c"
proof -
  have "b div 8 < length d" using assms by auto
  moreover have "c = b \<longleftrightarrow> c div 8 = b div 8 \<and> c mod 8 = b mod 8" by (metis div_mod_decomp)
  moreover have "c mod 8 < 8" by simp
  ultimately show ?thesis
    by (auto simp: bit_used_iff clear_bit_used_def nth_list_update bit_and_iff bit_not_iff bit_mask_bit)
qed

lemma clear_set_bit: "\<not> bit_used d b \<Longrightarrow> b < 8 * length d \<Longrightarrow> clear_bit_used (set_bit_used d b) b = d"
proof (rule nth_equalityI)
  fix i assume a: "\<not> bit_used d b" "b < 8 * length d" "i < length (clear_bit_used (set_bit_used d b) b)"
  have "b div 8 < length d" using a(2) by auto
  moreover have "(w OR bit_mask b) AND NOT (bit_mask b) = w" if "\<not> bit w (b mod 8)" for w
    by (rule bit_eqI) (use that in \<open>auto simp: bit_and_iff bit_or_iff bit_not_iff bit_mask_bit\<close>)
  ultimately show "clear_bit_used (set_bit_used d b) b ! i = d ! i"
    using a(1,3) by (auto simp: clear_bit_used_def set_bit_used_def nth_list_update bit_used_iff)
qed (simp add: clear_bit_used_def set_bit_used_def)

lemma length_bits [simp]: "length (set_bit_used d b) = length d" "length (clear_bit_used d b) = length d"
  by (simp_all add: set_bit_used_def clear_bit_used_def)

text \<open>
  A file system of at most 1000 blocks, the sizes \<^verbatim>\<open>mkfs\<close> makes: the free map is one block outside the log, and every free block is outside the log
  and not the free map.
\<close>

definition map_blk :: "'a fsst_scheme \<Rightarrow> u32" where
  "map_blk s = sb_bmapstart (sb s)"

definition block_used :: "'a fsst_scheme \<Rightarrow> nat \<Rightarrow> bool" where
  "block_used s b = bit_used (blk s (map_blk s)) b"

definition fs_ok :: "'a fsst_scheme \<Rightarrow> bool" where
  "fs_ok s \<longleftrightarrow> 0 < unat (sb_size (sb s)) \<and> unat (sb_size (sb s)) \<le> 1000 \<and> home_block s (map_blk s) \<and> length (blk s (map_blk s)) = 512 \<and>
     (\<forall>b < unat (sb_size (sb s)). \<not> block_used s b \<longrightarrow> home_block s (of_nat b) \<and> of_nat b \<noteq> map_blk s)"

definition first_free :: "'a fsst_scheme \<Rightarrow> nat option" where
  "first_free s = find (\<lambda>b. \<not> block_used s b) [0..<unat (sb_size (sb s))]"

lemma bzero_Ret:
  assumes "tx_ok s" "home_block s n" "n \<notin> locked_blocks s" "card (locked_blocks s) \<le> log_room s" "0 < log_room s"
  shows "\<exists>t. bzero 1 n s = Ret () t \<and> tx_ok t \<and> tview t = tview s \<and> log_room s \<le> log_room t + 1 \<and> blk t = (blk s)(n := replicate 512 0) \<and>
    disk t 1 = disk s 1 \<and> locked_blocks t = locked_blocks s \<and> (\<forall>m c. m \<noteq> n \<longrightarrow> holds_buf s m c \<longrightarrow> holds_buf t m c)"
  using lc.tx_update [OF assms, of "\<lambda>_. replicate 512 0"] unfolding bzero_def by blast

lemma BBLOCK_one: "unat b < 4096 \<Longrightarrow> BBLOCK b s = map_blk s"
proof -
  assume "unat b < 4096"
  then have "b div 4096 = 0" by (simp add: word_arith_nat_div)
  then show ?thesis by (simp add: BBLOCK_def map_blk_def)
qed

lemma fs_okD:
  assumes "fs_ok s"
  shows "0 < unat (sb_size (sb s))" "unat (sb_size (sb s)) \<le> 1000" "home_block s (map_blk s)" "length (blk s (map_blk s)) = 512"
    "b < unat (sb_size (sb s)) \<Longrightarrow> \<not> block_used s b \<Longrightarrow> home_block s (of_nat b) \<and> of_nat b \<noteq> map_blk s"
  using assms by (auto simp: fs_ok_def)

lemma fs_view:
  fixes s t :: "'a fsst_scheme"
  assumes "tview t = tview s"
  shows "map_blk t = map_blk s" "home_block t n = home_block s n" "IBLOCK i t = IBLOCK i s" "BBLOCK i t = BBLOCK i s"
  using fs_more [OF assms] tview_fields(5) [OF assms] by (simp_all add: map_blk_def home_block_def IBLOCK_def BBLOCK_def)

text \<open>Allocation and release of a block, for a caller that may hold one other buffer.\<close>

lemma balloc_Ret:
  assumes ok: "tx_ok s" "fs_ok s" and lk: "map_blk s \<notin> locked_blocks s" "card (locked_blocks s) \<le> 1" "3 \<le> log_room s"
    and free: "first_free s = Some b" "of_nat b \<notin> locked_blocks s"
  shows "\<exists>t. balloc 1 s = Ret (of_nat b) t \<and> tx_ok t \<and> tview t = tview s \<and> log_room s \<le> log_room t + 2 \<and>
    blk t = (blk s)(map_blk s := set_bit_used (blk s (map_blk s)) b, of_nat b := replicate 512 0) \<and> disk t 1 = disk s 1 \<and>
    locked_blocks t = locked_blocks s \<and> (\<forall>m c. m \<noteq> map_blk s \<and> m \<noteq> of_nat b \<longrightarrow> holds_buf s m c \<longrightarrow> holds_buf t m c)"
proof -
  note f = fs_okD [OF ok(2)]
  let ?N = "unat (sb_size (sb s))" and ?m = "map_blk s"
  have b: "b < ?N" "\<not> block_used s b" using find_in [OF free(1) [unfolded first_free_def]] by auto
  note hb = f(5) [OF b]
  have range: "[0..<(?N + BPB - 1) div BPB] = [0]"
  proof -
    have "(?N + BPB - 1) div BPB = 1" using f(1,2) by (intro div_nat_eqI) simp_all
    then show ?thesis by simp
  qed
  have cr: "card (locked_blocks s) \<le> log_room s" "0 < log_room s" using lk by simp_all
  obtain bp t where t: "bread 1 ?m s = Ret bp t" "tx_ok t" "tview t = tview s" "log_room t = log_room s" "holds_buf t ?m bp"
    "b_data (bufs t ! bp) = blk s ?m" "blk t = blk s" "disk t 1 = disk s 1" "locked_blocks t = insert ?m (locked_blocks s)"
    "\<forall>m c. holds_buf s m c \<longrightarrow> holds_buf t m c"
    using lc.tx_read [OF ok(1) _ lk(1) cr(1)] f(3) by (auto simp: home_block_def)
  note tv = fs_view [OF t(3)] fs_more [OF t(3)]
  have fnd: "find (\<lambda>bi. \<not> bit_used (blk s ?m) bi) [0..<min BPB (unat (sb_size (sb t)) - 0 * BPB)] = Some b"
    using free(1) f(2) unfolding first_free_def block_used_def tv(5) by simp
  have ht: "home_block t ?m" "0 < log_room t" using tv(2) f(3) t(4) cr by simp_all
  obtain u where u: "log_write bp (bput bp (set_bit_used (blk s ?m) b) t) = Ret () u" "tx_ok u" "tview u = tview t" "log_room t \<le> log_room u + 1"
    "blk u = (blk t)(?m := set_bit_used (blk s ?m) b)" "disk u 1 = disk t 1" "locked_blocks u = locked_blocks t"
    "dirty_blocks u = insert ?m (dirty_blocks t)" "\<forall>m c. holds_buf u m c = holds_buf t m c"
    using lc.tx_log [OF t(2,5) ht] by blast
  have hu: "holds_buf u ?m bp" "?m \<in> dirty_blocks u \<or> blk u ?m = disk u 1 ?m" using u t(5) by simp_all
  obtain v where v: "brelse bp u = Ret () v" "tx_ok v" "tview v = tview u" "log_room v = log_room u" "blk v = blk u" "disk v 1 = disk u 1"
    "locked_blocks v = locked_blocks u - {?m}" "\<forall>m c. m \<noteq> ?m \<longrightarrow> holds_buf v m c = holds_buf u m c"
    using lc.tx_release [OF u(2) hu] by blast
  have lv: "locked_blocks v = locked_blocks s" using v(7) u(7) t(9) lk(1) by simp
  have vv: "tview v = tview s" using v(3) u(3) t(3) by simp
  have rv: "log_room s \<le> log_room v + 1" using v(4) u(4) t(4) by simp
  have "home_block v (of_nat b)" "of_nat b \<notin> locked_blocks v" "card (locked_blocks v) \<le> log_room v" "0 < log_room v"
    using fs_view(2) [OF vv] hb lv free(2) lk(2,3) rv by simp_all
  from bzero_Ret [OF v(2) this] obtain w where w: "bzero 1 (of_nat b) v = Ret () w" "tx_ok w" "tview w = tview v" "log_room v \<le> log_room w + 1"
    "blk w = (blk v)(of_nat b := replicate 512 0)" "disk w 1 = disk v 1" "locked_blocks w = locked_blocks v"
    "\<forall>m c. m \<noteq> of_nat b \<longrightarrow> holds_buf v m c \<longrightarrow> holds_buf w m c" by blast
  have B0: "BBLOCK (of_nat (0 * BPB)) s = ?m" by (rule BBLOCK_one) simp
  have run: "balloc 1 s = Ret (of_nat b) w"
    unfolding balloc_def range balloc_scan.simps B0 t(1) kbind.simps t(6) fnd option.case u(1) v(1)
    using w(1) by simp
  have bw: "blk w = (blk s)(?m := set_bit_used (blk s ?m) b, of_nat b := replicate 512 0)" using w(5) v(5) u(5) t(7) by simp
  have "holds_buf w m c" if "m \<noteq> ?m" "m \<noteq> of_nat b" "holds_buf s m c" for m c
    using that w(8) v(8) u(9) t(10) by blast
  then show ?thesis using run w bw vv rv lv v(6) u(6) t(8) by (intro exI [of _ w]) auto
qed

lemma balloc_full:
  assumes ok: "tx_ok s" "fs_ok s" and lk: "map_blk s \<notin> locked_blocks s" "card (locked_blocks s) \<le> log_room s" and full: "first_free s = None"
  shows "balloc 1 s = Panic ''balloc: out of blocks''"
proof -
  note f = fs_okD [OF ok(2)]
  let ?N = "unat (sb_size (sb s))" and ?m = "map_blk s"
  have range: "[0..<(?N + BPB - 1) div BPB] = [0]"
  proof -
    have "(?N + BPB - 1) div BPB = 1" using f(1,2) by (intro div_nat_eqI) simp_all
    then show ?thesis by simp
  qed
  obtain bp t where t: "bread 1 ?m s = Ret bp t" "tx_ok t" "tview t = tview s" "holds_buf t ?m bp"
    "b_data (bufs t ! bp) = blk s ?m" "?m \<in> dirty_blocks t \<or> blk t ?m = disk t 1 ?m"
    using lc.tx_read [OF ok(1) _ lk(1,2)] f(3) by (auto simp: home_block_def)
  note tv = fs_view [OF t(3)] fs_more [OF t(3)]
  have fnd: "find (\<lambda>bi. \<not> bit_used (blk s ?m) bi) [0..<min BPB (unat (sb_size (sb t)) - 0 * BPB)] = None"
    using full f(2) unfolding first_free_def block_used_def tv(5) by simp
  obtain v where v: "brelse bp t = Ret () v" using lc.tx_release [OF t(2,4,6)] by blast
  have B0: "BBLOCK (of_nat (0 * BPB)) s = ?m" by (rule BBLOCK_one) simp
  show ?thesis unfolding balloc_def range balloc_scan.simps B0 t(1) kbind.simps t(5) fnd option.case v by simp
qed

lemma bfree_Ret:
  assumes ok: "tx_ok s" "fs_ok s" and lk: "map_blk s \<notin> locked_blocks s" "card (locked_blocks s) \<le> log_room s" "0 < log_room s"
    and b: "b < 4096"
  shows "\<not> block_used s b \<Longrightarrow> bfree 1 (of_nat b) s = Panic ''freeing free block''"
    "block_used s b \<Longrightarrow> \<exists>t. bfree 1 (of_nat b) s = Ret () t \<and> tx_ok t \<and> tview t = tview s \<and> log_room s \<le> log_room t + 1 \<and>
      blk t = (blk s)(map_blk s := clear_bit_used (blk s (map_blk s)) b) \<and> disk t 1 = disk s 1 \<and> locked_blocks t = locked_blocks s \<and>
      (\<forall>m c. m \<noteq> map_blk s \<longrightarrow> holds_buf s m c \<longrightarrow> holds_buf t m c)"
proof -
  note f = fs_okD [OF ok(2)]
  let ?m = "map_blk s"
  have ub: "unat (of_nat b :: u32) = b" using b by (intro unat_of_nat32) simp
  have B: "BBLOCK (of_nat b) s = ?m" using b ub by (intro BBLOCK_one) simp
  have bm: "unat ((of_nat b :: u32) mod 4096) = b" using b ub by (simp add: unat_mod)
  obtain bp t where t: "bread 1 ?m s = Ret bp t" "tx_ok t" "tview t = tview s" "log_room t = log_room s" "holds_buf t ?m bp"
    "b_data (bufs t ! bp) = blk s ?m" "blk t = blk s" "disk t 1 = disk s 1" "locked_blocks t = insert ?m (locked_blocks s)"
    "\<forall>m c. holds_buf s m c \<longrightarrow> holds_buf t m c"
    using lc.tx_read [OF ok(1) _ lk(1,2)] f(3) by (auto simp: home_block_def)
  have run: "bfree 1 (of_nat b) s = (if \<not> block_used s b then Panic ''freeing free block''
      else kbind (log_write bp (bput bp (clear_bit_used (blk s ?m) b) t)) (\<lambda>_ s. brelse bp s))"
    using t(1,6) by (simp add: bfree_def B bm block_used_def Let_def)
  show "\<not> block_used s b \<Longrightarrow> bfree 1 (of_nat b) s = Panic ''freeing free block''" using run by simp
  assume u: "block_used s b"
  have ht: "home_block t ?m" "0 < log_room t" using fs_view(2) [OF t(3)] f(3) t(4) lk by simp_all
  obtain u where u': "log_write bp (bput bp (clear_bit_used (blk s ?m) b) t) = Ret () u" "tx_ok u" "tview u = tview t" "log_room t \<le> log_room u + 1"
    "blk u = (blk t)(?m := clear_bit_used (blk s ?m) b)" "disk u 1 = disk t 1" "locked_blocks u = locked_blocks t"
    "dirty_blocks u = insert ?m (dirty_blocks t)" "\<forall>m c. holds_buf u m c = holds_buf t m c"
    using lc.tx_log [OF t(2,5) ht] by blast
  have hu: "holds_buf u ?m bp" "?m \<in> dirty_blocks u \<or> blk u ?m = disk u 1 ?m" using u' t(5) by simp_all
  obtain v where v: "brelse bp u = Ret () v" "tx_ok v" "tview v = tview u" "log_room v = log_room u" "blk v = blk u" "disk v 1 = disk u 1"
    "locked_blocks v = locked_blocks u - {?m}" "\<forall>m c. m \<noteq> ?m \<longrightarrow> holds_buf v m c = holds_buf u m c"
    using lc.tx_release [OF u'(2) hu] by blast
  have "locked_blocks v = locked_blocks s" using v(7) u'(7) t(9) lk(1) by simp
  then show "\<exists>t. bfree 1 (of_nat b) s = Ret () t \<and> tx_ok t \<and> tview t = tview s \<and> log_room s \<le> log_room t + 1 \<and>
      blk t = (blk s)(map_blk s := clear_bit_used (blk s (map_blk s)) b) \<and> disk t 1 = disk s 1 \<and> locked_blocks t = locked_blocks s \<and>
      (\<forall>m c. m \<noteq> map_blk s \<longrightarrow> holds_buf s m c \<longrightarrow> holds_buf t m c)"
    using run u u' v t by (intro exI [of _ v]) auto
qed

lemma first_free_Some:
  assumes "first_free s = Some b"
  shows "b < unat (sb_size (sb s))" "\<not> block_used s b" "c < b \<Longrightarrow> block_used s c"
proof -
  obtain i where i: "i < unat (sb_size (sb s))" "\<not> block_used s ([0..<unat (sb_size (sb s))] ! i)" "b = [0..<unat (sb_size (sb s))] ! i"
    "\<forall>j<i. block_used s ([0..<unat (sb_size (sb s))] ! j)"
    using assms unfolding first_free_def find_Some_iff by auto
  then show "b < unat (sb_size (sb s))" "\<not> block_used s b" "c < b \<Longrightarrow> block_used s c" by simp_all
qed

lemma fs_ok_alloc:
  fixes s t :: "'a fsst_scheme"
  assumes "fs_ok s" "tview t = tview s" "blk t (map_blk s) = set_bit_used (blk s (map_blk s)) b" "b < 4096"
  shows "fs_ok t" "c < 4096 \<Longrightarrow> block_used t c \<longleftrightarrow> block_used s c \<or> c = b"
proof -
  note f = fs_okD [OF assms(1)] and v = fs_view [OF assms(2)] fs_more [OF assms(2)]
  show u: "block_used t c \<longleftrightarrow> block_used s c \<or> c = b" if "c < 4096" for c
    using that assms(4) f(4) by (auto simp: block_used_def v(1) assms(3) bit_used_set)
  show "fs_ok t" unfolding fs_ok_def v assms(3)
  proof (intro conjI allI impI)
    fix c assume "c < unat (sb_size (sb s))" "\<not> block_used t c"
    then show "home_block s (of_nat c)" "of_nat c \<noteq> map_blk s" using u [of c] f(2) f(5) [of c] by auto
  qed (use f in simp_all)
qed

text \<open>
  C11. \<^verbatim>\<open>balloc\<close> hands out the first free block of the file system: it marks that block and no other as used, zeroes it, and changes no third block; when no block
  is free it panics. \<^verbatim>\<open>bfree\<close> of the block makes the free map what it was before, and \<^verbatim>\<open>bfree\<close> of a free block panics.
\<close>

theorem balloc_bfree:
  fixes s :: "'a fsst_scheme"
  assumes "tx_ok s" "fs_ok s" "locked_blocks s = {}" "3 \<le> log_room s"
  shows "case first_free s of
      None \<Rightarrow> balloc 1 s = Panic ''balloc: out of blocks''
    | Some b \<Rightarrow> \<exists>t. balloc 1 s = Ret (of_nat b) t \<and> \<not> block_used s b \<and> (\<forall>c<b. block_used s c) \<and>
        (\<forall>c<4096. block_used t c \<longleftrightarrow> block_used s c \<or> c = b) \<and> blk t (of_nat b) = replicate 512 0 \<and>
        (\<forall>m. m \<noteq> map_blk s \<and> m \<noteq> of_nat b \<longrightarrow> blk t m = blk s m) \<and>
        (\<exists>u. bfree 1 (of_nat b) t = Ret () u \<and> blk u (map_blk s) = blk s (map_blk s)) \<and>
        (\<forall>c<4096. \<not> block_used t c \<longrightarrow> bfree 1 (of_nat c) t = Panic ''freeing free block'')"
proof (cases "first_free s")
  case None
  then show ?thesis using balloc_full [OF assms(1,2)] assms(3,4) by simp
next
  case (Some b)
  note ff = first_free_Some [OF Some] and f = fs_okD [OF assms(2)]
  have b: "b < 4096" using ff(1) f(2) by simp
  obtain t where t: "balloc 1 s = Ret (of_nat b) t" "tx_ok t" "tview t = tview s" "log_room s \<le> log_room t + 2"
    "blk t = (blk s)(map_blk s := set_bit_used (blk s (map_blk s)) b, of_nat b := replicate 512 0)" "locked_blocks t = {}"
    using balloc_Ret [OF assms(1,2) _ _ assms(4) Some] assms(3) by auto
  have ne: "of_nat b \<noteq> map_blk s" using f(5) [OF ff(1,2)] by blast
  have m: "blk t (map_blk s) = set_bit_used (blk s (map_blk s)) b" using t(5) ne by simp
  note ok = fs_ok_alloc [OF assms(2) t(3) m b]
  have mt: "map_blk t = map_blk s" using fs_view [OF t(3)] by simp
  have rm: "0 < log_room t" using t(4) assms(4) by simp
  have fr: "\<not> block_used t c \<Longrightarrow> bfree 1 (of_nat c) t = Panic ''freeing free block''" if "c < 4096" for c
    using bfree_Ret(1) [OF t(2) ok(1) _ _ rm that] t(6) by simp
  have "block_used t b" using ok(2) [OF b] by simp
  then obtain u where u: "bfree 1 (of_nat b) t = Ret () u" "blk u = (blk t)(map_blk t := clear_bit_used (blk t (map_blk t)) b)"
    using bfree_Ret(2) [OF t(2) ok(1) _ _ rm b] t(6) by auto
  have bu: "blk u (map_blk s) = blk s (map_blk s)"
    using u(2) m mt clear_set_bit [of "blk s (map_blk s)" b] ff(2) b f(4) by (simp add: block_used_def)
  have z: "blk t (of_nat b) = replicate 512 0" "\<forall>m. m \<noteq> map_blk s \<and> m \<noteq> of_nat b \<longrightarrow> blk t m = blk s m" using t(5) by simp_all
  show ?thesis unfolding Some option.case
    by (rule exI [of _ t]) (use t(1) z ff ok(2) u(1) bu fr in blast)
qed

section \<open>Inodes on the disk\<close>

lemma get16_bytes16 [simp]: "get16 (bytes16 w @ xs) 0 = w"
proof (rule bit_word_eqI)
  fix n assume "n < LENGTH(16)"
  then show "bit (get16 (bytes16 w @ xs) 0) n = bit w n"
    by (auto simp: get16_def bytes16_def bit_or_iff bit_push_bit_iff bit_ucast_iff bit_drop_bit_eq)
qed

lemma get16_append: "length xs \<le> i \<Longrightarrow> get16 (xs @ ys) i = get16 ys (i - length xs)"
  by (simp add: get16_def nth_append Suc_diff_le)

lemma get32_append: "length xs \<le> i \<Longrightarrow> get32 (xs @ ys) i = get32 ys (i - length xs)"
  by (simp add: get32_def nth_append Suc_diff_le)

lemma get32_bytes32: "get32 (bytes32 w @ xs) 0 = w"
proof -
  have "put32 0 w (replicate 4 0) = bytes32 w" by (simp add: put32_def splice_def bytes32_def)
  then have "get32 (bytes32 w) 0 = w" using get32_put32_same [of 0 "replicate 4 0" w] by simp
  moreover have "get32 (bytes32 w @ xs) 0 = get32 (bytes32 w) 0" by (simp add: get32_def bytes32_def)
  ultimately show ?thesis by simp
qed

lemma length_bytes [simp]: "length (bytes16 w) = 2" "length (bytes32 v) = 4"
  by (simp_all add: bytes16_def bytes32_def)

lemma get32_concat: "k < length as \<Longrightarrow> get32 (concat (map bytes32 as) @ ys) (4 * k) = as ! k"
proof (induction as arbitrary: k)
  case (Cons a as)
  show ?case
  proof (cases k)
    case 0
    then show ?thesis using get32_bytes32 [of a "concat (map bytes32 as) @ ys"] by simp
  next
    case (Suc j)
    have "get32 (bytes32 a @ concat (map bytes32 as) @ ys) (4 * Suc j) = get32 (concat (map bytes32 as) @ ys) (4 * j)"
      by (subst get32_append) simp_all
    then show ?thesis using Cons Suc by simp
  qed
qed simp

lemma length_dinode_bytes: "length (di_addrs x) = 13 \<Longrightarrow> length (dinode_bytes x) = 64"
proof -
  have "length (concat (map bytes32 as)) = 4 * length as" for as by (induction as) simp_all
  then show "length (di_addrs x) = 13 \<Longrightarrow> length (dinode_bytes x) = 64" by (simp add: dinode_bytes_def)
qed

text \<open>What is written at an offset is read back there.\<close>

lemma get_dinode_same:
  assumes "length (di_addrs x) = 13" "off + 64 \<le> length d"
  shows "get_dinode (splice d off (dinode_bytes x)) off = x"
proof -
  let ?r = "drop (off + 64) d"
  have sp: "splice d off (dinode_bytes x) = take off d @ dinode_bytes x @ ?r" using length_dinode_bytes [OF assms(1)] by (simp add: splice_def)
  have lt: "length (take off d) = off" using assms(2) by simp
  let ?D = "splice d off (dinode_bytes x)" and ?B = "dinode_bytes x @ ?r"
  have g16: "get16 ?D (off + k) = get16 ?B k" for k unfolding sp using lt by (subst get16_append) simp_all
  have g32: "get32 ?D (off + k) = get32 ?B k" for k unfolding sp using lt by (subst get32_append) simp_all
  have b: "get16 ?B 0 = di_type x" "get16 ?B 2 = di_major x" "get16 ?B 4 = di_minor x" "get16 ?B 6 = di_nlink x" "get32 ?B 8 = di_size x"
    unfolding dinode_bytes_def append_assoc by (simp_all add: get16_append get32_append get32_bytes32)
  have a: "get32 ?B (12 + 4 * k) = di_addrs x ! k" if "k < 13" for k
    unfolding dinode_bytes_def append_assoc using that assms(1) by (simp add: get32_append get32_concat)
  have "map (\<lambda>k. get32 ?D (off + 12 + 4 * k)) [0..<13] = di_addrs x"
    using assms(1) by (intro nth_equalityI) (simp_all add: add.assoc g32 a)
  then show ?thesis using g16 [of 0] g16 [of 2] g16 [of 4] g16 [of 6] g32 [of 8] b unfolding get_dinode_def
    by (intro dinode.equality) (simp_all only: dinode.simps add_0_right, simp)
qed

lemma get_dinode_other:
  assumes "length xs = 64" "off + 64 \<le> length d" "j + 64 \<le> length d" "j + 64 \<le> off \<or> off + 64 \<le> j"
  shows "get_dinode (splice d off xs) j = get_dinode d j"
proof -
  have n: "splice d off xs ! (j + k) = d ! (j + k)" if "k < 64" for k
    using assms that by (auto simp: nth_splice)
  have g16: "get16 (splice d off xs) (j + k) = get16 d (j + k)" if "k + 2 \<le> 64" for k
    using n [of k] n [of "k + 1"] that by (simp add: get16_def add.assoc)
  have g32: "get32 (splice d off xs) (j + k) = get32 d (j + k)" if "k + 4 \<le> 64" for k
    using n [of k] n [of "k + 1"] n [of "k + 2"] n [of "k + 3"] that by (simp add: get32_def add.assoc)
  have "map (\<lambda>k. get32 (splice d off xs) (j + 12 + 4 * k)) [0..<13] = map (\<lambda>k. get32 d (j + 12 + 4 * k)) [0..<13]"
    by (rule map_cong) (use g32 [of "12 + 4 * k" for k] in \<open>simp_all add: add.assoc\<close>)
  then show ?thesis using g16 [of 0] g16 [of 2] g16 [of 4] g16 [of 6] g32 [of 8] by (simp add: get_dinode_def)
qed

lemma tview_inodes [simp]: "tview (s\<lparr>inodes := x\<rparr>) = (tview s)\<lparr>inodes := x\<rparr>" for s :: "'a fsst_scheme"
  by (simp add: tview_def bview_def)

lemma home_block_inodes [simp]: "home_block (s\<lparr>inodes := x\<rparr>) n = home_block s n" for s :: "'a fsst_scheme"
  by (simp add: home_block_def)

lemma dinode_off_le: "dinode_off i + 64 \<le> 512"
proof -
  have "unat (i mod 8) < 8" by (simp add: unat_mod)
  then show ?thesis by (simp add: dinode_off_def)
qed

lemma iupdate_Ret:
  fixes s :: "'a fsst_scheme" and ip :: nat
  defines "x \<equiv> inodes s ! ip" and "ib \<equiv> IBLOCK (i_inum (inodes s ! ip)) s"
  assumes "tx_ok s" "i_dev x = 1" "home_block s ib" "ib \<notin> locked_blocks s" "card (locked_blocks s) \<le> log_room s" "0 < log_room s"
  shows "\<exists>t. iupdate ip s = Ret () t \<and> tx_ok t \<and> tview t = tview s \<and> log_room s \<le> log_room t + 1 \<and>
    blk t = (blk s)(ib := splice (blk s ib) (dinode_off (i_inum x)) (dinode_bytes (to_dinode x))) \<and>
    disk t 1 = disk s 1 \<and> locked_blocks t = locked_blocks s \<and> (\<forall>m c. m \<noteq> ib \<longrightarrow> holds_buf s m c \<longrightarrow> holds_buf t m c)"
proof -
  let ?f = "\<lambda>d. splice d (dinode_off (i_inum x)) (dinode_bytes (to_dinode x))" and ?ib = "ib"
  obtain b t where t: "bread 1 ?ib s = Ret b t" "tview t = tview s"
    using lc.tx_read [OF assms(3) lc.home(1) [OF assms(5)] assms(6,7)] by blast
  have eq: "iupdate ip s = kbind (bread 1 ?ib s) (\<lambda>b s. kbind (log_write b (bput b (?f (b_data (bufs s ! b))) s)) (\<lambda>_ s. brelse b s))"
    using t(1) fs_more(2) [OF t(2)] assms(4) by (simp add: iupdate_def Let_def x_def ib_def)
  show ?thesis unfolding eq using lc.tx_update [OF assms(3,5-8), of ?f] by blast
qed

lemma ilock_load_Ret:
  fixes s :: "'a fsst_scheme" and ip :: nat
  defines "x \<equiv> inodes s ! ip" and "ib \<equiv> IBLOCK (i_inum (inodes s ! ip)) s"
    and "y \<equiv> load_dinode (get_dinode (blk s (IBLOCK (i_inum (inodes s ! ip)) s)) (dinode_off (i_inum (inodes s ! ip)))) (inodes s ! ip)"
  assumes "tx_ok s" "\<not> i_valid x" "ip < length (inodes s)" "i_dev x = 1" "ib < 1000" "ib \<notin> locked_blocks s"
    "card (locked_blocks s) \<le> log_room s"
  shows "i_type y = 0 \<Longrightarrow> ilock_load ip s = Panic ''ilock: no type''"
    "i_type y \<noteq> 0 \<Longrightarrow> \<exists>t. ilock_load ip s = Ret () t \<and> tx_ok t \<and>
      tview t = (tview s)\<lparr>inodes := (inodes s)[ip := y\<lparr>i_valid := True\<rparr>]\<rparr> \<and> log_room t = log_room s \<and> blk t = blk s \<and>
      disk t 1 = disk s 1 \<and> locked_blocks t = locked_blocks s \<and> (\<forall>m c. m \<noteq> ib \<longrightarrow> holds_buf s m c \<longrightarrow> holds_buf t m c)"
proof -
  let ?ib = "ib" and ?y = "y"
  obtain b t where t: "bread 1 ?ib s = Ret b t" "tx_ok t" "tview t = tview s" "log_room t = log_room s" "holds_buf t ?ib b"
    "b_data (bufs t ! b) = blk s ?ib" "blk t = blk s" "disk t 1 = disk s 1" "locked_blocks t = insert ?ib (locked_blocks s)"
    "dirty_blocks t = dirty_blocks s" "\<forall>m c. holds_buf s m c \<longrightarrow> holds_buf t m c" "?ib \<in> dirty_blocks t \<or> blk t ?ib = disk t 1 ?ib"
    using lc.tx_read [OF assms(4,8-10)] by blast
  note m = fs_more [OF t(3)]
  let ?t = "t\<lparr>inodes := (inodes s)[ip := ?y]\<rparr>"
  have u: "tx_ok ?t" "holds_buf ?t ?ib b" "?ib \<in> dirty_blocks ?t \<or> blk ?t ?ib = disk ?t 1 ?ib" using t by simp_all
  obtain v where v: "brelse b ?t = Ret () v" "tx_ok v" "tview v = tview ?t" "log_room v = log_room ?t" "blk v = blk ?t" "disk v 1 = disk ?t 1"
    "locked_blocks v = locked_blocks ?t - {?ib}" "\<forall>m c. m \<noteq> ?ib \<longrightarrow> holds_buf v m c = holds_buf ?t m c"
    using lc.tx_release [OF u] by blast
  have vi: "inodes v = (inodes s)[ip := ?y]" using fs_more(2) [OF v(3)] by simp
  let ?w = "v\<lparr>inodes := (inodes s)[ip := ?y\<lparr>i_valid := True\<rparr>]\<rparr>"
  have run: "ilock_load ip s = (if i_type ?y = 0 then Panic ''ilock: no type'' else Ret () ?w)"
    using assms(5-7) t(1,6) m v(1) vi by (simp add: ilock_load_def Let_def updi_def x_def ib_def y_def)
  then show "i_type ?y = 0 \<Longrightarrow> ilock_load ip s = Panic ''ilock: no type''" by simp
  have "tx_ok ?w \<and> tview ?w = (tview s)\<lparr>inodes := (inodes s)[ip := ?y\<lparr>i_valid := True\<rparr>]\<rparr> \<and> log_room ?w = log_room s \<and> blk ?w = blk s \<and>
      disk ?w 1 = disk s 1 \<and> locked_blocks ?w = locked_blocks s \<and> (\<forall>m c. m \<noteq> ?ib \<longrightarrow> holds_buf s m c \<longrightarrow> holds_buf ?w m c)"
    using v t assms(9) by auto
  then show "i_type ?y \<noteq> 0 \<Longrightarrow> \<exists>t. ilock_load ip s = Ret () t \<and> tx_ok t \<and>
      tview t = (tview s)\<lparr>inodes := (inodes s)[ip := ?y\<lparr>i_valid := True\<rparr>]\<rparr> \<and> log_room t = log_room s \<and> blk t = blk s \<and>
      disk t 1 = disk s 1 \<and> locked_blocks t = locked_blocks s \<and> (\<forall>m c. m \<noteq> ?ib \<longrightarrow> holds_buf s m c \<longrightarrow> holds_buf t m c)"
    using run by auto
qed

text \<open>
  C26. What \<^verbatim>\<open>iupdate\<close> writes for an inode is what \<^verbatim>\<open>ilock\<close> later reads: after an update, loading the inode into its invalidated entry, whatever that entry held,
  gives back the type, device numbers, link count, size and all block addresses. The seven other inodes of the block and all other blocks are unchanged.
\<close>

theorem inode_roundtrip:
  fixes s :: "'a fsst_scheme" and ip :: nat
  defines "x \<equiv> inodes s ! ip" and "ib \<equiv> IBLOCK (i_inum (inodes s ! ip)) s"
  assumes "tx_ok s" "locked_blocks s = {}" "0 < log_room s" "ip < length (inodes s)" "i_dev x = 1" "home_block s ib" "length (blk s ib) = 512"
    "length (i_addrs x) = 13" "i_type x \<noteq> 0"
  shows "\<exists>t. iupdate ip s = Ret () t \<and> inodes t = inodes s \<and> (\<forall>m. m \<noteq> ib \<longrightarrow> blk t m = blk s m) \<and>
    (\<forall>j<8. 64 * j \<noteq> dinode_off (i_inum x) \<longrightarrow> get_dinode (blk t ib) (64 * j) = get_dinode (blk s ib) (64 * j)) \<and>
    (\<forall>y. \<not> i_valid y \<and> i_dev y = i_dev x \<and> i_inum y = i_inum x \<longrightarrow>
      (\<exists>u. ilock_load ip (updi ip (\<lambda>_. y) t) = Ret () u \<and> inodes u = (inodes s)[ip := x\<lparr>i_ref := i_ref y, i_valid := True\<rparr>]))"
proof -
  let ?off = "dinode_off (i_inum x)"
  let ?d = "splice (blk s ib) ?off (dinode_bytes (to_dinode x))"
  obtain t where t: "iupdate ip s = Ret () t" "tx_ok t" "tview t = tview s" "blk t = (blk s)(ib := ?d)" "locked_blocks t = {}"
    using iupdate_Ret [of s ip] assms by auto
  note m = fs_more [OF t(3)]
  have l: "length (di_addrs (to_dinode x)) = 13" using assms(10) by (simp add: to_dinode_def)
  have off: "?off + 64 \<le> length (blk s ib)" using dinode_off_le assms(9) by simp
  have same: "get_dinode ?d ?off = to_dinode x" by (rule get_dinode_same [OF l off])
  have other: "get_dinode ?d (64 * j) = get_dinode (blk s ib) (64 * j)" if "j < 8" "64 * j \<noteq> ?off" for j
  proof (rule get_dinode_other [OF length_dinode_bytes [OF l] off])
    show "64 * j + 64 \<le> length (blk s ib)" using that(1) assms(9) by simp
    obtain k where k: "?off = 64 * k" by (simp add: dinode_off_def)
    show "64 * j + 64 \<le> ?off \<or> ?off + 64 \<le> 64 * j" using that(2) unfolding k by simp arith
  qed
  have load: "\<exists>u. ilock_load ip (updi ip (\<lambda>_. y) t) = Ret () u \<and> inodes u = (inodes s)[ip := x\<lparr>i_ref := i_ref y, i_valid := True\<rparr>]"
    if y: "\<not> i_valid y" "i_dev y = i_dev x" "i_inum y = i_inum x" for y
  proof -
    let ?t = "updi ip (\<lambda>_. y) t"
    have it: "inodes ?t ! ip = y" "length (inodes ?t) = length (inodes s)" "ip < length (inodes ?t)" using assms(6) m by (simp_all add: updi_def)
    have ib: "IBLOCK (i_inum y) ?t = ib" using y(3) m it(1) by (simp add: ib_def x_def IBLOCK_def updi_def)
    have p: "tx_ok ?t" "locked_blocks ?t = {}" "blk ?t ib = ?d" "ib < 1000" using t assms(8) by (simp_all add: updi_def home_block_def)
    have same': "get_dinode ?d (dinode_off (i_inum y)) = to_dinode x" using same y(3) by simp
    have ld: "load_dinode (get_dinode (blk ?t ib) (dinode_off (i_inum y))) y = x\<lparr>i_ref := i_ref y, i_valid := False\<rparr>"
      unfolding p(3) same' using y(1-3) by (intro inode.equality) (simp_all add: load_dinode_def to_dinode_def)
    have ty: "i_type (load_dinode (get_dinode (blk ?t ib) (dinode_off (i_inum y))) y) \<noteq> 0" unfolding ld using assms(11) by simp
    obtain u where u: "ilock_load ip ?t = Ret () u" "tview u = (tview ?t)\<lparr>inodes := (inodes ?t)[ip := (x\<lparr>i_ref := i_ref y, i_valid := False\<rparr>)\<lparr>i_valid := True\<rparr>]\<rparr>"
      using ilock_load_Ret(2) [of ?t ip, unfolded it(1) ib ld] p(1,2,4) it(3) y(1,2) assms(7,11) by auto
    have "tview u = tview (?t\<lparr>inodes := (inodes ?t)[ip := (x\<lparr>i_ref := i_ref y, i_valid := False\<rparr>)\<lparr>i_valid := True\<rparr>]\<rparr>)"
      using u(2) by simp
    from fs_more(2) [OF this] have "inodes u = (inodes s)[ip := x\<lparr>i_ref := i_ref y, i_valid := True\<rparr>]" using m by (simp add: updi_def)
    then show ?thesis using u(1) by blast
  qed
  show ?thesis
  proof (rule exI [of _ t], intro conjI)
    show "\<forall>m. m \<noteq> ib \<longrightarrow> blk t m = blk s m" using t(4) by simp
    show "\<forall>j<8. 64 * j \<noteq> ?off \<longrightarrow> get_dinode (blk t ib) (64 * j) = get_dinode (blk s ib) (64 * j)" using other t(4) by simp
  qed (use t(1) m load in auto)
qed

section \<open>The contents of a file\<close>

text \<open>The block with number \<open>k\<close> of an inode, and the contents of a file as its blocks one after another.\<close>

definition data_block :: "inode \<Rightarrow> (u32 \<Rightarrow> u8 list) \<Rightarrow> nat \<Rightarrow> u32" where
  "data_block x f k = (if k < NDIRECT then i_addrs x ! k else get32 (f (i_addrs x ! NDIRECT)) (4 * (k - NDIRECT)))"

definition file_blocks :: "inode \<Rightarrow> nat" where
  "file_blocks x = (unat (i_size x) + 511) div 512"

definition contents :: "inode \<Rightarrow> (u32 \<Rightarrow> u8 list) \<Rightarrow> u8 list" where
  "contents x f = concat (map (\<lambda>k. f (data_block x f k)) [0..<file_blocks x])"

definition good_block :: "u32 \<Rightarrow> bool" where
  "good_block a \<longleftrightarrow> a \<noteq> 0 \<and> a < 1000"

definition file_ok :: "inode \<Rightarrow> (u32 \<Rightarrow> u8 list) \<Rightarrow> bool" where
  "file_ok x f \<longleftrightarrow> i_dev x = 1 \<and> unat (i_size x) \<le> 71680 \<and> (NDIRECT < file_blocks x \<longrightarrow> good_block (i_addrs x ! NDIRECT)) \<and>
     (\<forall>k < file_blocks x. good_block (data_block x f k) \<and> length (f (data_block x f k)) = 512)"

definition idle :: "'a fsst_scheme \<Rightarrow> bool" where
  "idle s \<longleftrightarrow> bio_ok s \<and> locked_blocks s = {} \<and> card (dirty_blocks s) < 30"

lemma bview_inodes: "bview t = bview s \<Longrightarrow> inodes t = inodes (s :: 'a fsst_scheme) \<and> sb t = sb s"
  using fs_more [OF tview_bview] by blast

lemma bmap_Ret:
  fixes s :: "'a fsst_scheme" and ip :: nat
  defines "x \<equiv> inodes s ! ip"
  assumes "idle s" "file_ok x (blk s)" "unat bn < file_blocks x"
  shows "\<exists>t. bmap ip bn s = Ret (data_block x (blk s) (unat bn)) t \<and> idle t \<and> bview t = bview s \<and> blk t = blk s"
proof (cases "unat bn < NDIRECT")
  case True
  then show ?thesis using assms(2-4) by (auto simp: bmap_def Let_def x_def [symmetric] data_block_def file_ok_def good_block_def)
next
  case False
  let ?a = "i_addrs x ! NDIRECT"
  have a: "?a \<noteq> 0" "?a < 1000" "i_dev x = 1" "data_block x (blk s) (unat bn) \<noteq> 0" "unat bn - NDIRECT < NINDIRECT"
    using False assms(3,4) by (auto simp: file_ok_def good_block_def file_blocks_def)
  obtain b t u where t: "bread 1 ?a s = Ret b t" "b_data (bufs t ! b) = blk s ?a" "brelse b t = Ret () u" "bio_ok u" "bview u = bview s"
    "blk u = blk s" "locked_blocks u = locked_blocks s" "dirty_blocks u = dirty_blocks s"
    using bc.peek_block [of s ?a] assms(2) a(2) by (auto simp: idle_def)
  have d: "get32 (blk s ?a) (4 * (unat bn - NDIRECT)) = data_block x (blk s) (unat bn)" using False by (simp add: data_block_def)
  have "idle u" using assms(2) t by (simp add: idle_def)
  moreover have "bmap ip bn s = Ret (data_block x (blk s) (unat bn)) u"
    using False a t(1,3) by (simp add: bmap_def Let_def x_def [symmetric] t(2) d)
  ultimately show ?thesis using t(5,6) by blast
qed

lemma length_concat_blocks:
  assumes "\<forall>k<N. length (f k) = (512 :: nat)"
  shows "length (concat (map f [0..<N])) = 512 * N"
  using assms by (induction N) auto

lemma take_drop_concat:
  assumes "\<forall>k<N. length (f k) = (512 :: nat)" "q < N" "r + m \<le> 512"
  shows "take m (drop (512 * q + r) (concat (map f [0..<N]))) = take m (drop r (f q))"
proof -
  have l: "length (concat (map f [0..<q])) = 512 * q" using length_concat_blocks [of q f] assms(1,2) by simp
  have "[0..<N] = [0..<q] @ q # [Suc q..<N]" using upt_add_eq_append [of 0 q "N - q"] upt_conv_Cons [of q N] assms(2) by simp
  then have "concat (map f [0..<N]) = concat (map f [0..<q]) @ f q @ concat (map f [Suc q..<N])" by simp
  then show ?thesis using assms l by simp
qed

lemma readi_loop_Ret:
  fixes s :: "'a fsst_scheme"
  assumes "idle s" "file_ok (inodes s ! ip) (blk s)" "unat off + k \<le> unat (i_size (inodes s ! ip))"
  shows "\<exists>t. readi_loop ip off k s = Ret (take k (drop (unat off) (contents (inodes s ! ip) (blk s)))) t \<and> idle t \<and> bview t = bview s \<and> blk t = blk s"
  using assms
proof (induction ip off k s rule: readi_loop.induct)
  case (1 ip off k s)
  let ?x = "inodes s ! ip" and ?C = "contents (inodes s ! ip) (blk s)"
  show ?case
  proof (cases "k = 0")
    case True
    then show ?thesis using 1(2) by (simp add: readi_loop.simps)
  next
    case False
    let ?m = "chunk k off" and ?q = "unat off div 512" and ?r = "unat off mod 512"
    have q: "unat (off div 512) = ?q" "unat (off mod 512) = ?r" by (simp_all add: unat_div unat_mod)
    have m: "0 < ?m" "?m \<le> k" "?r + ?m \<le> 512" using False by (simp_all add: chunk_def q)
    have qN: "?q < file_blocks ?x" using 1(4) False unfolding file_blocks_def by linarith
    let ?a = "data_block ?x (blk s) ?q"
    have fo: "good_block ?a" "i_dev ?x = 1" "unat (i_size ?x) \<le> 71680" "\<forall>j<file_blocks ?x. length (blk s (data_block ?x (blk s) j)) = 512"
      using 1(3) qN by (auto simp: file_ok_def)
    obtain t where t: "bmap ip (off div 512) s = Ret ?a t" "idle t" "bview t = bview s" "blk t = blk s"
      using bmap_Ret [OF 1(2,3), of "off div 512"] qN q by auto
    have a: "?a < 1000" using fo(1) by (simp add: good_block_def)
    obtain b v u where v: "bread 1 ?a t = Ret b v" "b_data (bufs v ! b) = blk t ?a" "brelse b v = Ret () u" "bio_ok u" "bview u = bview t"
      "blk u = blk t" "locked_blocks u = locked_blocks t" "dirty_blocks u = dirty_blocks t"
      using bc.peek_block [of t ?a] t(2) a by (auto simp: idle_def)
    have iu: "inodes t = inodes s" "inodes u = inodes s" using bview_inodes [of t s] bview_inodes [of u t] t(3) v(5) by simp_all
    have u: "idle u" using t(2) v by (simp add: idle_def)
    have off: "unat (off + of_nat ?m) = unat off + ?m"
    proof -
      have "unat (of_nat ?m :: u32) = ?m" using m(3) by (simp add: unsigned_of_nat take_bit_nat_eq_self)
      moreover have "unat off + ?m < 4294967296" using 1(4) fo(3) m(2) by linarith
      ultimately show ?thesis by (simp add: unat_word_ariths)
    qed
    have le: "unat (off + of_nat ?m) + (k - ?m) \<le> unat (i_size ?x)" unfolding off using 1(4) m(2) by linarith
    have br: "bread (i_dev (inodes t ! ip)) ?a t = Ret b v" using v(1) iu(1) fo(2) by simp
    have "\<exists>w. readi_loop ip (off + of_nat ?m) (k - ?m) u = Ret (take (k - ?m) (drop (unat (off + of_nat ?m)) (contents (inodes u ! ip) (blk u)))) w \<and>
        idle w \<and> bview w = bview u \<and> blk w = blk u"
      by (rule 1(1) [OF False t(1) br refl refl v(3) u]) (use 1(3) le iu v(6) t(4) in simp_all)
    then obtain w where w: "readi_loop ip (off + of_nat ?m) (k - ?m) u = Ret (take (k - ?m) (drop (unat off + ?m) ?C)) w" "idle w" "bview w = bview u" "blk w = blk u"
      unfolding off iu v(6) t(4) by blast
    have "take ?m (drop ?r (blk s ?a)) = take ?m (drop (unat off) ?C)"
      using take_drop_concat [of "file_blocks ?x" "\<lambda>j. blk s (data_block ?x (blk s) j)" ?q ?r ?m] fo(4) qN m(3) by (simp add: contents_def)
    then have "take ?m (drop ?r (blk s ?a)) @ take (k - ?m) (drop (unat off + ?m) ?C) = take k (drop (unat off) ?C)"
      using m(2) take_add [of ?m "k - ?m" "drop (unat off) ?C"] by (simp add: add.commute)
    then have "readi_loop ip off k s = Ret (take k (drop (unat off) ?C)) w"
      using False t(1) v(1,3) w(1) fo(2) by (simp add: readi_loop.simps [of ip off k s] Let_def iu q v(2) t(4))
    then show ?thesis using w t v by auto
  qed
qed

text \<open>
  C20. Reading a file (\<^verbatim>\<open>readi\<close>) gives the bytes of its contents from the offset on, as many as were asked for and there are, whatever blocks
  and indirect block hold them, and changes nothing visible: the reference is the concatenation of the blocks of the file. An offset behind the end of the file, or one whose sum with the count overflows, gives -1.
\<close>

theorem readi_contents:
  fixes s :: "'a fsst_scheme" and ip :: nat
  defines "x \<equiv> inodes s ! ip"
  assumes "idle s" "file_ok x (blk s)"
  shows "\<exists>t. readi_data ip off n s =
      (if i_size x < off \<or> off + n < off then Ret (-1, []) s
       else Ret (let xs = take (unat n) (drop (unat off) (take (unat (i_size x)) (contents x (blk s)))) in (int (length xs), xs)) t) \<and>
     bview t = bview s \<and> blk t = blk s"
proof (cases "i_size x < off \<or> off + n < off")
  case True
  then show ?thesis by (intro exI [of _ s]) (auto simp: readi_data_def Let_def x_def)
next
  case False
  let ?k = "if off + n > i_size x then i_size x - off else n"
  have "unat n < 2 ^ LENGTH(32)" by (rule unsigned_less)
  moreover have "(2 :: nat) ^ LENGTH(32) = 4294967296" by simp
  ultimately have "\<not> (4294967296 \<le> unat off + unat n \<and> unat off \<le> unat off + unat n - 4294967296)" by linarith
  note un = this [unfolded de_Morgan_conj]
  have le: "unat off \<le> unat (i_size x)" "unat (off + n) = unat off + unat n" "unat (i_size x - off) = unat (i_size x) - unat off"
    using False un by (auto simp: not_less word_le_nat_alt unat_plus_if' unat_sub split: if_splits)
  have k: "unat ?k = min (unat n) (unat (i_size x) - unat off)"
    using le by (auto simp: word_less_nat_alt)
  have sz: "unat (i_size x) \<le> 71680" "\<forall>j<file_blocks x. length (blk s (data_block x (blk s) j)) = 512" using assms(3) by (auto simp: file_ok_def)
  have lc: "length (contents x (blk s)) = 512 * file_blocks x"
    unfolding contents_def by (rule length_concat_blocks [OF sz(2)])
  have fs: "unat (i_size x) \<le> 512 * file_blocks x" unfolding file_blocks_def by linarith
  have "unat off + unat ?k \<le> unat (i_size x)" using k le(1) by simp
  then obtain t where t: "readi_loop ip off (unat ?k) s = Ret (take (unat ?k) (drop (unat off) (contents x (blk s)))) t" "bview t = bview s" "blk t = blk s"
    using readi_loop_Ret [OF assms(2), of ip off "unat ?k"] assms(3) unfolding x_def [symmetric] by blast
  let ?xs = "take (unat n) (drop (unat off) (take (unat (i_size x)) (contents x (blk s))))"
  have xs: "take (unat ?k) (drop (unat off) (contents x (blk s))) = ?xs"
    unfolding k by (simp add: drop_take min.commute)
  have "length ?xs = unat ?k" unfolding k using lc fs le(1) by simp
  moreover have "sint ?k = int (unat ?k)" using sint_small [of ?k] k sz(1) by simp
  ultimately have "readi_data ip off n s = Ret (int (length ?xs), ?xs) t"
    using False t(1) unfolding xs by (simp add: readi_data_def Let_def x_def [symmetric])
  then show ?thesis using False t by (auto simp: Let_def)
qed

section \<open>Paths\<close>

text \<open>The elements of a path: the nonempty strings between its slashes, each cut to the size of a directory name.\<close>

fun comps :: "u8 list \<Rightarrow> u8 list list" where
  "comps [] = [[]]"
| "comps (c # cs) = (if c = slash then [] # comps cs else (case comps cs of [] \<Rightarrow> [[c]] | e # es \<Rightarrow> (c # e) # es))"

definition path_elems :: "u8 list \<Rightarrow> u8 list list" where
  "path_elems path = map (take DIRSIZ) (filter (\<lambda>e. e \<noteq> []) (comps path))"

lemma path_elems_slash [simp]: "path_elems [] = []" "path_elems (slash # p) = path_elems p"
  by (simp_all add: path_elems_def)

lemma path_elems_strip [simp]: "path_elems (dropWhile (\<lambda>c. c = slash) p) = path_elems p"
  by (induction p) auto

lemma comps_takeWhile: "comps p = takeWhile (\<lambda>c. c \<noteq> slash) p #
    (case dropWhile (\<lambda>c. c \<noteq> slash) p of [] \<Rightarrow> [] | c # cs \<Rightarrow> comps cs)"
  by (induction p) auto

lemma path_elems_split:
  assumes "p \<noteq> []" "hd p \<noteq> slash"
  shows "path_elems p = take DIRSIZ (takeWhile (\<lambda>c. c \<noteq> slash) p) # path_elems (dropWhile (\<lambda>c. c \<noteq> slash) p)"
proof -
  have "takeWhile (\<lambda>c. c \<noteq> slash) p \<noteq> []" using assms by (cases p) auto
  moreover have "dropWhile (\<lambda>c. c \<noteq> slash) p = [] \<or> (\<exists>cs. dropWhile (\<lambda>c. c \<noteq> slash) p = slash # cs)"
    using hd_dropWhile [of "\<lambda>c. c \<noteq> slash" p] by (cases "dropWhile (\<lambda>c. c \<noteq> slash) p") auto
  ultimately show ?thesis
    by (subst path_elems_def, subst comps_takeWhile) (elim disjE exE, simp_all add: path_elems_def del: dropWhile_eq_Nil_conv)
qed

lemma skipelem_elems:
  "(case skipelem p of None \<Rightarrow> path_elems p = []
    | Some (n, r) \<Rightarrow> path_elems p = n # path_elems r \<and> (r = [] \<longleftrightarrow> path_elems r = []))"
proof -
  let ?q = "dropWhile (\<lambda>c. c = slash) p"
  have e: "path_elems q = [] \<longleftrightarrow> q = []" if "q \<noteq> [] \<Longrightarrow> hd q \<noteq> slash" for q
    using path_elems_split [of q] that by (cases "q = []") auto
  have h: "hd (dropWhile (\<lambda>c. c = slash) q) \<noteq> slash" if "dropWhile (\<lambda>c. c = slash) q \<noteq> []" for q
    using hd_dropWhile [OF that] by simp
  show ?thesis
  proof (cases "?q = []")
    case True
    then have "path_elems p = []" by (metis path_elems_strip path_elems_slash(1))
    then show ?thesis using True by (simp add: skipelem_def del: dropWhile_eq_Nil_conv)
  next
    case False
    have "path_elems p = take DIRSIZ (takeWhile (\<lambda>c. c \<noteq> slash) ?q) # path_elems (dropWhile (\<lambda>c. c \<noteq> slash) ?q)"
      using path_elems_split [OF False h [OF False]] by simp
    then show ?thesis using False e [OF h, of "dropWhile (\<lambda>c. c \<noteq> slash) ?q"] by (simp add: skipelem_def Let_def)
  qed
qed

text \<open>The walk along a list of elements that \<open>namex\<close> is to implement.\<close>

fun walk :: "bool \<Rightarrow> nat \<Rightarrow> u8 list list \<Rightarrow> u8 list \<Rightarrow> 'a fsst_scheme \<Rightarrow> (nat option \<times> u8 list, 'a fsst_scheme) res" where
  "walk np ip [] name s = (if np then kbind (iput ip s) (\<lambda>_ s. Ret (None, name) s) else Ret (Some ip, name) s)"
| "walk np ip (e # es) name s =
     kbind (ilock (Some ip) s) (\<lambda>_ s.
       if i_type (inodes s ! ip) \<noteq> T_DIR then kbind (iunlockput ip s) (\<lambda>_ s. Ret (None, e) s)
       else if np \<and> es = [] then kbind (iunlock (Some ip) s) (\<lambda>_ s. Ret (Some ip, e) s)
       else kbind (dirlookup ip e s) (\<lambda>next s. kbind (iunlockput ip s) (\<lambda>_ s.
              case next of None \<Rightarrow> Ret (None, e) s | Some (next, _) \<Rightarrow> walk np next es e s)))"

lemma namex_loop_walk: "namex_loop np ip path name s = walk np ip (path_elems path) name s"
proof (induction np ip path name s rule: namex_loop.induct)
  case (1 np ip path name s)
  show ?case
  proof (cases "skipelem path")
    case None
    then show ?thesis using skipelem_elems [of path] by (simp add: namex_loop.simps)
  next
    case (Some x)
    obtain n r where x: "x = (n, r)" by (cases x)
    have e: "path_elems path = n # path_elems r" "r = [] \<longleftrightarrow> path_elems r = []"
      using skipelem_elems [of path] Some x by simp_all
    note IH = 1 [OF Some [unfolded x] refl]
    show ?thesis
      unfolding e(1) walk.simps namex_loop.simps [of np ip path] Some x option.case prod.case e(2) [symmetric] 
      by (intro kbind_cong refl if_cong) (auto split: option.split intro: IH)
  qed
qed

text \<open>
  C27. Path resolution takes a path apart as it should: whatever slashes lead, repeat or trail, \<^verbatim>\<open>namex\<close> walks along exactly the nonempty elements of the path,
  each cut to 14 bytes, from the root for a path with a leading slash and from the current directory otherwise. The loop over the path ends for every path.
\<close>

theorem namex_walk:
  "namex path np s =
     kbind (if path \<noteq> [] \<and> hd path = slash then iget ROOTDEV ROOTINO s
            else case cpu_proc s of
                   None \<Rightarrow> Fault ''namex: null process''
                 | Some i \<Rightarrow> (case p_cwd (procs s ! i) of None \<Rightarrow> Fault ''namex: null cwd'' | Some ip \<Rightarrow> idup ip s)) (\<lambda>ip s.
       walk np ip (path_elems path) [] s)"
  by (simp add: namex_def namex_loop_walk)

section \<open>An example\<close>

text \<open>
  A file system of 200 blocks in the middle of an operation. Its map, in block 36, has 42 blocks in use; the first entry of the
  inode table holds a file of 600 bytes in the blocks 40 and 41.
\<close>

definition fs_disk_ex :: "u32 \<Rightarrow> u8 list" where
  "fs_disk_ex n = (if n = 36 then replicate 5 255 @ 3 # replicate 506 0 else if n = 40 then replicate 512 7 else replicate 512 0)"

definition inode_ex :: inode where
  "inode_ex = \<lparr>i_dev = 1, i_inum = 2, i_ref = 1, i_valid = True, i_type = 2, i_major = 0, i_minor = 0, i_nlink = 1, i_size = 600,
     i_addrs = 40 # 41 # replicate 11 0\<rparr>"

definition fsst_ex :: fsst where
  "fsst_ex = lgst.extend (lgst_of fs_disk_ex) (fsst.fields
     \<lparr>sb_size = 200, sb_nblocks = 140, sb_ninodes = 24, sb_nlog = 30, sb_logstart = 2, sb_inodestart = 32, sb_bmapstart = 36\<rparr>
     (inode_ex # replicate 49 (inode_ex\<lparr>i_dev := 0, i_inum := 0, i_ref := 0, i_valid := False, i_type := 0, i_nlink := 0\<rparr>)))"

lemma fsst_ex_ok: "tx_ok fsst_ex" "locked_blocks fsst_ex = {}" "log_room fsst_ex = 29" "blk fsst_ex = fs_disk_ex"
  "log_area fsst_ex = log_area (lgst_of fs_disk_ex)" "inodes fsst_ex ! 0 = inode_ex" "length (inodes fsst_ex) = 50"
  "sb_size (sb fsst_ex) = 200" "sb_bmapstart (sb fsst_ex) = 36" "sb_inodestart (sb fsst_ex) = 32" "dirty_blocks fsst_ex = {}"
proof -
  let ?s = "lgst_of fs_disk_ex"
  note e = fsst_ex_def lgst.defs fsst.defs
  have f: "procs fsst_ex = procs ?s" "cpu_proc fsst_ex = cpu_proc ?s" "held fsst_ex = held ?s" "bufs fsst_ex = bufs ?s" "nextpid fsst_ex = nextpid ?s"
    "idequeue fsst_ex = idequeue ?s" "havedisk1 fsst_ex = havedisk1 ?s" "ide_errs fsst_ex = ide_errs ?s" "dwrites fsst_ex = dwrites ?s" "fssize fsst_ex = fssize ?s"
    "disk fsst_ex = disk ?s" "slocks fsst_ex = slocks ?s" "lg_start fsst_ex = lg_start ?s" "lg_size fsst_ex = lg_size ?s" "lg_outstanding fsst_ex = lg_outstanding ?s"
    "lg_dev fsst_ex = lg_dev ?s" "lh_n fsst_ex = lh_n ?s" "lh_block fsst_ex = lh_block ?s" by (simp_all add: e)
  show "inodes fsst_ex ! 0 = inode_ex" "length (inodes fsst_ex) = 50"
    "sb_size (sb fsst_ex) = 200" "sb_bmapstart (sb fsst_ex) = 36" "sb_inodestart (sb fsst_ex) = 32" by (simp_all add: e)
  have "bio_ok fsst_ex = bio_ok ?s" by (simp add: bio_ok_def ptab_ok_def fs_quiet_def mypid_def f)
  moreover show b: "blk fsst_ex = fs_disk_ex"
    using lgst_of_ok(11) [of fs_disk_ex] by (simp add: blk_def fun_eq_iff f cong: option.case_cong)
  moreover show "dirty_blocks fsst_ex = {}" using lgst_of_ok(4) [of fs_disk_ex] by (simp add: dirty_blocks_def f)
  moreover show a: "log_area fsst_ex = log_area (lgst_of fs_disk_ex)" by (simp add: log_area_def log_blk_def f)
  moreover have "geom_ok fsst_ex" using lgst_of_ok(2) [of fs_disk_ex] by (simp add: geom_ok_def f)
  ultimately show "tx_ok fsst_ex" using lgst_of_ok [of fs_disk_ex] by (simp add: tx_ok_def f entries_ok_def)
  show "locked_blocks fsst_ex = {}" using lgst_of_ok(3) [of fs_disk_ex] by (simp add: locked_blocks_def f)
  show "log_room fsst_ex = 29" using lgst_of_ok [of fs_disk_ex] by (simp add: log_room_def f)
qed


lemma fs_disk_ex_len: "length (fs_disk_ex n) = 512"
  by (simp add: fs_disk_ex_def)

lemma fs_map_ex: "list_all (bit_used (replicate 5 255 @ 3 # replicate 506 0)) [0..<42]"
  "find (\<lambda>b. \<not> bit_used (replicate 5 255 @ 3 # replicate 506 0) b) [0..<200] = Some 42"
  by code_simp+

lemma home_ex: "32 \<le> unat n \<Longrightarrow> unat n < 1000 \<Longrightarrow> home_block fsst_ex n"
  using log_area_of [of n fs_disk_ex] by (auto simp: home_block_def fsst_ex_ok word_less_nat_alt)

lemma fs_ok_ex: "fs_ok fsst_ex" "first_free fsst_ex = Some 42"
proof -
  have h: "home_block fsst_ex (of_nat b) \<and> of_nat b \<noteq> (36 :: u32)" if b: "b < 200" "\<not> block_used fsst_ex b" for b
  proof -
    have "42 \<le> b"
    proof (rule ccontr)
      assume "\<not> 42 \<le> b"
      then have "b \<in> set [0..<42]" by simp
      then show False using fs_map_ex(1) b(2) by (simp only: list_all_iff block_used_def map_blk_def fsst_ex_ok fs_disk_ex_def simp_thms if_True)
    qed
    moreover have u: "unat (of_nat b :: u32) = b" using b(1) by (simp add: unsigned_of_nat take_bit_nat_eq_self)
    ultimately show ?thesis using home_ex [of "of_nat b"] b(1) by force
  qed
  then show "fs_ok fsst_ex" using home_ex [of 36] by (simp add: fs_ok_def map_blk_def fsst_ex_ok fs_disk_ex_len)
  show "first_free fsst_ex = Some 42"
    using fs_map_ex(2) by (simp only: first_free_def block_used_def map_blk_def fsst_ex_ok fs_disk_ex_def simp_thms if_True) simp
qed

theorem balloc_bfree_witness:
  "\<exists>t u. balloc 1 fsst_ex = Ret 42 t \<and> block_used t 42 \<and> bfree 1 42 t = Ret () u \<and> blk u 36 = blk fsst_ex 36"
  using balloc_bfree [of fsst_ex] fsst_ex_ok fs_ok_ex by (auto simp: map_blk_def)

theorem inode_roundtrip_witness:
  "\<exists>t u. iupdate 0 fsst_ex = Ret () t \<and> ilock_load 0 (updi 0 (\<lambda>_. inode_ex\<lparr>i_valid := False, i_nlink := 7\<rparr>) t) = Ret () u \<and> i_nlink (inodes u ! 0) = 1"
proof -
  have ib: "IBLOCK (i_inum (inodes fsst_ex ! 0)) fsst_ex = 32" by (simp add: IBLOCK_def fsst_ex_ok inode_ex_def)
  obtain t where t: "iupdate 0 fsst_ex = Ret () t" "\<And>y. \<not> i_valid y \<Longrightarrow> i_dev y = 1 \<Longrightarrow> i_inum y = 2 \<Longrightarrow>
      \<exists>u. ilock_load 0 (updi 0 (\<lambda>_. y) t) = Ret () u \<and> inodes u = (inodes fsst_ex)[0 := inode_ex\<lparr>i_ref := i_ref y, i_valid := True\<rparr>]"
    using inode_roundtrip [of fsst_ex 0, unfolded ib] fsst_ex_ok home_ex [of 32] fs_disk_ex_len [of 32] by (auto simp: inode_ex_def)
  obtain u where u: "ilock_load 0 (updi 0 (\<lambda>_. inode_ex\<lparr>i_valid := False, i_nlink := 7\<rparr>) t) = Ret () u"
    "inodes u = (inodes fsst_ex)[0 := inode_ex\<lparr>i_ref := i_ref (inode_ex\<lparr>i_valid := False, i_nlink := 7\<rparr>), i_valid := True\<rparr>]"
    using t(2) [of "inode_ex\<lparr>i_valid := False, i_nlink := 7\<rparr>"] by (auto simp: inode_ex_def)
  have "i_nlink (inodes u ! 0) = 1" using fsst_ex_ok(7) unfolding u(2) by (simp add: inode_ex_def)
  then show ?thesis using t(1) u(1) by blast
qed

theorem readi_contents_witness:
  "\<exists>t. readi_data 0 510 4 fsst_ex = Ret (4, [7, 7, 0, 0]) t"
proof -
  have e: "data_block inode_ex fs_disk_ex 0 = 40" "data_block inode_ex fs_disk_ex 1 = 41" "file_blocks inode_ex = 2"
    by (simp_all add: data_block_def file_blocks_def inode_ex_def)
  have "file_ok inode_ex fs_disk_ex"
    using e by (auto simp: file_ok_def good_block_def fs_disk_ex_len less_2_cases_iff) (simp_all add: inode_ex_def)
  moreover have c: "contents inode_ex fs_disk_ex = replicate 512 7 @ replicate 512 0"
    using e by (simp add: contents_def fs_disk_ex_def upt_rec)
  moreover have "idle fsst_ex" using fsst_ex_ok(1,2,11) by (simp add: idle_def tx_ok_def)
  moreover have "take 4 (drop 510 (take 600 (replicate 512 7 @ replicate 512 0))) = [7, 7, 0, (0 :: u8)]"
    by (simp add: replicate_append_same [symmetric] eval_nat_numeral del: replicate.simps) (simp add: eval_nat_numeral)
  ultimately show ?thesis
    using readi_contents [of fsst_ex 0 510 4] fsst_ex_ok by (simp add: inode_ex_def) blast
qed

end
