(* ===== verification/Pipe.thy ===== *)
theory Pipe
  imports Fs
begin

text \<open>
  Open files and pipes (\<^verbatim>\<open>file.c\<close>, \<^verbatim>\<open>file.h\<close>, \<^verbatim>\<open>pipe.c\<close>). A pointer to a file is an index into \<^verbatim>\<open>ftable.file\<close>, and a pipe is named by the address of the
  page that holds it; \<open>pipes\<close> maps the pages in use as pipes to their contents, so that an access to a page that has been freed is a
  fault. Reads return the bytes that the code stores at \<^verbatim>\<open>addr\<close>, writes take the bytes that are there.
\<close>

section \<open>State\<close>

datatype ftype = FD_NONE | FD_PIPE | FD_INODE

record kfile =
  f_type :: ftype
  f_ref :: int
  f_readable :: bool
  f_writable :: bool
  f_pipe :: u32
  f_ip :: "nat option"
  f_off :: u32

record pipe =
  pi_data :: "u8 list"
  pi_nread :: u32
  pi_nwrite :: u32
  pi_readopen :: bool
  pi_writeopen :: bool

record filst = fsst +
  ftable :: "kfile list"        \<comment> \<open>\<^verbatim>\<open>ftable.file\<close>\<close>
  pipes :: "u32 \<Rightarrow> pipe option"

abbreviation (input) PIPESIZE :: u32 where "PIPESIZE \<equiv> 512"

definition updf :: "nat \<Rightarrow> (kfile \<Rightarrow> kfile) \<Rightarrow> 'a filst_scheme \<Rightarrow> 'a filst_scheme" where
  "updf i f s = s\<lparr>ftable := (ftable s)[i := f (ftable s ! i)]\<rparr>"

definition pipe_lock :: "u32 \<Rightarrow> lock" where
  "pipe_lock p = LPipe (unat p)"

definition set_pipe :: "u32 \<Rightarrow> pipe \<Rightarrow> 'a filst_scheme \<Rightarrow> 'a filst_scheme" where
  "set_pipe p x s = s\<lparr>pipes := (pipes s)(p := Some x)\<rparr>"

text \<open>An access through a pointer to a pipe.\<close>

definition with_pipe :: "u32 \<Rightarrow> 'a filst_scheme \<Rightarrow> (pipe \<Rightarrow> ('b, 'a filst_scheme) res) \<Rightarrow> ('b, 'a filst_scheme) res" where
  "with_pipe p s f = (case pipes s p of None \<Rightarrow> Fault ''pipe: no such pipe'' | Some x \<Rightarrow> f x)"

text \<open>\<^verbatim>\<open>myproc()->killed\<close>.\<close>

definition with_killed :: "'a ptab_scheme \<Rightarrow> (bool \<Rightarrow> ('b, 'a ptab_scheme) res) \<Rightarrow> ('b, 'a ptab_scheme) res" where
  "with_killed s f = (case cpu_proc s of None \<Rightarrow> Fault ''null process'' | Some i \<Rightarrow> f (p_killed (procs s ! i)))"

section \<open>Pipes\<close>

definition pipeclose :: "u32 \<Rightarrow> bool \<Rightarrow> 'a filst_scheme \<Rightarrow> (unit, 'a filst_scheme) res" where
  "pipeclose p writable s =
     kbind (lock_acquire (pipe_lock p) s) (\<lambda>_ s.
     with_pipe p s (\<lambda>x.
     kbind (if writable then wakeup (ChPipeRead (unat p)) (set_pipe p (x\<lparr>pi_writeopen := False\<rparr>) s)
            else wakeup (ChPipeWrite (unat p)) (set_pipe p (x\<lparr>pi_readopen := False\<rparr>) s)) (\<lambda>_ s.
     with_pipe p s (\<lambda>x.
       if \<not> pi_readopen x \<and> \<not> pi_writeopen x
       then kbind (lock_release (pipe_lock p) s) (\<lambda>_ s. kfree p (s\<lparr>pipes := (pipes s)(p := None)\<rparr>))
       else lock_release (pipe_lock p) s))))"

text \<open>The ring buffer: the test for a full and for an empty pipe, one byte stored and one byte taken.\<close>

definition pipe_full :: "pipe \<Rightarrow> bool" where
  "pipe_full x \<longleftrightarrow> pi_nwrite x = pi_nread x + PIPESIZE"

definition pipe_empty :: "pipe \<Rightarrow> bool" where
  "pipe_empty x \<longleftrightarrow> pi_nread x = pi_nwrite x"

definition pipe_put :: "u8 \<Rightarrow> pipe \<Rightarrow> pipe" where
  "pipe_put c x = x\<lparr>pi_data := (pi_data x)[unat (pi_nwrite x mod PIPESIZE) := c], pi_nwrite := pi_nwrite x + 1\<rparr>"

definition pipe_get :: "pipe \<Rightarrow> u8 \<times> pipe" where
  "pipe_get x = (pi_data x ! unat (pi_nread x mod PIPESIZE), x\<lparr>pi_nread := pi_nread x + 1\<rparr>)"

text \<open>
  The loop of \<^verbatim>\<open>pipewrite\<close> over the bytes that remain of \<open>n\<close>. When the pipe is full the writer goes to sleep, and \<open>pipewrite_resume\<close> continues
  with the same bytes.
\<close>

primrec pipewrite_loop :: "u32 \<Rightarrow> int \<Rightarrow> u8 list \<Rightarrow> 'a filst_scheme \<Rightarrow> (int, 'a filst_scheme) res" where
  "pipewrite_loop p n [] s =
     kbind (wakeup (ChPipeRead (unat p)) s) (\<lambda>_ s. kbind (lock_release (pipe_lock p) s) (\<lambda>_ s. Ret n s))"
| "pipewrite_loop p n (c # cs) s =
     with_pipe p s (\<lambda>x.
       if pipe_full x then
         with_killed s (\<lambda>killed.
           if \<not> pi_readopen x \<or> killed then kbind (lock_release (pipe_lock p) s) (\<lambda>_ s. Ret (-1) s)
           else kbind (wakeup (ChPipeRead (unat p)) s) (\<lambda>_ s. sleep (ChPipeWrite (unat p)) (Some (pipe_lock p)) s))
       else pipewrite_loop p n cs (set_pipe p (pipe_put c x) s))"

definition pipewrite :: "u32 \<Rightarrow> u8 list \<Rightarrow> 'a filst_scheme \<Rightarrow> (int, 'a filst_scheme) res" where
  "pipewrite p src s = kbind (lock_acquire (pipe_lock p) s) (\<lambda>_ s. pipewrite_loop p (int (length src)) src s)"

definition pipewrite_resume :: "nat \<Rightarrow> u32 \<Rightarrow> int \<Rightarrow> u8 list \<Rightarrow> 'a filst_scheme \<Rightarrow> (int, 'a filst_scheme) res" where
  "pipewrite_resume me p n rest s = kbind (sleep_resume me (pipe_lock p) s) (\<lambda>_ s. pipewrite_loop p n rest s)"

text \<open>The copy loop of \<^verbatim>\<open>piperead\<close>.\<close>

primrec pipe_take :: "nat \<Rightarrow> pipe \<Rightarrow> u8 list \<times> pipe" where
  "pipe_take 0 x = ([], x)"
| "pipe_take (Suc n) x =
     (if pipe_empty x then ([], x)
      else let (c, y) = pipe_get x; (cs, z) = pipe_take n y in (c # cs, z))"

definition piperead_loop :: "u32 \<Rightarrow> int \<Rightarrow> 'a filst_scheme \<Rightarrow> (int \<times> u8 list, 'a filst_scheme) res" where
  "piperead_loop p n s =
     with_pipe p s (\<lambda>x.
       if pipe_empty x \<and> pi_writeopen x then
         with_killed s (\<lambda>killed.
           if killed then kbind (lock_release (pipe_lock p) s) (\<lambda>_ s. Ret (-1, []) s)
           else sleep (ChPipeRead (unat p)) (Some (pipe_lock p)) s)
       else let (cs, y) = pipe_take (nat n) x
            in kbind (wakeup (ChPipeWrite (unat p)) (set_pipe p y s)) (\<lambda>_ s.
               kbind (lock_release (pipe_lock p) s) (\<lambda>_ s. Ret (int (length cs), cs) s)))"

definition piperead :: "u32 \<Rightarrow> int \<Rightarrow> 'a filst_scheme \<Rightarrow> (int \<times> u8 list, 'a filst_scheme) res" where
  "piperead p n s = kbind (lock_acquire (pipe_lock p) s) (\<lambda>_ s. piperead_loop p n s)"

definition piperead_resume :: "nat \<Rightarrow> u32 \<Rightarrow> int \<Rightarrow> 'a filst_scheme \<Rightarrow> (int \<times> u8 list, 'a filst_scheme) res" where
  "piperead_resume me p n s = kbind (sleep_resume me (pipe_lock p) s) (\<lambda>_ s. piperead_loop p n s)"

section \<open>Open files\<close>

definition fileinit :: "'a filst_scheme \<Rightarrow> 'a filst_scheme" where
  "fileinit s = s\<lparr>held := removeAll LFtable (held s)\<rparr>"

definition filealloc :: "'a filst_scheme \<Rightarrow> (nat option, 'a filst_scheme) res" where
  "filealloc s =
     kbind (lock_acquire LFtable s) (\<lambda>_ s.
       case find_index (\<lambda>f. f_ref f = 0) (ftable s) of
         Some i \<Rightarrow> kbind (lock_release LFtable (updf i (\<lambda>f. f\<lparr>f_ref := 1\<rparr>) s)) (\<lambda>_ s. Ret (Some i) s)
       | None \<Rightarrow> kbind (lock_release LFtable s) (\<lambda>_ s. Ret None s))"

definition filedup :: "nat \<Rightarrow> 'a filst_scheme \<Rightarrow> (nat, 'a filst_scheme) res" where
  "filedup i s =
     kbind (lock_acquire LFtable s) (\<lambda>_ s.
       if f_ref (ftable s ! i) < 1 then Panic ''filedup''
       else kbind (lock_release LFtable (updf i (\<lambda>f. f\<lparr>f_ref := f_ref f + 1\<rparr>) s)) (\<lambda>_ s. Ret i s))"

text \<open>An access through a pointer to an inode that may be null.\<close>

definition with_ip :: "nat option \<Rightarrow> (nat \<Rightarrow> ('b, 's) res) \<Rightarrow> ('b, 's) res" where
  "with_ip ip f = (case ip of None \<Rightarrow> Fault ''null inode'' | Some ip \<Rightarrow> f ip)"

definition fileclose :: "nat \<Rightarrow> 'a filst_scheme \<Rightarrow> (unit, 'a filst_scheme) res" where
  "fileclose i s =
     kbind (lock_acquire LFtable s) (\<lambda>_ s.
       if f_ref (ftable s ! i) < 1 then Panic ''fileclose''
       else let s = updf i (\<lambda>f. f\<lparr>f_ref := f_ref f - 1\<rparr>) s
         in if f_ref (ftable s ! i) > 0 then lock_release LFtable s
            else let ff = ftable s ! i
              in kbind (lock_release LFtable (updf i (\<lambda>f. f\<lparr>f_ref := 0, f_type := FD_NONE\<rparr>) s)) (\<lambda>_ s.
                   if f_type ff = FD_PIPE then pipeclose (f_pipe ff) (f_writable ff) s
                   else if f_type ff = FD_INODE then
                     kbind (begin_op s) (\<lambda>_ s. kbind (with_ip (f_ip ff) (\<lambda>ip. iput ip s)) (\<lambda>_ s. end_op s))
                   else Ret () s))"

definition filestat :: "nat \<Rightarrow> 'a filst_scheme \<Rightarrow> (int \<times> statbuf option, 'a filst_scheme) res" where
  "filestat i s =
     (let f = ftable s ! i
      in if f_type f = FD_INODE then
           kbind (ilock (f_ip f) s) (\<lambda>_ s.
             let st = stati (the (f_ip f)) s in kbind (iunlock (f_ip f) s) (\<lambda>_ s. Ret (0, Some st) s))
         else Ret (-1, None) s)"

definition fileread :: "'a filst_scheme devread \<Rightarrow> nat \<Rightarrow> int \<Rightarrow> 'a filst_scheme \<Rightarrow> (int \<times> u8 list, 'a filst_scheme) res" where
  "fileread dv i n s =
     (let f = ftable s ! i
      in if \<not> f_readable f then Ret (-1, []) s
         else if f_type f = FD_PIPE then piperead (f_pipe f) n s
         else if f_type f = FD_INODE then
           kbind (ilock (f_ip f) s) (\<lambda>_ s.
           kbind (readi dv (the (f_ip f)) (f_off (ftable s ! i)) (word_of_int n) s) (\<lambda>(r, xs) s.
             let s = (if r > 0 then updf i (\<lambda>f. f\<lparr>f_off := f_off f + word_of_int r\<rparr>) s else s)
             in kbind (iunlock (f_ip f) s) (\<lambda>_ s. Ret (r, xs) s)))
         else Panic ''fileread'')"

text \<open>
  The loop of \<^verbatim>\<open>filewrite\<close> over the bytes that remain: \<^verbatim>\<open>max\<close> bytes in a transaction. It returns whether all bytes were written.
\<close>

definition filewrite_max :: nat where
  "filewrite_max = ((10 - 1 - 1 - 2) div 2) * 512"

function filewrite_loop :: "'a filst_scheme devwrite \<Rightarrow> nat \<Rightarrow> u8 list \<Rightarrow> 'a filst_scheme \<Rightarrow> (bool, 'a filst_scheme) res" where
  "filewrite_loop dv i src s =
     (if src = [] then Ret True s
      else let n1 = min (length src) filewrite_max; ip = f_ip (ftable s ! i)
      in kbind (begin_op s) (\<lambda>_ s.
         kbind (ilock ip s) (\<lambda>_ s.
         kbind (writei dv (the ip) (take n1 src) (f_off (ftable s ! i)) s) (\<lambda>r s.
           let s = (if r > 0 then updf i (\<lambda>f. f\<lparr>f_off := f_off f + word_of_int r\<rparr>) s else s)
           in kbind (iunlock ip s) (\<lambda>_ s.
              kbind (end_op s) (\<lambda>_ s.
                if r < 0 then Ret False s
                else if r \<noteq> int n1 then Panic ''short filewrite''
                else filewrite_loop dv i (drop n1 src) s))))))"
  by pat_completeness auto
termination
  by (relation "measure (\<lambda>(dv, i, src, s). length src)") (auto simp: filewrite_max_def)

declare filewrite_loop.simps [simp del]

definition filewrite :: "'a filst_scheme devwrite \<Rightarrow> nat \<Rightarrow> u8 list \<Rightarrow> 'a filst_scheme \<Rightarrow> (int, 'a filst_scheme) res" where
  "filewrite dv i src s =
     (let f = ftable s ! i
      in if \<not> f_writable f then Ret (-1) s
         else if f_type f = FD_PIPE then pipewrite (f_pipe f) src s
         else if f_type f = FD_INODE then
           kbind (filewrite_loop dv i src s) (\<lambda>all s. Ret (if all then int (length src) else -1) s)
         else Panic ''filewrite'')"

section \<open>Creating a pipe\<close>

definition new_pipe :: pipe where
  "new_pipe = \<lparr>pi_data = replicate 512 0, pi_nread = 0, pi_nwrite = 0, pi_readopen = True, pi_writeopen = True\<rparr>"

text \<open>The error exit. It is taken before a page is allocated or when there is none, so there is no pipe to free.\<close>

definition pipealloc_bad :: "nat option \<Rightarrow> nat option \<Rightarrow> 'a filst_scheme \<Rightarrow> ((nat \<times> nat) option, 'a filst_scheme) res" where
  "pipealloc_bad f0 f1 s =
     kbind (case f0 of None \<Rightarrow> Ret () s | Some i \<Rightarrow> fileclose i s) (\<lambda>_ s.
     kbind (case f1 of None \<Rightarrow> Ret () s | Some i \<Rightarrow> fileclose i s) (\<lambda>_ s. Ret None s))"

text \<open>The bytes of the page that \<^verbatim>\<open>pipealloc\<close> does not set are read only after they are written, so \<open>new_pipe\<close> fixes them.\<close>

definition pipealloc :: "'a filst_scheme \<Rightarrow> ((nat \<times> nat) option, 'a filst_scheme) res" where
  "pipealloc s =
     kbind (filealloc s) (\<lambda>f0 s.
       case f0 of
         None \<Rightarrow> pipealloc_bad None None s
       | Some i0 \<Rightarrow>
           kbind (filealloc s) (\<lambda>f1 s.
             case f1 of
               None \<Rightarrow> pipealloc_bad f0 None s
             | Some i1 \<Rightarrow>
                 kbind (kalloc s) (\<lambda>p s.
                   if p = 0 then pipealloc_bad f0 f1 s
                   else let s = set_pipe p new_pipe s;
                            s = s\<lparr>held := removeAll (pipe_lock p) (held s)\<rparr>;
                            s = updf i0 (\<lambda>f. f\<lparr>f_type := FD_PIPE, f_readable := True, f_writable := False, f_pipe := p\<rparr>) s;
                            s = updf i1 (\<lambda>f. f\<lparr>f_type := FD_PIPE, f_readable := False, f_writable := True, f_pipe := p\<rparr>) s
                        in Ret (Some (i0, i1)) s)))"

section \<open>The contract of a pipe\<close>

text \<open>
  A bounded queue of bytes: what the readers and writers of a pipe rely on. \<open>q\<close> is the contents of the buffer, \<open>take_n\<close> the loop that
  takes bytes until \<open>n\<close> are taken or there are no more.
\<close>

locale byte_queue =
  fixes ok :: "'p \<Rightarrow> bool" and q :: "'p \<Rightarrow> u8 list" and cap :: nat and full :: "'p \<Rightarrow> bool" and empty :: "'p \<Rightarrow> bool"
    and put :: "u8 \<Rightarrow> 'p \<Rightarrow> 'p" and get :: "'p \<Rightarrow> u8 \<times> 'p" and take_n :: "nat \<Rightarrow> 'p \<Rightarrow> u8 list \<times> 'p"
  assumes full: "ok p \<Longrightarrow> full p \<longleftrightarrow> length (q p) = cap" and bound: "ok p \<Longrightarrow> length (q p) \<le> cap"
    and empty: "ok p \<Longrightarrow> empty p \<longleftrightarrow> q p = []"
    and put: "ok p \<Longrightarrow> \<not> full p \<Longrightarrow> ok (put c p) \<and> q (put c p) = q p @ [c]"
    and get: "ok p \<Longrightarrow> \<not> empty p \<Longrightarrow> get p = (hd (q p), snd (get p)) \<and> ok (snd (get p)) \<and> q (snd (get p)) = tl (q p)"
    and take_0: "take_n 0 p = ([], p)"
    and take_Suc: "take_n (Suc n) p = (if empty p then ([], p) else let (c, p) = get p; (cs, p) = take_n n p in (c # cs, p))"
begin

lemma put_all: "ok p \<Longrightarrow> length (q p) + length cs \<le> cap \<Longrightarrow> ok (fold put cs p) \<and> q (fold put cs p) = q p @ cs"
proof (induction cs arbitrary: p)
  case (Cons c cs)
  then have "\<not> full p" using full by auto
  then show ?case using Cons put [of p c] by simp
qed simp

lemma take_all: "ok p \<Longrightarrow> fst (take_n n p) = take n (q p) \<and> ok (snd (take_n n p)) \<and> q (snd (take_n n p)) = drop n (q p)"
proof (induction n arbitrary: p)
  case (Suc n)
  show ?case
  proof (cases "empty p")
    case True
    then show ?thesis using Suc.prems empty take_Suc by simp
  next
    case False
    obtain c y where g: "get p = (c, y)" by (cases "get p") auto
    have y: "ok y" "c = hd (q p)" "q y = tl (q p)" "q p \<noteq> []" using get [OF Suc.prems False] g empty [OF Suc.prems] False by auto
    obtain cs z where t: "take_n n y = (cs, z)" by (cases "take_n n y") auto
    have r: "take_n (Suc n) p = (c # cs, z)" using False g t take_Suc by simp
    have "q p = c # q y" using y by simp
    then show ?thesis using Suc.IH [OF y(1)] unfolding r t by simp
  qed
qed (simp add: take_0)

end

definition pqueue :: "pipe \<Rightarrow> u8 list" where
  "pqueue x = map (\<lambda>i. pi_data x ! unat ((pi_nread x + of_nat i) mod PIPESIZE)) [0..<unat (pi_nwrite x - pi_nread x)]"

definition pipe_ok :: "pipe \<Rightarrow> bool" where
  "pipe_ok x \<longleftrightarrow> length (pi_data x) = 512 \<and> unat (pi_nwrite x - pi_nread x) \<le> 512"

lemma mod512: "unat (w mod 512) = unat w mod 512" for w :: u32
  by (simp add: unat_mod)

lemma add_mod512: "unat ((w + of_nat i) mod 512) = (unat w + i) mod 512" if "i \<le> 512" for w :: u32
proof -
  have "unat (w + of_nat i) = (unat w + i) mod 4294967296" using that by (simp add: unat_word_ariths unat_of_nat mod_add_right_eq)
  then show ?thesis by (simp add: mod512 mod_mod_cancel)
qed

lemma length_pqueue: "length (pqueue x) = unat (pi_nwrite x - pi_nread x)"
  by (simp add: pqueue_def)

lemma nth_pqueue: "i < unat (pi_nwrite x - pi_nread x) \<Longrightarrow> pipe_ok x \<Longrightarrow> pqueue x ! i = pi_data x ! ((unat (pi_nread x) + i) mod 512)"
  by (simp add: pqueue_def pipe_ok_def add_mod512)

lemma mod512_neq:
  assumes "i < n" "n < i + (512 :: nat)"
  shows "(a + i) mod 512 \<noteq> (a + n) mod 512"
proof
  assume "(a + i) mod 512 = (a + n) mod 512"
  then have "512 dvd (a + n) - (a + i)" by (metis mod_eq_dvd_iff_nat add_le_cancel_left assms(1) less_imp_le)
  then have "512 dvd n - i" by simp
  then show False using assms by (auto dest: dvd_imp_le)
qed

lemma pipe_write_index: "pi_nwrite x = pi_nread x + of_nat (unat (pi_nwrite x - pi_nread x))"
  by simp

lemma pipe_put_queue:
  assumes ok: "pipe_ok x" and full: "\<not> pipe_full x"
  shows "pipe_ok (pipe_put c x)" "pqueue (pipe_put c x) = pqueue x @ [c]"
proof -
  define n where "n = unat (pi_nwrite x - pi_nread x)"
  have w: "pi_nwrite x = pi_nread x + of_nat n" by (simp add: n_def)
  have "n \<noteq> 512"
  proof
    assume "n = 512"
    then show False using w full by (simp add: pipe_full_def)
  qed
  then have n: "n < 512" using ok by (simp add: pipe_ok_def n_def)
  have n1: "unat (pi_nwrite x + 1 - pi_nread x) = n + 1"
  proof -
    have "pi_nwrite x + 1 - pi_nread x = of_nat (n + 1)" unfolding w by simp
    moreover have "unat (of_nat (n + 1) :: u32) = n + 1" by (rule unat_of_nat32) (use n in simp)
    ultimately show ?thesis by (simp only:)
  qed
  have d: "length (pi_data x) = 512" using ok by (simp add: pipe_ok_def)
  show ok': "pipe_ok (pipe_put c x)" using n n1 d by (simp add: pipe_ok_def pipe_put_def)
  let ?k = "(unat (pi_nread x) + n) mod 512"
  have k: "unat (pi_nwrite x mod 512) = ?k" unfolding w using n by (intro add_mod512) simp
  show "pqueue (pipe_put c x) = pqueue x @ [c]"
  proof (rule nth_equalityI)
    show "length (pqueue (pipe_put c x)) = length (pqueue x @ [c])"
      using n1 by (simp add: length_pqueue pipe_put_def n_def)
  next
    fix i assume "i < length (pqueue (pipe_put c x))"
    then have i: "i < n + 1" using n1 by (simp add: length_pqueue pipe_put_def)
    have l: "pqueue (pipe_put c x) ! i = (pi_data x)[?k := c] ! ((unat (pi_nread x) + i) mod 512)"
      using nth_pqueue [OF _ ok', of i] i n1 k by (simp add: pipe_put_def)
    show "pqueue (pipe_put c x) ! i = (pqueue x @ [c]) ! i"
    proof (cases "i = n")
      case True
      then show ?thesis unfolding l using d by (simp add: nth_append length_pqueue n_def)
    next
      case False
      then have "i < n" using i by simp
      then have "(unat (pi_nread x) + i) mod 512 \<noteq> ?k" using n by (intro mod512_neq) auto
      then show ?thesis unfolding l using \<open>i < n\<close> nth_pqueue [OF _ ok, of i] d by (simp add: nth_append length_pqueue n_def)
    qed
  qed
qed

lemma pipe_get_queue:
  assumes ok: "pipe_ok x" and ne: "\<not> pipe_empty x"
  shows "fst (pipe_get x) = hd (pqueue x)" "pipe_ok (snd (pipe_get x))" "pqueue (snd (pipe_get x)) = tl (pqueue x)"
proof -
  define n where "n = unat (pi_nwrite x - pi_nread x)"
  have w: "pi_nwrite x = pi_nread x + of_nat n" by (simp add: n_def)
  have "n \<noteq> 0"
  proof
    assume "n = 0"
    then show False using w ne by (simp add: pipe_empty_def)
  qed
  have n: "n \<le> 512" using ok by (simp add: pipe_ok_def n_def)
  obtain m where m: "n = Suc m" using \<open>n \<noteq> 0\<close> by (cases n) auto
  have "pi_nwrite x - (pi_nread x + 1) = of_nat m" unfolding w m by simp
  then have n1: "unat (pi_nwrite x - (pi_nread x + 1)) = m" using n m by (simp add: unat_of_nat32)
  have d: "length (pi_data x) = 512" using ok by (simp add: pipe_ok_def)
  have lq: "length (pqueue x) = n" by (simp add: length_pqueue n_def)
  then have "hd (pqueue x) = pqueue x ! 0" using m by (intro hd_conv_nth) auto
  then show "fst (pipe_get x) = hd (pqueue x)"
    using nth_pqueue [of 0 x] ok m by (simp add: pipe_get_def mod512 n_def)
  show ok': "pipe_ok (snd (pipe_get x))" using n1 n m d by (simp add: pipe_ok_def pipe_get_def)
  have r: "unat (pi_nread x + 1) mod 512 = (unat (pi_nread x) + 1) mod 512"
    using add_mod512 [of 1 "pi_nread x"] by (simp add: mod512)
  show "pqueue (snd (pipe_get x)) = tl (pqueue x)"
  proof (rule nth_equalityI)
    show "length (pqueue (snd (pipe_get x))) = length (tl (pqueue x))" using n1 lq m by (simp add: length_pqueue pipe_get_def)
  next
    fix i assume "i < length (pqueue (snd (pipe_get x)))"
    then have i: "i < m" using n1 by (simp add: length_pqueue pipe_get_def)
    have "(unat (pi_nread x + 1) + i) mod 512 = (unat (pi_nread x) + Suc i) mod 512"
      using r by (metis mod_add_left_eq add.assoc plus_1_eq_Suc)
    then have "pqueue (snd (pipe_get x)) ! i = pi_data x ! ((unat (pi_nread x) + Suc i) mod 512)"
      using nth_pqueue [OF _ ok', of i] i n1 by (simp add: pipe_get_def)
    also have "\<dots> = pqueue x ! Suc i" using nth_pqueue [OF _ ok, of "Suc i"] i m by (simp add: n_def)
    also have "\<dots> = tl (pqueue x) ! i" using i lq m by (simp add: nth_tl)
    finally show "pqueue (snd (pipe_get x)) ! i = tl (pqueue x) ! i" .
  qed
qed

lemma pipe_full_queue: "pipe_ok x \<Longrightarrow> pipe_full x \<longleftrightarrow> length (pqueue x) = 512"
proof -
  have "unat (pi_nwrite x - pi_nread x) = 512 \<longleftrightarrow> pi_nwrite x = pi_nread x + of_nat 512" by (rule word_diff_unat_eq) simp
  then show ?thesis by (simp add: pipe_full_def length_pqueue)
qed

lemma pipe_empty_queue: "pipe_empty x \<longleftrightarrow> pqueue x = []"
proof -
  have "pqueue x = [] \<longleftrightarrow> unat (pi_nwrite x - pi_nread x) = 0" using length_pqueue [of x] by (metis length_0_conv)
  then show ?thesis by (auto simp: pipe_empty_def unat_eq_0)
qed

interpretation pq: byte_queue pipe_ok pqueue 512 pipe_full pipe_empty pipe_put pipe_get pipe_take
proof unfold_locales
  fix x :: pipe and c :: u8 and n :: nat
  show "pipe_ok x \<Longrightarrow> pipe_full x = (length (pqueue x) = 512)" by (rule pipe_full_queue)
  show "pipe_ok x \<Longrightarrow> length (pqueue x) \<le> 512" by (simp add: length_pqueue pipe_ok_def)
  show "pipe_ok x \<Longrightarrow> pipe_empty x = (pqueue x = [])" by (rule pipe_empty_queue)
  show "pipe_ok x \<Longrightarrow> \<not> pipe_full x \<Longrightarrow> pipe_ok (pipe_put c x) \<and> pqueue (pipe_put c x) = pqueue x @ [c]"
    using pipe_put_queue by blast
  show "pipe_ok x \<Longrightarrow> \<not> pipe_empty x \<Longrightarrow> pipe_get x = (hd (pqueue x), snd (pipe_get x)) \<and> pipe_ok (snd (pipe_get x)) \<and>
      pqueue (snd (pipe_get x)) = tl (pqueue x)"
    using pipe_get_queue [of x] by (metis prod.collapse)
qed simp_all

section \<open>Properties\<close>

lemma set_pipe_simps [simp]:
  "pipes (set_pipe p x s) p = Some x" "set_pipe p y (set_pipe p x s) = set_pipe p y s" "procs (set_pipe p x s) = procs s"
  "held (set_pipe p x s) = held s" "cpu_proc (set_pipe p x s) = cpu_proc s" "nextpid (set_pipe p x s) = nextpid s"
  by (simp_all add: set_pipe_def)

lemma set_pipe_id: "pipes s p = Some x \<Longrightarrow> set_pipe p x s = s"
  by (cases s) (auto simp: set_pipe_def)

lemma ptab_ok_set_pipe [simp]: "ptab_ok (set_pipe p x s) = ptab_ok s"
  by (simp add: ptab_ok_def)

lemma pipe_lock_neq [simp]: "pipe_lock p \<noteq> LPtable" "LPtable \<noteq> pipe_lock p"
  by (simp_all add: pipe_lock_def)

lemma fold_put_open [simp]:
  "pi_readopen (fold pipe_put cs x) = pi_readopen x" "pi_writeopen (fold pipe_put cs x) = pi_writeopen x"
  by (induction cs arbitrary: x) (simp_all add: pipe_put_def)

lemma pipewrite_fill:
  "pipes s p = Some x \<Longrightarrow> pipe_ok x \<Longrightarrow> length (pqueue x) + length as \<le> 512 \<Longrightarrow>
   pipewrite_loop p n (as @ bs) s = pipewrite_loop p n bs (set_pipe p (fold pipe_put as x) s)"
proof (induction as arbitrary: s x)
  case Nil
  then show ?case by (simp add: set_pipe_id)
next
  case (Cons c as)
  have nf: "\<not> pipe_full x" using Cons.prems pipe_full_queue by simp
  note q = pipe_put_queue [OF Cons.prems(2) nf, of c]
  have "pipewrite_loop p n (as @ bs) (set_pipe p (pipe_put c x) s) =
      pipewrite_loop p n bs (set_pipe p (fold pipe_put as (pipe_put c x)) (set_pipe p (pipe_put c x) s))"
    using q Cons.prems(3) by (intro Cons.IH) simp_all
  then show ?case using nf Cons.prems(1) by (simp add: with_pipe_def)
qed

lemma no_sleeper_woken: "\<forall>r\<in>set (woken c ps). \<not> sleeps_on c r"
proof
  fix r assume "r \<in> set (woken c ps)"
  then obtain q where q: "r = (if sleeps_on c q then wake_proc (min_vruntime ps) q else q)" unfolding woken_def set_map by blast
  show "\<not> sleeps_on c r"
  proof (cases "sleeps_on c q")
    case True
    then show ?thesis unfolding q by (simp add: sleeps_on_def)
  qed (simp add: q)
qed

text \<open>A process that goes to sleep on one side of a pipe.\<close>

lemma sleep_pipe:
  assumes "ptab_ok s" "cpu_proc s = Some i" "held s = [pipe_lock p]"
  shows "\<exists>t. sleep c (Some (pipe_lock p)) s = Sleep c t \<and> held t = [LPtable] \<and> pipes t = pipes s \<and> sleeps_on c (procs t ! i)"
proof -
  have "i < length (procs s)" using assms(1,2) by (auto simp: ptab_ok_def procs_ok_def)
  then show ?thesis using assms by (simp add: sleep_def sched_def updp_def sleeps_on_def)
qed


text \<open>A machine with an empty pipe at page \<open>0x80400000\<close>, open on both sides.\<close>

definition filst_ex :: filst where
  "filst_ex = fsst.extend fsst_ex (filst.fields
     (replicate 100 \<lparr>f_type = FD_NONE, f_ref = 0, f_readable = False, f_writable = False, f_pipe = 0, f_ip = None, f_off = 0\<rparr>)
     [0x80400000 \<mapsto> new_pipe])"

lemma filst_ex_base:
  "procs filst_ex = procs (lgst_of fs_disk_ex)" "cpu_proc filst_ex = cpu_proc (lgst_of fs_disk_ex)" "held filst_ex = held (lgst_of fs_disk_ex)" "nextpid filst_ex = nextpid (lgst_of fs_disk_ex)"
  "pipes filst_ex 0x80400000 = Some new_pipe"
  by (simp_all add: filst_ex_def fsst_ex_def fsst.defs lgst.defs filst.defs)

lemma ptab_ok_filst_ex: "ptab_ok filst_ex" "held filst_ex = []" "\<exists>i. cpu_proc filst_ex = Some i"
proof -
  note b = lgst_of_ok(1)
  show "ptab_ok filst_ex" using bio_okD(5) [OF b] by (simp add: ptab_ok_def filst_ex_base)
  show "held filst_ex = []" using bio_okD(4) [OF b] by (simp add: filst_ex_base)
  show "\<exists>i. cpu_proc filst_ex = Some i" using b by (auto simp: bio_ok_def filst_ex_base)
qed


end
