(* ===== verification/Mmap.thy ===== *)
theory Mmap
  imports Pipe
begin

text \<open>
  Memory mappings (\<^verbatim>\<open>vm.c\<close> from \<^verbatim>\<open>enum memstate\<close> on): the table of mapped areas, \<^verbatim>\<open>mmap\<close>, \<^verbatim>\<open>munmap\<close>, the page fault handler and the copy made by \<^verbatim>\<open>fork\<close>.
  Pointers to areas, processes and files are indexes. The code does not test whether \<^verbatim>\<open>kalloc\<close> and \<^verbatim>\<open>mallock\<close> return null; using
  the null pointer is a fault here, as are accesses outside \<^verbatim>\<open>ofile\<close>.
\<close>

section \<open>State\<close>

record mmap_area =
  mm_f :: "nat option"
  mm_addr :: u32
  mm_length :: int
  mm_offset :: int
  mm_prot :: int
  mm_flags :: u32
  mm_p :: "nat option"
  mm_using :: bool             \<comment> \<open>\<^verbatim>\<open>state == USING\<close>\<close>

record mmst = filst +
  maps :: "mmap_area list"     \<comment> \<open>\<^verbatim>\<open>mtable.maps\<close>\<close>

abbreviation (input) MMAPBASE :: u32 where "MMAPBASE \<equiv> 0x40000000"
abbreviation (input) PROT_READ :: int where "PROT_READ \<equiv> 1"
abbreviation (input) PROT_WRITE :: int where "PROT_WRITE \<equiv> 2"
abbreviation (input) MAP_ANONYMOUS :: u32 where "MAP_ANONYMOUS \<equiv> 1"
abbreviation (input) MAP_POPULATE :: u32 where "MAP_POPULATE \<equiv> 2"

definition updm :: "nat \<Rightarrow> (mmap_area \<Rightarrow> mmap_area) \<Rightarrow> 'a mmst_scheme \<Rightarrow> 'a mmst_scheme" where
  "updm i f s = s\<lparr>maps := (maps s)[i := f (maps s ! i)]\<rparr>"

text \<open>The process that runs, where the code follows \<^verbatim>\<open>myproc()\<close> without a test.\<close>

definition with_proc :: "'a ptab_scheme \<Rightarrow> (nat \<Rightarrow> ('b, 'a ptab_scheme) res) \<Rightarrow> ('b, 'a ptab_scheme) res" where
  "with_proc s f = (case cpu_proc s of None \<Rightarrow> Fault ''null process'' | Some i \<Rightarrow> f i)"

definition with_file :: "nat option \<Rightarrow> (nat \<Rightarrow> ('b, 's) res) \<Rightarrow> ('b, 's) res" where
  "with_file f k = (case f of None \<Rightarrow> Fault ''null file'' | Some i \<Rightarrow> k i)"

section \<open>Operations\<close>

definition mallock :: "'a mmst_scheme \<Rightarrow> (nat option, 'a mmst_scheme) res" where
  "mallock s =
     kbind (lock_acquire LMtable s) (\<lambda>_ s.
       let r = find_index (\<lambda>m. \<not> mm_using m) (maps s)
       in kbind (lock_release LMtable s) (\<lambda>_ s. Ret r s))"

definition compare_prot :: "nat \<Rightarrow> 'a mmst_scheme \<Rightarrow> (bool, 'a mmst_scheme) res" where
  "compare_prot k s =
     with_file (mm_f (maps s ! k)) (\<lambda>f.
       let flags = (if f_readable (ftable s ! f) then 1 else 0) OR (if f_writable (ftable s ! f) then 2 else 0)
       in Ret (mm_prot (maps s ! k) \<le> flags) s)"

definition prot_w :: "int \<Rightarrow> u32" where
  "prot_w prot = (if prot AND PROT_WRITE \<noteq> 0 then PTE_W else 0)"

text \<open>\<^verbatim>\<open>page = kalloc(); memset(page, 0, PGSIZE)\<close>.\<close>

definition zeroed_page :: "'a mmst_scheme \<Rightarrow> (u32, 'a mmst_scheme) res" where
  "zeroed_page s =
     kbind (kalloc s) (\<lambda>page s.
       if page = 0 then Fault ''memset: null page'' else Ret page (s\<lparr>mem := memset (mem s) page 0 4096\<rparr>))"

text \<open>\<^verbatim>\<open>fileread(f, page, PGSIZE)\<close>; the callers ignore the result.\<close>

definition read_page :: "'a mmst_scheme devread \<Rightarrow> nat \<Rightarrow> u32 \<Rightarrow> 'a mmst_scheme \<Rightarrow> (unit, 'a mmst_scheme) res" where
  "read_page dv f page s = kbind (fileread dv f 4096 s) (\<lambda>(r, xs) s. Ret () (s\<lparr>mem := store_bytes (mem s) page xs\<rparr>))"

definition populate_page :: "'a mmst_scheme devread \<Rightarrow> nat \<Rightarrow> nat \<Rightarrow> 'a mmst_scheme \<Rightarrow> (unit, 'a mmst_scheme) res" where
  "populate_page dv k i s =
     kbind (zeroed_page s) (\<lambda>page s.
     with_file (mm_f (maps s ! k)) (\<lambda>f.
     kbind (read_page dv f page s) (\<lambda>_ s.
       let s = updf f (\<lambda>x. x\<lparr>f_off := word_of_int (mm_offset (maps s ! k))\<rparr>) s
       in with_proc s (\<lambda>p.
          kbind (mappages (p_pgdir (procs s ! p)) (mm_addr (maps s ! k) + of_nat (4096 * i)) 4096 (V2P page)
                   (prot_w (mm_prot (maps s ! k)) OR PTE_U) s) (\<lambda>_ s. Ret () s)))))"

definition map_populate :: "'a mmst_scheme devread \<Rightarrow> nat \<Rightarrow> 'a mmst_scheme \<Rightarrow> (unit, 'a mmst_scheme) res" where
  "map_populate dv k s = kfor (populate_page dv k) [0..<nat (mm_length (maps s ! k) div 4096)] s"

definition populate_anon :: "nat \<Rightarrow> nat \<Rightarrow> 'a mmst_scheme \<Rightarrow> (unit, 'a mmst_scheme) res" where
  "populate_anon k i s =
     kbind (zeroed_page s) (\<lambda>page s.
     with_proc s (\<lambda>p.
     kbind (mappages (p_pgdir (procs s ! p)) (mm_addr (maps s ! k) + of_nat (4096 * i)) 4096 (V2P page)
              (prot_w (mm_prot (maps s ! k)) OR PTE_U) s) (\<lambda>_ s. Ret () s)))"

definition map_populate_annonymous :: "nat \<Rightarrow> 'a mmst_scheme \<Rightarrow> (unit, 'a mmst_scheme) res" where
  "map_populate_annonymous k s = kfor (populate_anon k) [0..<nat (mm_length (maps s ! k) div 4096)] s"

text \<open>An area of the running process that contains an address.\<close>

definition area_at :: "u32 \<Rightarrow> 'a mmst_scheme \<Rightarrow> mmap_area \<Rightarrow> bool" where
  "area_at a s m \<longleftrightarrow> mm_addr m \<le> a \<and> mm_addr m + word_of_int (mm_length m) > a \<and> mm_p m = cpu_proc s \<and> mm_using m"

text \<open>\<^verbatim>\<open>io\<close> is 2 for a write and 1 for a read.\<close>

definition page_fault_handler :: "'a mmst_scheme devread \<Rightarrow> u32 \<Rightarrow> int \<Rightarrow> 'a mmst_scheme \<Rightarrow> (int, 'a mmst_scheme) res" where
  "page_fault_handler dv addr io s =
     (let addr = PGROUNDDOWN addr
      in kbind (lock_acquire LMtable s) (\<lambda>_ s.
           case find_index (area_at addr s) (maps s) of
             None \<Rightarrow> kbind (lock_release LMtable s) (\<lambda>_ s. Ret (-1) s)
           | Some k \<Rightarrow>
               let m = maps s ! k
               in if mm_prot m < io then kbind (lock_release LMtable s) (\<lambda>_ s. Ret (-1) s)
                  else let prot = (if mm_prot m > 1 then 2 else 0)
                  in case mm_f m of
                       Some f \<Rightarrow>
                         kbind (zeroed_page s) (\<lambda>page s.
                         kbind (lock_release LMtable s) (\<lambda>_ s.
                         kbind (read_page dv f page s) (\<lambda>_ s.
                         kbind (lock_acquire LMtable (updf f (\<lambda>x. x\<lparr>f_off := word_of_int (mm_offset (maps s ! k))\<rparr>) s)) (\<lambda>_ s.
                         with_proc s (\<lambda>p.
                         kbind (mappages (p_pgdir (procs s ! p)) addr 4096 (V2P page) (prot OR PTE_U) s) (\<lambda>_ s.
                         kbind (lock_release LMtable s) (\<lambda>_ s. Ret 1 s)))))))
                     | None \<Rightarrow>
                         kbind (zeroed_page s) (\<lambda>page s.
                         with_proc s (\<lambda>p.
                         kbind (mappages (p_pgdir (procs s ! p)) addr 4096 (V2P page) (prot OR PTE_U) s) (\<lambda>_ s.
                         kbind (lock_release LMtable s) (\<lambda>_ s. Ret 1 s))))))"

text \<open>The arguments that \<^verbatim>\<open>mmap\<close> rejects at once.\<close>

definition mmap_valid :: "u32 \<Rightarrow> int \<Rightarrow> int \<Rightarrow> u32 \<Rightarrow> int \<Rightarrow> int \<Rightarrow> bool" where
  "mmap_valid addr len prot flags fd offset \<longleftrightarrow>
     addr mod 4096 = 0 \<and> \<not> (len < 0 \<or> len mod 4096 \<noteq> 0) \<and> (prot = PROT_READ \<or> prot = (PROT_READ OR PROT_WRITE)) \<and>
     (if flags AND MAP_ANONYMOUS \<noteq> 0 then fd = -1 \<and> offset = 0 else fd \<ge> 0)"

text \<open>\<^verbatim>\<open>mmap->f = mmap->p->ofile[fd]; mmap->offset = offset; mmap->f->off = offset\<close>, and the test of the protection.\<close>

definition attach_file :: "nat \<Rightarrow> int \<Rightarrow> int \<Rightarrow> 'a mmst_scheme \<Rightarrow> (bool, 'a mmst_scheme) res" where
  "attach_file k fd offset s =
     with_proc s (\<lambda>p.
       if fd < 0 \<or> int (length (p_ofile (procs s ! p))) \<le> fd then Fault ''mmap: fd out of range''
       else let s = updm k (\<lambda>m. m\<lparr>mm_offset := offset, mm_f := p_ofile (procs s ! p) ! nat fd\<rparr>) s
            in with_file (mm_f (maps s ! k)) (\<lambda>f. compare_prot k (updf f (\<lambda>x. x\<lparr>f_off := word_of_int offset\<rparr>) s)))"

definition mmap_fail :: "nat \<Rightarrow> 'a mmst_scheme \<Rightarrow> (u32, 'a mmst_scheme) res" where
  "mmap_fail k s = Ret 0 (updm k (\<lambda>m. m\<lparr>mm_using := False\<rparr>) s)"

definition mmap :: "'a mmst_scheme devread \<Rightarrow> u32 \<Rightarrow> int \<Rightarrow> int \<Rightarrow> u32 \<Rightarrow> int \<Rightarrow> int \<Rightarrow> 'a mmst_scheme \<Rightarrow> (u32, 'a mmst_scheme) res" where
  "mmap dv addr len prot flags fd offset s =
     (if \<not> mmap_valid addr len prot flags fd offset then Ret 0 s
      else kbind (lock_acquire LMtable s) (\<lambda>_ s.
        let busy = list_ex (area_at (addr + MMAPBASE) s) (maps s)
        in kbind (lock_release LMtable s) (\<lambda>_ s.
             if busy then Ret 0 s
             else kbind (mallock s) (\<lambda>r s.
               case r of
                 None \<Rightarrow> Fault ''mmap: null area''
               | Some k \<Rightarrow>
                   let s = updm k (\<lambda>m. m\<lparr>mm_f := None, mm_addr := addr + MMAPBASE, mm_length := len, mm_prot := prot, mm_flags := flags,
                             mm_p := cpu_proc s, mm_using := True\<rparr>) s
                   in kbind (if flags AND MAP_POPULATE \<noteq> 0 \<and> flags AND MAP_ANONYMOUS \<noteq> 0
                             then kbind (map_populate_annonymous k s) (\<lambda>_ s. Ret True s)
                             else kbind (attach_file k fd offset s) (\<lambda>ok s.
                                    if ok \<and> flags AND MAP_POPULATE \<noteq> 0 then kbind (map_populate dv k s) (\<lambda>_ s. Ret True s)
                                    else Ret ok s)) (\<lambda>ok s.
                      if ok then Ret (mm_addr (maps s ! k)) s else mmap_fail k s)))))"

definition unmap_page :: "nat \<Rightarrow> nat \<Rightarrow> 'a mmst_scheme \<Rightarrow> (unit, 'a mmst_scheme) res" where
  "unmap_page k i s =
     with_proc s (\<lambda>p.
     kbind (walkpgdir (p_pgdir (procs s ! p)) (mm_addr (maps s ! k) + of_nat (i * 4096)) False s) (\<lambda>pte s.
       if pte \<noteq> 0 \<and> load32 (mem s) pte AND PTE_P \<noteq> 0 then
         let page = P2V (PTE_ADDR (load32 (mem s) pte))
         in kbind (kfree page (s\<lparr>mem := memset (mem s) page 1 4096\<rparr>)) (\<lambda>_ s. Ret () (s\<lparr>mem := store32 (mem s) pte 0\<rparr>))
       else Ret () s))"

definition munmap :: "u32 \<Rightarrow> 'a mmst_scheme \<Rightarrow> (int, 'a mmst_scheme) res" where
  "munmap addr s =
     kbind (lock_acquire LMtable s) (\<lambda>_ s.
       case find_index (\<lambda>m. mm_addr m \<le> addr + MMAPBASE \<and> mm_addr m + word_of_int (mm_length m) \<ge> addr + MMAPBASE \<and>
              mm_using m \<and> mm_p m = cpu_proc s) (maps s) of
         None \<Rightarrow> kbind (lock_release LMtable s) (\<lambda>_ s. Ret (-1) s)
       | Some k \<Rightarrow>
           kbind (kfor (unmap_page k) [0..<nat (mm_length (maps s ! k) div 4096)] s) (\<lambda>_ s.
           kbind (lock_release LMtable (updm k (\<lambda>_. \<lparr>mm_f = None, mm_addr = 0, mm_length = 0, mm_offset = 0, mm_prot = 0,
                    mm_flags = 0, mm_p = None, mm_using = False\<rparr>) s)) (\<lambda>_ s. Ret 1 s)))"

section \<open>The mappings of a new process\<close>

definition fork_page :: "'a mmst_scheme devread \<Rightarrow> nat \<Rightarrow> nat \<Rightarrow> nat \<Rightarrow> nat \<Rightarrow> 'a mmst_scheme \<Rightarrow> (unit, 'a mmst_scheme) res" where
  "fork_page dv np k t j s =
     with_proc s (\<lambda>p.
     kbind (walkpgdir (p_pgdir (procs s ! p)) (mm_addr (maps s ! k) + of_nat (4096 * j)) True s) (\<lambda>pte s.
       if pte \<noteq> 0 \<and> load32 (mem s) pte AND PTE_P \<noteq> 0 then
         kbind (zeroed_page s) (\<lambda>page s.
         let w = (if mm_prot (maps s ! t) \<ge> 2 then 2 else 0)
         in kbind (case mm_f (maps s ! k) of
                     None \<Rightarrow> Ret () s
                   | Some f \<Rightarrow> kbind (read_page dv f page s) (\<lambda>_ s. Ret () (updf f (\<lambda>x. x\<lparr>f_off := f_off x + 4096\<rparr>) s))) (\<lambda>_ s.
            kbind (mappages (p_pgdir (procs s ! np)) (mm_addr (maps s ! t) + of_nat (4096 * j)) 4096 (V2P page) (w OR PTE_U) s) (\<lambda>_ s.
              Ret () s)))
       else Ret () s))"

definition fork_area :: "'a mmst_scheme devread \<Rightarrow> nat \<Rightarrow> nat \<Rightarrow> 'a mmst_scheme \<Rightarrow> (unit, 'a mmst_scheme) res" where
  "fork_area dv np k s =
     (if mm_using (maps s ! k) \<and> mm_p (maps s ! k) = cpu_proc s then
        kbind (mallock s) (\<lambda>r s.
          case r of
            None \<Rightarrow> Fault ''map_fork: null area''
          | Some t \<Rightarrow>
              let s = updm t (\<lambda>_. (maps s ! k)\<lparr>mm_p := Some np, mm_using := True\<rparr>) s;
                  s = (case mm_f (maps s ! t) of None \<Rightarrow> s
                       | Some f \<Rightarrow> updf f (\<lambda>x. x\<lparr>f_off := word_of_int (mm_offset (maps s ! t))\<rparr>) s)
              in kfor (fork_page dv np k t) [0..<nat (mm_length (maps s ! k) div 4096)] s)
      else Ret () s)"

definition map_fork :: "'a mmst_scheme devread \<Rightarrow> nat \<Rightarrow> 'a mmst_scheme \<Rightarrow> (unit, 'a mmst_scheme) res" where
  "map_fork dv np s =
     kbind (lock_acquire LMtable s) (\<lambda>_ s.
     kbind (kfor (fork_area dv np) [0..<64] s) (\<lambda>_ s. lock_release LMtable s))"

section \<open>The mappings of a new process\<close>

lemma kfor_skip: "(\<And>i. i \<in> set is \<Longrightarrow> f i s = Ret () s) \<Longrightarrow> kfor f (is @ js) s = kfor f js s"
  by (induction "is") auto

text \<open>
  C36. A process with a memory mapping cannot fork: \<^verbatim>\<open>map_fork\<close> holds the lock of the table of areas when it calls \<^verbatim>\<open>mallock\<close>, which acquires the same lock, so the
  kernel panics at the first area of the process. Without a mapping it returns and changes nothing.
\<close>

theorem map_fork_panics:
  fixes s :: "'a mmst_scheme"
  assumes "length (maps s) = 64" "LMtable \<notin> set (held s)"
  shows "map_fork dv np s =
    (if \<exists>m\<in>set (maps s). mm_using m \<and> mm_p m = cpu_proc s then Panic ''acquire'' else Ret () s)"
proof -
  let ?P = "\<lambda>m. mm_using m \<and> mm_p m = cpu_proc s" and ?s = "s\<lparr>held := LMtable # held s\<rparr>"
  have run: "map_fork dv np s = kbind (kfor (fork_area dv np) [0..<64] ?s) (\<lambda>_ s. lock_release LMtable s)"
    using assms(2) by (simp add: map_fork_def)
  have skip: "fork_area dv np k ?s = Ret () ?s" if "\<not> ?P (maps s ! k)" for k using that by (auto simp: fork_area_def)
  show ?thesis
  proof (cases "find_index ?P (maps s)")
    case None
    then have no: "\<not> ?P m" if "m \<in> set (maps s)" for m using that by (auto simp only: find_index_None)
    then have "kfor (fork_area dv np) ([0..<64] @ []) ?s = kfor (fork_area dv np) [] ?s"
      using assms(1) by (intro kfor_skip skip) simp
    then have "map_fork dv np s = lock_release LMtable ?s" unfolding run by simp
    also have "\<dots> = Ret () s" by simp
    finally show ?thesis using no by auto
  next
    case (Some k)
    note k = find_index_SomeD [OF Some]
    have "[0..<64] = [0..<k] @ k # [Suc k..<64]" using k(1) assms(1) by (metis upt_conv_Cons upt_add_eq_append le_add_diff_inverse less_imp_le zero_le)
    moreover have "kfor (fork_area dv np) ([0..<k] @ k # [Suc k..<64]) ?s = kfor (fork_area dv np) (k # [Suc k..<64]) ?s"
      using k(3) by (intro kfor_skip skip) simp
    moreover have "fork_area dv np k ?s = Panic ''acquire''" using k(2) by (simp add: fork_area_def mallock_def)
    ultimately have "map_fork dv np s = Panic ''acquire''" unfolding run by simp
    moreover have "maps s ! k \<in> set (maps s)" using k(1) by simp
    ultimately show ?thesis using k(2) by auto
  qed
qed

section \<open>Page faults\<close>

lemma kalloc_held: "kalloc s = Ret p t \<Longrightarrow> held t = held s"
  by (auto simp: kalloc_def kmem_acquire_def kmem_release_def lock_acquire_def lock_release_def Let_def split: if_splits)

lemma walkpgdir_held: "walkpgdir pgdir va al s = Ret p t \<Longrightarrow> held t = held s"
  by (auto simp: walkpgdir_def Let_def kres dest: kalloc_held split: if_splits)

lemma mappages_loop_held: "mappages_loop n pgdir a b pa perm s = Ret r t \<Longrightarrow> held t = held s"
proof (induction n arbitrary: a pa s)
  case (Suc n)
  then obtain p u where "walkpgdir pgdir a True s = Ret p u" by (auto simp: kres)
  moreover have "held u = held s" using walkpgdir_held calculation by blast
  ultimately show ?case using Suc.prems Suc.IH by (fastforce simp: Let_def split: if_splits)
qed simp

lemma mappages_held: "mappages pgdir va sz pa perm s = Ret r t \<Longrightarrow> held t = held s"
  unfolding mappages_def by (rule mappages_loop_held)

lemma mm_more:
  "vmst.more (t :: 'a mmst_scheme) = vmst.more s \<Longrightarrow> maps t = maps s \<and> procs t = procs s \<and> cpu_proc t = cpu_proc s \<and> ftable t = ftable s"
  by (cases s, cases t) simp

lemma keeps_mm:
  fixes s t :: "'a mmst_scheme"
  assumes "keeps s (Ret r t)"
  shows "maps t = maps s" "procs t = procs s" "cpu_proc t = cpu_proc s" "ftable t = ftable s"
  using mm_more [of t s] assms by (simp_all)

lemma uvm_ok_held: "LKmem \<notin> set h \<Longrightarrow> uvm_ok s pgdir xs \<Longrightarrow> uvm_ok (s\<lparr>held := h\<rparr>) pgdir xs"
  by (simp add: uvm_ok_def vm_ok_def free_pages_def)

text \<open>The protection bits that the handler gives to a page.\<close>

definition fault_perm :: "mmap_area \<Rightarrow> u32" where
  "fault_perm m = (if mm_prot m > 1 then 2 else 0) OR PTE_U"

text \<open>A fresh zeroed page mapped at an unmapped address, or left unmapped for lack of a page table.\<close>

lemma fault_map:
  fixes s :: "'a mmst_scheme"
  assumes uvm: "uvm_ok s pgdir (p # ys)" and a: "pg_aligned a" "\<not> present (pte_at (mem s) pgdir a)"
  shows "\<exists>s1 r t zs. zeroed_page s = Ret p s1 \<and> mappages pgdir a 4096 (V2P p) perm s1 = Ret r t \<and>
    vmst.more s1 = vmst.more s \<and> vmst.more t = vmst.more s \<and> held s1 = held s \<and> held t = held s \<and>
    vm_ok t pgdir zs \<and> set zs \<subseteq> set ys \<and> zero_page (mem t) p \<and> p \<notin> set zs \<union> pt_pages (mem t) pgdir \<and>
    changes_only (insert p (set ys \<union> pt_pages (mem s) pgdir)) (mem s) (mem t) \<and>
    (r = 0 \<and> (\<forall>x. pte_at (mem t) pgdir x = (if PGROUNDDOWN x = a then V2P p OR perm OR PTE_P else pte_at (mem s) pgdir x)) \<or>
     r = -1 \<and> zs = [] \<and> (\<forall>x. pte_at (mem t) pgdir x = pte_at (mem s) pgdir x))"
proof -
  obtain u where u: "kalloc s = Ret p u" "p \<noteq> 0" "page_ok (kend s) p" "p \<notin> pt_pages (mem s) pgdir" "p \<notin> set ys"
    "vm_ok (u\<lparr>mem := memset (mem u) p 0 4096\<rparr>) pgdir ys" "mem u = mem s" "kend u = kend s"
    "changes_only {p} (mem s) (memset (mem s) p 0 4096)" using alloc_page_ok [OF uvm] by metis
  define s1 where "s1 = u\<lparr>mem := memset (mem s) p 0 4096\<rparr>"
  have s1: "zeroed_page s = Ret p s1" "vm_ok s1 pgdir ys" "mem s1 = memset (mem s) p 0 4096" "vmst.more s1 = vmst.more s" "held s1 = held s"
    using u kalloc_held [OF u(1)] keeps_kalloc [of s] by (simp_all add: zeroed_page_def s1_def)
  have ok: "pgdir_ok (kend s) (mem s) pgdir (p # ys)" using uvm by (simp add: uvm_ok_def vm_ok_def)
  have ch: "changes_only {p} (mem s) (mem s1)" using u(9) s1(3) by simp
  have dis: "{p} \<inter> pt_pages (mem s) pgdir = {}" using u(4) by simp
  note out = pt_outside [OF ok ch dis]
  have np: "\<not> present (pte_at (mem s1) pgdir a)" using a(2) out(2) by simp
  obtain r t zs where m: "mappages pgdir a 4096 (V2P p) perm s1 = Ret r t" "pt_step s1 pgdir ys t zs"
     "r = 0 \<and> (\<forall>x. pte_at (mem t) pgdir x = (if PGROUNDDOWN x = a then V2P p OR perm OR PTE_P else pte_at (mem s) pgdir x)) \<or>
      r = -1 \<and> zs = [] \<and> (\<forall>x. pte_at (mem t) pgdir x = pte_at (mem s) pgdir x)"
    using mappages_page [OF s1(2) a(1) np, of "V2P p" perm] unfolding out(2) by blast
  have st: "vm_ok t pgdir zs" "set zs \<subseteq> set ys" "pt_pages (mem t) pgdir \<union> set zs = pt_pages (mem s) pgdir \<union> set ys"
    "changes_only (pt_pages (mem s) pgdir \<union> set ys) (mem s1) (mem t)"
    using m(2) out(4) by (simp_all add: pt_step_def)
  have z: "zero_page (mem t) p"
    using zero_page_memset [OF page_ok_aligned [OF u(3)], of "mem s"] st(4) u(4,5) unfolding zero_page_def changes_only_def s1(3) by auto
  have c: "changes_only (insert p (set ys \<union> pt_pages (mem s) pgdir)) (mem s) (mem t)"
    using ch st(4) by (rule changes_only_trans) auto
  have k: "vmst.more t = vmst.more s" "held t = held s"
    using keeps_mappages [of s1 pgdir a 4096 "V2P p" perm] mappages_held [OF m(1)] m(1) s1(4,5) by simp_all
  have "p \<notin> set zs \<union> pt_pages (mem t) pgdir" using st(3) u(4,5) by blast
  then show ?thesis using s1(1,4,5) m(1,3) k st(1,2) z c by blast
qed


section \<open>Requests for a mapping\<close>

text \<open>
  C35. \<^verbatim>\<open>mmap\<close> returns 0 and changes nothing for a misaligned address or length, a wrong protection, or a descriptor that does not fit the flags, and when the
  first address lies in an area of the process. It runs into undefined behaviour when the table of areas is full, when the descriptor
  is not an open file, and for every anonymous mapping that is not populated at once, because it then looks up descriptor -1. A
  mapping of a file that is not populated at once takes the first free area, which records the request, and sets the
  offset of the file; the area stays unused and the result is 0 exactly when the file does not allow the protection.
\<close>

theorem mmap_requests:
  fixes s :: "'a mmst_scheme"
  assumes "LMtable \<notin> set (held s)" "cpu_proc s = Some i"
  shows "if \<not> mmap_valid addr len prot flags fd offset \<or> list_ex (area_at (addr + MMAPBASE) s) (maps s)
      then mmap dv addr len prot flags fd offset s = Ret 0 s
    else case find_index (\<lambda>m. \<not> mm_using m) (maps s) of
      None \<Rightarrow> mmap dv addr len prot flags fd offset s = Fault ''mmap: null area''
    | Some k \<Rightarrow> flags AND MAP_POPULATE = 0 \<longrightarrow>
        (if flags AND MAP_ANONYMOUS \<noteq> 0 \<or> int (length (p_ofile (procs s ! i))) \<le> fd
         then mmap dv addr len prot flags fd offset s = Fault ''mmap: fd out of range''
         else case p_ofile (procs s ! i) ! nat fd of
           None \<Rightarrow> mmap dv addr len prot flags fd offset s = Fault ''null file''
         | Some f \<Rightarrow>
             let ok = prot \<le> (if f_readable (ftable s ! f) then 1 else 0) OR (if f_writable (ftable s ! f) then 2 else 0)
             in \<exists>t. mmap dv addr len prot flags fd offset s = Ret (if ok then addr + MMAPBASE else 0) t \<and> held t = held s \<and>
               maps t = (maps s)[k := \<lparr>mm_f = Some f, mm_addr = addr + MMAPBASE, mm_length = len, mm_offset = offset, mm_prot = prot,
                 mm_flags = flags, mm_p = Some i, mm_using = ok\<rparr>] \<and>
               ftable t = (ftable s)[f := (ftable s ! f)\<lparr>f_off := word_of_int offset\<rparr>])"
proof (cases "\<not> mmap_valid addr len prot flags fd offset \<or> list_ex (area_at (addr + MMAPBASE) s) (maps s)")
  case True
  have "area_at a (s\<lparr>held := h\<rparr>) = area_at a s" for a h by (simp add: area_at_def fun_eq_iff)
  then show ?thesis using True assms(1) by (auto simp: mmap_def Let_def)
next
  case False
  have ar: "area_at a (s\<lparr>held := h\<rparr>) = area_at a s" for a h by (simp add: area_at_def fun_eq_iff)
  show ?thesis
  proof (cases "find_index (\<lambda>m. \<not> mm_using m) (maps s)")
    case None
    then show ?thesis using False assms ar by (simp add: mmap_def mallock_def Let_def del: find_index_None)
  next
    case (Some k)
    note k = find_index_SomeD(1) [OF Some]
    let ?m = "(maps s ! k)\<lparr>mm_f := None, mm_addr := addr + MMAPBASE, mm_length := len, mm_prot := prot, mm_flags := flags,
                             mm_p := cpu_proc s, mm_using := True\<rparr>"
    let ?s = "s\<lparr>maps := (maps s)[k := ?m]\<rparr>"
    have run: "mmap dv addr len prot flags fd offset s = kbind (attach_file k fd offset ?s) (\<lambda>ok s.
        if ok then Ret (mm_addr (maps s ! k)) s else mmap_fail k s)" if "flags AND MAP_POPULATE = 0"
      using False assms Some ar that by (simp add: mmap_def mallock_def Let_def updm_def kbind_assoc)
    have lt: "k < length (maps s)" by (rule k)
    show ?thesis
    proof (cases "flags AND MAP_ANONYMOUS \<noteq> 0 \<or> int (length (p_ofile (procs s ! i))) \<le> fd")
      case bad: True
      then have "fd < 0 \<or> int (length (p_ofile (procs s ! i))) \<le> fd"
        using False by (auto simp: mmap_valid_def split: if_splits)
      then have "attach_file k fd offset ?s = Fault ''mmap: fd out of range''" using assms(2) by (auto simp: attach_file_def with_proc_def)
      then show ?thesis using False Some bad run by simp
    next
      case good: False
      then have fd: "0 \<le> fd" "fd < int (length (p_ofile (procs s ! i)))"
        using False by (auto simp: mmap_valid_def split: if_splits)
      show ?thesis
      proof (cases "p_ofile (procs s ! i) ! nat fd")
        case None
        then have "attach_file k fd offset ?s = Fault ''null file''"
          using fd assms(2) lt by (simp add: attach_file_def with_proc_def updm_def with_file_def)
        then show ?thesis using False Some good None run by simp
      next
        case f: (Some f)
        let ?ok = "prot \<le> (if f_readable (ftable s ! f) then 1 else 0) OR (if f_writable (ftable s ! f) then 2 else 0)"
        let ?n = "\<lparr>mm_f = Some f, mm_addr = addr + MMAPBASE, mm_length = len, mm_offset = offset, mm_prot = prot,
                 mm_flags = flags, mm_p = Some i, mm_using = True\<rparr>"
        let ?t = "s\<lparr>maps := (maps s)[k := ?n], ftable := (ftable s)[f := (ftable s ! f)\<lparr>f_off := word_of_int offset\<rparr>]\<rparr>"
        have rd: "f_readable ((ftable s)[f := (ftable s ! f)\<lparr>f_off := x\<rparr>] ! f) = f_readable (ftable s ! f)"
          "f_writable ((ftable s)[f := (ftable s ! f)\<lparr>f_off := x\<rparr>] ! f) = f_writable (ftable s ! f)" for x
          by (cases "f < length (ftable s)"; simp add: list_update_beyond)+
        have n: "?m\<lparr>mm_offset := offset, mm_f := Some f\<rparr> = ?n" using assms(2) by (cases "maps s ! k") simp
        have nf: "\<not> (fd < 0 \<or> int (length (p_ofile (procs s ! i))) \<le> fd)" using fd by linarith
        let ?u = "updm k (\<lambda>m. m\<lparr>mm_offset := offset, mm_f := p_ofile (procs ?s ! i) ! nat fd\<rparr>) ?s"
        have "procs ?s = procs s" "cpu_proc ?s = Some i" using assms(2) by simp_all
        then have "attach_file k fd offset ?s = with_file (mm_f (maps ?u ! k)) (\<lambda>f. compare_prot k (updf f (\<lambda>x. x\<lparr>f_off := word_of_int offset\<rparr>) ?u))"
          unfolding attach_file_def with_proc_def using nf by (simp only: option.case if_False Let_def)
        moreover have "?u = s\<lparr>maps := (maps s)[k := ?n]\<rparr>" unfolding n [symmetric] updm_def using lt f by simp
        moreover have "compare_prot k (updf f (\<lambda>x. x\<lparr>f_off := word_of_int offset\<rparr>) (s\<lparr>maps := (maps s)[k := ?n]\<rparr>)) = Ret ?ok ?t"
          using lt by (simp only: compare_prot_def with_file_def updf_def) (simp add: rd)
        ultimately have "attach_file k fd offset ?s = Ret ?ok ?t" using lt by (simp add: with_file_def)
        then have "mmap dv addr len prot flags fd offset s = (if ?ok then Ret (addr + MMAPBASE) ?t else mmap_fail k ?t)"
          if "flags AND MAP_POPULATE = 0" using run [OF that] lt by simp
        then have run': "flags AND MAP_POPULATE = 0 \<Longrightarrow>
            mmap dv addr len prot flags fd offset s = (if ?ok then Ret (addr + MMAPBASE) ?t else mmap_fail k ?t)" by blast
        let ?Q = "\<lambda>ok t. mmap dv addr len prot flags fd offset s = Ret (if ok then addr + MMAPBASE else 0) t \<and> held t = held s \<and>
               maps t = (maps s)[k := ?n\<lparr>mm_using := ok\<rparr>] \<and> ftable t = (ftable s)[f := (ftable s ! f)\<lparr>f_off := word_of_int offset\<rparr>]"
        have q: "\<exists>t. ?Q ?ok t" if p: "flags AND MAP_POPULATE = 0"
        proof (cases ?ok)
          case True
          then have "?Q ?ok ?t" using run' [OF p] by simp
          then show ?thesis by blast
        next
          case no: False
          then have "?Q ?ok (?t\<lparr>maps := (maps s)[k := ?n\<lparr>mm_using := False\<rparr>]\<rparr>)"
            using run' [OF p] lt by (simp add: mmap_fail_def updm_def)
          then show ?thesis by blast
        qed
        show ?thesis
          unfolding if_not_P [OF False] if_not_P [OF good] Some f option.case Let_def
          by (rule impI) (use q in simp)
      qed
    qed
  qed
qed

section \<open>An example\<close>

text \<open>A process with an empty page table, two free pages, and one anonymous, writable area of two pages.\<close>

definition mm_base :: filst where
  "mm_base = filst_ex\<lparr>mem := mem vm_ex, freelist := freelist vm_ex, kend := kend vm_ex, use_lock := True, held := [],
     cpu_proc := Some 0, procs := [(procs_ex ! 0)\<lparr>p_pgdir := pgdir_ex\<rparr>]\<rparr>"

definition area_ex :: mmap_area where
  "area_ex = \<lparr>mm_f = None, mm_addr = 0x40000000, mm_length = 8192, mm_offset = 0, mm_prot = 3, mm_flags = 3, mm_p = Some 0, mm_using = True\<rparr>"

definition no_area :: mmap_area where
  "no_area = \<lparr>mm_f = None, mm_addr = 0, mm_length = 0, mm_offset = 0, mm_prot = 0, mm_flags = 0, mm_p = None, mm_using = False\<rparr>"

definition mmst_ex :: mmst where
  "mmst_ex = filst.extend mm_base (mmst.fields (area_ex # replicate 63 no_area))"

lemma mmst_ex_simps [simp]:
  "mem mmst_ex = mem vm_ex" "freelist mmst_ex = freelist vm_ex" "kend mmst_ex = kend vm_ex" "held mmst_ex = []" "cpu_proc mmst_ex = Some 0"
  "procs mmst_ex = [(procs_ex ! 0)\<lparr>p_pgdir := pgdir_ex\<rparr>]" "maps mmst_ex = area_ex # replicate 63 no_area"
  by (simp_all add: mmst_ex_def mm_base_def filst.defs mmst.defs)

lemma uvm_ok_mmst_ex: "uvm_ok mmst_ex pgdir_ex [0x80200000, 0x80201000]"
  using uvm_ok_ex by (simp add: uvm_ok_def vm_ok_def free_pages_def vm_ex_def)

lemma page_ex: "PGROUNDDOWN 0x40001234 = (0x40001000 :: u32)"
  by (simp add: PGROUNDDOWN_def)

theorem map_fork_panics_witness: "map_fork (\<lambda>_. None) 1 mmst_ex = Panic ''acquire''"
  using map_fork_panics [of mmst_ex "\<lambda>_. None" 1] by (simp add: area_ex_def)


theorem mmap_requests_witness:
  "mmap (\<lambda>_. None) 0x4000 4096 1 1 (-1) 0 mmst_ex = Fault ''mmap: fd out of range''"
proof -
  have "mmap_valid 0x4000 4096 1 1 (-1) 0" by (simp add: mmap_valid_def)
  moreover have "\<not> list_ex (area_at 0x40004000 mmst_ex) (maps mmst_ex)" by (simp add: list_ex_iff area_at_def area_ex_def no_area_def)
  moreover have "find_index (\<lambda>m. \<not> mm_using m) (maps mmst_ex) = Some 1" by (simp add: area_ex_def no_area_def eval_nat_numeral)
  ultimately show ?thesis
    using mmap_requests [where s = mmst_ex and i = 0 and addr = "0x4000" and len = 4096 and prot = 1 and flags = 1 and fd = "-1" and offset = 0 and dv = "\<lambda>_. None"] by simp
qed

end
