(* ===== verification/Fork.thy ===== *)
theory Fork
  imports Mmap
begin

text \<open>
  The life of a process (\<^verbatim>\<open>userinit\<close>, \<^verbatim>\<open>fork\<close>, \<^verbatim>\<open>exit\<close> and \<^verbatim>\<open>forkret\<close> of \<^verbatim>\<open>proc.c\<close>), which uses memory, files and mappings. The
  trap frame of a process lies at the top of its kernel stack, in the memory of the machine. \<^verbatim>\<open>exit\<close> ends in the switch to the
  scheduler, so its outcome is \<open>Sleep\<close>.
\<close>

section \<open>State\<close>

record trst = mmst +
  first_run :: bool    \<comment> \<open>\<^verbatim>\<open>first\<close> of \<^verbatim>\<open>forkret\<close>\<close>

text \<open>Offsets in a trap frame.\<close>

abbreviation (input) TF_EAX :: u32 where "TF_EAX \<equiv> 28"
abbreviation (input) TF_ES :: u32 where "TF_ES \<equiv> 40"
abbreviation (input) TF_DS :: u32 where "TF_DS \<equiv> 44"
abbreviation (input) TF_TRAPNO :: u32 where "TF_TRAPNO \<equiv> 48"
abbreviation (input) TF_ERR :: u32 where "TF_ERR \<equiv> 52"
abbreviation (input) TF_EIP :: u32 where "TF_EIP \<equiv> 56"
abbreviation (input) TF_CS :: u32 where "TF_CS \<equiv> 60"
abbreviation (input) TF_EFLAGS :: u32 where "TF_EFLAGS \<equiv> 64"
abbreviation (input) TF_ESP :: u32 where "TF_ESP \<equiv> 68"
abbreviation (input) TF_SS :: u32 where "TF_SS \<equiv> 72"
abbreviation (input) TF_SIZE :: nat where "TF_SIZE \<equiv> 76"

definition set_tf :: "nat \<Rightarrow> u32 \<Rightarrow> u32 \<Rightarrow> 'a ptab_scheme \<Rightarrow> 'a ptab_scheme" where
  "set_tf i off v s = s\<lparr>mem := store32 (mem s) (p_tf (procs s ! i) + off) v\<rparr>"

definition set_tf16 :: "nat \<Rightarrow> u32 \<Rightarrow> u16 \<Rightarrow> 'a ptab_scheme \<Rightarrow> 'a ptab_scheme" where
  "set_tf16 i off v s = s\<lparr>mem := store_bytes (mem s) (p_tf (procs s ! i) + off) (bytes16 v)\<rparr>"

section \<open>The first process\<close>

text \<open>The segment selectors of user code and data.\<close>

definition user_cs :: u16 where "user_cs = push_bit 3 3 OR 3"
definition user_ds :: u16 where "user_ds = push_bit 3 4 OR 3"

definition userinit_tf :: "nat \<Rightarrow> 'a ptab_scheme \<Rightarrow> 'a ptab_scheme" where
  "userinit_tf i s =
     (let s = s\<lparr>mem := memset (mem s) (p_tf (procs s ! i)) 0 TF_SIZE\<rparr>;
          s = set_tf16 i TF_CS user_cs s;
          s = set_tf16 i TF_DS user_ds s;
          s = set_tf16 i TF_ES user_ds s;
          s = set_tf16 i TF_SS user_ds s;
          s = set_tf i TF_EFLAGS 0x200 s;
          s = set_tf i TF_ESP PGSIZE s
      in set_tf i TF_EIP 0 s)"

text \<open>\<open>start\<close> and \<open>sz\<close> are the linker's symbols of \<^verbatim>\<open>initcode\<close>.\<close>

definition userinit :: "u32 \<Rightarrow> u32 \<Rightarrow> 'a mmst_scheme \<Rightarrow> (unit, 'a mmst_scheme) res" where
  "userinit start sz s =
     kbind (allocproc s) (\<lambda>r s.
       case r of
         None \<Rightarrow> Fault ''userinit: null process''
       | Some i \<Rightarrow>
           kbind (setupkvm (s\<lparr>initproc := Some i\<rparr>)) (\<lambda>pgdir s.
             let s = updp i (\<lambda>p. p\<lparr>p_pgdir := pgdir\<rparr>) s
             in if pgdir = 0 then Panic ''userinit: out of memory?''
                else kbind (inituvm pgdir start sz s) (\<lambda>_ s.
                  let s = userinit_tf i (updp i (\<lambda>p. p\<lparr>p_sz := PGSIZE\<rparr>) s);
                      s = updp i (\<lambda>p. p\<lparr>p_name := ''initcode''\<rparr>) s
                  in kbind (namei [slash] s) (\<lambda>ip s.
                     kbind (lock_acquire LPtable (updp i (\<lambda>p. p\<lparr>p_cwd := ip\<rparr>) s)) (\<lambda>_ s.
                     lock_release LPtable (updp i (\<lambda>p. p\<lparr>p_state := RUNNABLE\<rparr>) s))))))"

section \<open>fork\<close>

definition fork_fail :: "nat \<Rightarrow> 'a mmst_scheme \<Rightarrow> (int, 'a mmst_scheme) res" where
  "fork_fail np s =
     kbind (kfree (p_kstack (procs s ! np)) s) (\<lambda>_ s.
       Ret (-1) (updp np (\<lambda>p. p\<lparr>p_kstack := 0, p_state := UNUSED\<rparr>) s))"

text \<open>What the child takes over from its parent \<open>me\<close>, up to the trap frame with \<^verbatim>\<open>eax\<close> 0.\<close>

definition inherit :: "nat \<Rightarrow> proc \<Rightarrow> proc \<Rightarrow> proc" where
  "inherit me c p = p\<lparr>p_sz := p_sz c, p_parent := Some me, p_vruntime_high := p_vruntime_high c, p_vruntime_low := p_vruntime_low c,
     p_aruntime := 0, p_aruntime_prev := 0, p_nice := p_nice c, p_weight := p_weight c\<rparr>"

definition fork_copy :: "nat \<Rightarrow> nat \<Rightarrow> 'a mmst_scheme \<Rightarrow> 'a mmst_scheme" where
  "fork_copy me np s =
     (let s = updp np (inherit me (procs s ! me)) s;
          s = s\<lparr>mem := memmove (mem s) (p_tf (procs s ! np)) (p_tf (procs s ! me)) TF_SIZE\<rparr>
      in set_tf np TF_EAX 0 s)"

definition fork_file :: "nat \<Rightarrow> nat \<Rightarrow> nat \<Rightarrow> 'a mmst_scheme \<Rightarrow> (unit, 'a mmst_scheme) res" where
  "fork_file me np i s =
     (case p_ofile (procs s ! me) ! i of
        None \<Rightarrow> Ret () s
      | Some f \<Rightarrow> kbind (filedup f s) (\<lambda>f s. Ret () (updp np (\<lambda>p. p\<lparr>p_ofile := (p_ofile p)[i := Some f]\<rparr>) s)))"

definition fork_dirs :: "nat \<Rightarrow> nat \<Rightarrow> 'a mmst_scheme \<Rightarrow> (unit, 'a mmst_scheme) res" where
  "fork_dirs me np s =
     kbind (kfor (fork_file me np) [0..<16] s) (\<lambda>_ s.
     kbind (with_ip (p_cwd (procs s ! me)) (\<lambda>ip. idup ip s)) (\<lambda>ip s.
       Ret () (updp np (\<lambda>p. p\<lparr>p_cwd := Some ip, p_name := p_name (procs s ! me)\<rparr>) s)))"

definition fork :: "'a mmst_scheme devread \<Rightarrow> 'a mmst_scheme \<Rightarrow> (int, 'a mmst_scheme) res" where
  "fork dv s =
     kbind (allocproc s) (\<lambda>r s.
       case r of
         None \<Rightarrow> Ret (-1) s
       | Some np \<Rightarrow>
           with_proc s (\<lambda>me.
           kbind (copyuvm (p_pgdir (procs s ! me)) (p_sz (procs s ! me)) s) (\<lambda>d s.
             let s = updp np (\<lambda>p. p\<lparr>p_pgdir := d\<rparr>) s
             in if d = 0 then fork_fail np s
                else kbind (fork_dirs me np (fork_copy me np s)) (\<lambda>_ s.
                  let pid = p_pid (procs s ! np)
                  in kbind (lock_acquire LPtable s) (\<lambda>_ s.
                     kbind (lock_release LPtable (updp np (\<lambda>p. p\<lparr>p_state := RUNNABLE\<rparr>) s)) (\<lambda>_ s.
                     kbind (map_fork dv np s) (\<lambda>_ s. Ret pid s)))))))"

section \<open>exit\<close>

definition chan_of :: "nat option \<Rightarrow> chan" where
  "chan_of p = (case p of None \<Rightarrow> ChNull | Some i \<Rightarrow> ChProc i)"

definition exit_file :: "nat \<Rightarrow> nat \<Rightarrow> 'a filst_scheme \<Rightarrow> (unit, 'a filst_scheme) res" where
  "exit_file me fd s =
     (case p_ofile (procs s ! me) ! fd of
        None \<Rightarrow> Ret () s
      | Some f \<Rightarrow> kbind (fileclose f s) (\<lambda>_ s. Ret () (updp me (\<lambda>p. p\<lparr>p_ofile := (p_ofile p)[fd := None]\<rparr>) s)))"

definition exit_child :: "nat \<Rightarrow> nat \<Rightarrow> 'a ptab_scheme \<Rightarrow> (unit, 'a ptab_scheme) res" where
  "exit_child me i s =
     (if p_parent (procs s ! i) = Some me
      then let s = updp i (\<lambda>p. p\<lparr>p_parent := initproc s\<rparr>) s
           in if p_state (procs s ! i) = ZOMBIE then wakeup1 (chan_of (initproc s)) s else Ret () s
      else Ret () s)"

text \<open>From the lock of the process table to the scheduler.\<close>

definition exit_switch :: "nat \<Rightarrow> 'a ptab_scheme \<Rightarrow> ('r, 'a ptab_scheme) res" where
  "exit_switch me s =
     kbind (lock_acquire LPtable s) (\<lambda>_ s.
     kbind (wakeup1 (chan_of (p_parent (procs s ! me))) s) (\<lambda>_ s.
     kbind (kfor (exit_child me) [0..<64] s) (\<lambda>_ s.
     kbind (sched (updp me (\<lambda>p. p\<lparr>p_state := ZOMBIE\<rparr>) s)) (\<lambda>_ s. Sleep ChNull s))))"

definition exit :: "'a filst_scheme \<Rightarrow> ('r, 'a filst_scheme) res" where
  "exit s =
     (if cpu_proc s = initproc s then Panic ''init exiting''
      else with_proc s (\<lambda>me.
        kbind (kfor (exit_file me) [0..<16] s) (\<lambda>_ s.
        kbind (begin_op s) (\<lambda>_ s.
        kbind (with_ip (p_cwd (procs s ! me)) (\<lambda>ip. iput ip s)) (\<lambda>_ s.
        kbind (end_op s) (\<lambda>_ s.
        exit_switch me (updp me (\<lambda>p. p\<lparr>p_cwd := None\<rparr>) s)))))))"

text \<open>If the scheduler switched back to an exited process.\<close>

definition exit_resume :: "'s \<Rightarrow> (unit, 's) res" where
  "exit_resume s = Panic ''zombie exit''"

section \<open>The first steps of a child\<close>

definition forkret :: "'a trst_scheme \<Rightarrow> (unit, 'a trst_scheme) res" where
  "forkret s =
     kbind (lock_release LPtable s) (\<lambda>_ s.
       if first_run s then kbind (iinit ROOTDEV (s\<lparr>first_run := False\<rparr>)) (\<lambda>_ s. initlog ROOTDEV s) else Ret () s)"

section \<open>What exit does\<close>

text \<open>Everything of a process but its parent, its state and its virtual runtime.\<close>

definition frame :: "proc \<Rightarrow> proc" where
  "frame p = p\<lparr>p_parent := None, p_state := UNUSED, p_vruntime_high := 0, p_vruntime_low := 0\<rparr>"

lemma wake_proc_shape: "\<exists>h l. wake_proc m p = p\<lparr>p_state := RUNNABLE, p_vruntime_high := h, p_vruntime_low := l\<rparr>"
  unfolding wake_proc_def Let_def case_prod_beta by (rule exI, rule exI, rule refl)

lemma frame_simps [simp]:
  "frame (p\<lparr>p_parent := a\<rparr>) = frame p" "frame (p\<lparr>p_state := b\<rparr>) = frame p" "frame (wake_proc m p) = frame p"
  "p_parent (wake_proc m p) = p_parent p" "p_weight (frame p) = p_weight p" "p_chan (frame p) = p_chan p"
proof -
  obtain h l where w: "wake_proc m p = p\<lparr>p_state := RUNNABLE, p_vruntime_high := h, p_vruntime_low := l\<rparr>" using wake_proc_shape by blast
  show "frame (wake_proc m p) = frame p" "p_parent (wake_proc m p) = p_parent p" unfolding w by (simp_all add: frame_def)
qed (simp_all add: frame_def)

lemma frame_weight: "frame p = frame q \<Longrightarrow> p_weight p = p_weight q \<and> p_chan p = p_chan q"
  using frame_simps(5,6) by metis

lemma wakeup1_Ret:
  assumes "\<forall>p\<in>set (procs s). sleeps_on c p \<longrightarrow> p_weight p \<noteq> 0"
  shows "wakeup1 c s = Ret () (s\<lparr>procs := woken c (procs s)\<rparr>)"
  using assms by (auto simp: wakeup1_def woken_def Let_def)

lemma woken_fields:
  assumes "j < length ps"
  shows "frame (woken c ps ! j) = frame (ps ! j)" "p_parent (woken c ps ! j) = p_parent (ps ! j)"
    "p_state (woken c ps ! j) = (if sleeps_on c (ps ! j) then RUNNABLE else p_state (ps ! j))"
  using assms by (simp_all add: nth_woken)


lemma set_parent_nth [simp]:
  assumes "k < length ps"
  shows "p_state (ps[k := (ps ! k)\<lparr>p_parent := r\<rparr>] ! j) = p_state (ps ! j)" "p_chan (ps[k := (ps ! k)\<lparr>p_parent := r\<rparr>] ! j) = p_chan (ps ! j)"
    "frame (ps[k := (ps ! k)\<lparr>p_parent := r\<rparr>] ! j) = frame (ps ! j)"
    "p_parent (ps[k := (ps ! k)\<lparr>p_parent := r\<rparr>] ! j) = (if j = k then r else p_parent (ps ! j))"
  using assms by (cases "j = k"; simp)+

text \<open>The state of a process after the children up to slot \<open>k\<close> have been handed over.\<close>

definition zombie_child :: "nat \<Rightarrow> proc \<Rightarrow> bool" where
  "zombie_child me p \<longleftrightarrow> p_parent p = Some me \<and> p_state p = ZOMBIE"

definition handed :: "nat \<Rightarrow> nat option \<Rightarrow> proc list \<Rightarrow> nat \<Rightarrow> proc list \<Rightarrow> bool" where
  "handed me r ps k qs \<longleftrightarrow> length qs = length ps \<and> (\<forall>j<length ps. frame (qs ! j) = frame (ps ! j) \<and>
     p_parent (qs ! j) = (if j < k \<and> p_parent (ps ! j) = Some me then r else p_parent (ps ! j)) \<and>
     p_state (qs ! j) = (if sleeps_on (chan_of r) (ps ! j) \<and> (\<exists>i<k. zombie_child me (ps ! i)) then RUNNABLE else p_state (ps ! j)))"

lemma exit_children:
  assumes "\<forall>p\<in>set (procs s). p_state p = SLEEPING \<longrightarrow> p_weight p \<noteq> 0" "k \<le> length (procs s)"
  shows "\<exists>qs. kfor (exit_child me) [0..<k] s = Ret () (s\<lparr>procs := qs\<rparr>) \<and> handed me (initproc s) (procs s) k qs"
  using assms(2)
proof (induction k)
  case 0
  then show ?case by (intro exI [of _ "procs s"]) (simp add: handed_def)
next
  case (Suc k)
  let ?r = "initproc s" and ?ps = "procs s"
  obtain qs where qs: "kfor (exit_child me) [0..<k] s = Ret () (s\<lparr>procs := qs\<rparr>)" "handed me ?r ?ps k qs"
    using Suc by auto
  have k: "k < length ?ps" using Suc(2) by simp
  have q: "length qs = length ?ps" "\<And>j. j < length ?ps \<Longrightarrow> frame (qs ! j) = frame (?ps ! j)"
    "\<And>j. j < length ?ps \<Longrightarrow> p_parent (qs ! j) = (if j < k \<and> p_parent (?ps ! j) = Some me then ?r else p_parent (?ps ! j))"
    "\<And>j. j < length ?ps \<Longrightarrow> p_state (qs ! j) = (if sleeps_on (chan_of ?r) (?ps ! j) \<and> (\<exists>i<k. zombie_child me (?ps ! i)) then RUNNABLE else p_state (?ps ! j))"
    using qs(2) by (auto simp: handed_def)
  let ?t = "s\<lparr>procs := qs\<rparr>"
  let ?qs = "qs[k := (qs ! k)\<lparr>p_parent := ?r\<rparr>]"
  have z: "zombie_child me (?ps ! k) \<longleftrightarrow> p_parent (qs ! k) = Some me \<and> p_state (qs ! k) = ZOMBIE"
    using q(3,4) [OF k] by (auto simp: zombie_child_def sleeps_on_def)
  have sl: "sleeps_on (chan_of ?r) (?qs ! j) \<longleftrightarrow> sleeps_on (chan_of ?r) (?ps ! j) \<and> \<not> (\<exists>i<k. zombie_child me (?ps ! i))" if "j < length ?ps" for j
    using frame_weight [OF q(2) [OF that]] q(1) q(4) [OF that] that k by (auto simp: sleeps_on_def)
  have split: "(\<exists>i<Suc k. zombie_child me (?ps ! i)) \<longleftrightarrow> (\<exists>i<k. zombie_child me (?ps ! i)) \<or> zombie_child me (?ps ! k)"
    by (auto simp: less_Suc_eq)
  show ?case
  proof (cases "p_parent (qs ! k) = Some me")
    case False
    then have "kfor (exit_child me) [0..<Suc k] s = Ret () ?t"
      using qs(1) by (simp add: kfor_append exit_child_def)
    moreover have "p_parent (?ps ! k) \<noteq> Some me" using False q(3) [OF k] by simp
    moreover have "\<not> zombie_child me (?ps ! k)" using False z by simp
    ultimately show ?thesis using q split by (intro exI [of _ qs]) (auto simp: handed_def less_Suc_eq)
  next
    case True
    have par: "p_parent (?ps ! k) = Some me" using True q(3) [OF k] by simp
    show ?thesis
    proof (cases "p_state (qs ! k) = ZOMBIE")
      case False
      then have "kfor (exit_child me) [0..<Suc k] s = Ret () (s\<lparr>procs := ?qs\<rparr>)"
        using qs(1) True k q(1) by (simp add: kfor_append exit_child_def updp_def Let_def)
      moreover have "\<not> zombie_child me (?ps ! k)" using False z by simp
      ultimately show ?thesis using q split par k by (intro exI [of _ ?qs]) (auto simp: handed_def less_Suc_eq)
    next
      case zom: True
      have w: "\<forall>p\<in>set ?qs. sleeps_on (chan_of ?r) p \<longrightarrow> p_weight p \<noteq> 0"
      proof (intro ballI impI)
        fix p assume p: "p \<in> set ?qs" "sleeps_on (chan_of ?r) p"
        then obtain j where j: "j < length ?ps" "p = ?qs ! j" using q(1) by (auto simp: in_set_conv_nth)
        then have "frame p = frame (?ps ! j)" using q(1,2) k by auto
        moreover have "p_state (?ps ! j) = SLEEPING" using sl [OF j(1)] p(2) j(2) by (simp add: sleeps_on_def)
        ultimately show "p_weight p \<noteq> 0" using assms(1) j(1) frame_weight by (metis nth_mem)
      qed
      have "kfor (exit_child me) [0..<Suc k] s = Ret () (s\<lparr>procs := woken (chan_of ?r) ?qs\<rparr>)"
        using qs(1) True zom k q(1) wakeup1_Ret [of "s\<lparr>procs := ?qs\<rparr>" "chan_of ?r"] w
        by (simp add: kfor_append exit_child_def updp_def Let_def)
      moreover have "handed me ?r ?ps (Suc k) (woken (chan_of ?r) ?qs)"
        unfolding handed_def
      proof (intro conjI allI impI)
        fix j assume j: "j < length ?ps"
        then have jq: "j < length ?qs" using q(1) by simp
        note wf = woken_fields [OF jq, of "chan_of ?r"]
        show "frame (woken (chan_of ?r) ?qs ! j) = frame (?ps ! j)" using wf(1) q(1,2) j k by auto
        show "p_parent (woken (chan_of ?r) ?qs ! j) = (if j < Suc k \<and> p_parent (?ps ! j) = Some me then ?r else p_parent (?ps ! j))"
          using wf(2) q(1,3) j k par by (auto simp: less_Suc_eq)
        show "p_state (woken (chan_of ?r) ?qs ! j) = (if sleeps_on (chan_of ?r) (?ps ! j) \<and> (\<exists>i<Suc k. zombie_child me (?ps ! i)) then RUNNABLE else p_state (?ps ! j))"
          using wf(3) q(1) q(4) [OF j] j sl [OF j] split z True zom k by (auto simp: sleeps_on_def)
      qed (simp add: q(1))
      ultimately show ?thesis by blast
    qed
  qed
qed


text \<open>
  C33. An exiting process switches to the scheduler, holding the process table's lock and nothing else, as a zombie that no process has as its parent any more: all
  its children now belong to the first process. Its own parent is woken if it waits, and so is the first process if it waits and was handed a zombie.
  Nothing else of any process changes but the virtual runtime of those woken.
\<close>

theorem exit_switch_spec:
  fixes s :: "'a ptab_scheme"
  assumes "ptab_ok s" "cpu_proc s = Some me" "held s = []" "initproc s = Some r" "me \<noteq> r"
  shows "\<exists>t. (exit_switch me s :: (int, 'a ptab_scheme) res) = Sleep ChNull t \<and> held t = [LPtable] \<and> p_state (procs t ! me) = ZOMBIE \<and>
    (\<forall>j<64. p_parent (procs t ! j) \<noteq> Some me) \<and>
    (\<forall>j<64. frame (procs t ! j) = frame (procs s ! j) \<and>
       p_parent (procs t ! j) = (if p_parent (procs s ! j) = Some me then Some r else p_parent (procs s ! j)) \<and>
       (j \<noteq> me \<longrightarrow> p_state (procs t ! j) =
          (if sleeps_on (chan_of (p_parent (procs s ! me))) (procs s ! j) \<or>
              sleeps_on (ChProc r) (procs s ! j) \<and> (\<exists>i<64. zombie_child me (procs s ! i))
           then RUNNABLE else p_state (procs s ! j))))"
proof -
  let ?c = "chan_of (p_parent (procs s ! me))" and ?s = "s\<lparr>held := [LPtable]\<rparr>"
  have len: "length (procs s) = 64" and me: "me < 64" using assms(1,2) by (auto simp: ptab_ok_def procs_ok_def)
  have w: "\<forall>p\<in>set (procs s). p_state p = SLEEPING \<longrightarrow> p_weight p \<noteq> 0" using ptab_ok_weight [OF assms(1)] by force
  then have 1: "wakeup1 ?c ?s = Ret () (?s\<lparr>procs := woken ?c (procs s)\<rparr>)"
    using wakeup1_Ret [of ?s ?c] by (auto simp: sleeps_on_def)
  let ?t = "?s\<lparr>procs := woken ?c (procs s)\<rparr>"
  have wf: "frame (woken ?c (procs s) ! j) = frame (procs s ! j)" "p_parent (woken ?c (procs s) ! j) = p_parent (procs s ! j)"
    "p_state (woken ?c (procs s) ! j) = (if sleeps_on ?c (procs s ! j) then RUNNABLE else p_state (procs s ! j))" if "j < 64" for j
    using woken_fields [of j "procs s" ?c] that len by simp_all
  have "\<forall>p\<in>set (procs ?t). p_state p = SLEEPING \<longrightarrow> p_weight p \<noteq> 0"
    using w by (auto simp: woken_def split: if_splits)
  from exit_children [OF this, of 64 me] len
  obtain qs where qs: "kfor (exit_child me) [0..<64] ?t = Ret () (?t\<lparr>procs := qs\<rparr>)" "handed me (Some r) (woken ?c (procs s)) 64 qs"
    using assms(4) by auto
  have q: "length qs = 64" "frame (qs ! j) = frame (procs s ! j)"
    "p_parent (qs ! j) = (if p_parent (procs s ! j) = Some me then Some r else p_parent (procs s ! j))"
    "p_state (qs ! j) = (if sleeps_on (ChProc r) (woken ?c (procs s) ! j) \<and> (\<exists>i<64. zombie_child me (woken ?c (procs s) ! i)) then RUNNABLE
       else p_state (woken ?c (procs s) ! j))" if "j < 64" for j
    using qs(2) that len wf by (auto simp: handed_def chan_of_def)
  have ch: "p_chan (woken ?c (procs s) ! j) = p_chan (procs s ! j)" if "j < 64" for j using wf(1) [OF that] frame_weight by blast
  have z: "zombie_child me (woken ?c (procs s) ! i) \<longleftrightarrow> zombie_child me (procs s ! i)" if "i < 64" for i
    using wf [OF that] by (auto simp: zombie_child_def sleeps_on_def)
  let ?qs = "qs[me := (qs ! me)\<lparr>p_state := ZOMBIE\<rparr>]"
  have l: "length qs = 64" using q(1) [of 0] by simp
  have run: "(exit_switch me s :: (int, 'a ptab_scheme) res) = Sleep ChNull (s\<lparr>held := [LPtable], procs := ?qs\<rparr>)"
    using assms(2,3) 1 qs(1) me l by (simp add: exit_switch_def updp_def sched_def)
  have par: "p_parent (?qs ! j) = p_parent (qs ! j)" "frame (?qs ! j) = frame (qs ! j)" for j
    using me l by (cases "j = me"; simp)+
  show ?thesis
  proof (rule exI [of _ "s\<lparr>held := [LPtable], procs := ?qs\<rparr>"], intro conjI allI impI)
    fix j :: nat assume j: "j < 64"
    show "p_parent (procs (s\<lparr>held := [LPtable], procs := ?qs\<rparr>) ! j) \<noteq> Some me" using q(3) [OF j] assms(5) by (simp add: par)
    show "p_parent (procs (s\<lparr>held := [LPtable], procs := ?qs\<rparr>) ! j) = (if p_parent (procs s ! j) = Some me then Some r else p_parent (procs s ! j))"
      "frame (procs (s\<lparr>held := [LPtable], procs := ?qs\<rparr>) ! j) = frame (procs s ! j)" using q(2,3) [OF j] by (simp_all add: par)
    have "(\<exists>i<64. zombie_child me (woken ?c (procs s) ! i)) \<longleftrightarrow> (\<exists>i<64. zombie_child me (procs s ! i))" using z by blast
    then have "p_state (qs ! j) = (if sleeps_on ?c (procs s ! j) \<or> sleeps_on (ChProc r) (procs s ! j) \<and> (\<exists>i<64. zombie_child me (procs s ! i))
           then RUNNABLE else p_state (procs s ! j))"
      using q(4) [OF j] wf(3) [OF j] ch [OF j] by (auto simp: sleeps_on_def)
    then show "p_state (procs (s\<lparr>held := [LPtable], procs := ?qs\<rparr>) ! j) =
          (if sleeps_on ?c (procs s ! j) \<or> sleeps_on (ChProc r) (procs s ! j) \<and> (\<exists>i<64. zombie_child me (procs s ! i))
           then RUNNABLE else p_state (procs s ! j))" if "j \<noteq> me" using that by simp
  qed (use run me l in simp_all)
qed


theorem exit_switch_spec_witness:
  "\<exists>t. (exit_switch 1 (ptab_ex\<lparr>cpu_proc := Some 1\<rparr>) :: (int, ptab) res) = Sleep ChNull t \<and> p_state (procs t ! 1) = ZOMBIE"
proof -
  have "ptab_ok (ptab_ex\<lparr>cpu_proc := Some 1\<rparr>)" using ptab_ok_ex by (simp add: ptab_ok_def ptab_ex_def procs_ex_nth)
  moreover have "held ptab_ex = []" "initproc ptab_ex = Some 0" by (simp_all add: ptab_ex_def)
  ultimately show ?thesis using exit_switch_spec [of "ptab_ex\<lparr>cpu_proc := Some 1\<rparr>" 1 0] by auto
qed

section \<open>What a child gets\<close>

text \<open>The descriptors of a child, and the references a process holds to a file through the descriptors in \<open>xs\<close>.\<close>

definition child_files :: "nat option list \<Rightarrow> nat option list \<Rightarrow> nat \<Rightarrow> nat option list" where
  "child_files ps cs k = map (\<lambda>i. if i < k \<and> ps ! i \<noteq> None then ps ! i else cs ! i) [0..<length cs]"

definition refs :: "nat option list \<Rightarrow> nat \<Rightarrow> int" where
  "refs xs f = int (length (filter (\<lambda>x. x = Some f) xs))"

lemma fork_files:
  fixes s :: "'a mmst_scheme"
  assumes "me \<noteq> np" "np < length (procs s)" "LFtable \<notin> set (held s)" "length (p_ofile (procs s ! me)) = 16" "length (p_ofile (procs s ! np)) = 16"
    "\<forall>fd<16. \<forall>f. p_ofile (procs s ! me) ! fd = Some f \<longrightarrow> f < length (ftable s) \<and> 1 \<le> f_ref (ftable s ! f)"
  defines "ps \<equiv> p_ofile (procs s ! me)" and "cs \<equiv> p_ofile (procs s ! np)"
  shows "k \<le> 16 \<Longrightarrow> \<exists>ft. kfor (fork_file me np) [0..<k] s =
      Ret () (s\<lparr>procs := (procs s)[np := (procs s ! np)\<lparr>p_ofile := child_files ps cs k\<rparr>], ftable := ft\<rparr>) \<and>
    length ft = length (ftable s) \<and> (\<forall>f<length (ftable s). ft ! f = (ftable s ! f)\<lparr>f_ref := f_ref (ftable s ! f) + refs (take k ps) f\<rparr>)"
proof (induction k)
  case 0
  have "child_files ps cs 0 = cs" by (simp add: child_files_def map_nth)
  then show ?case by (intro exI [of _ "ftable s"]) (simp add: cs_def refs_def)
next
  case (Suc k)
  then obtain ft where ft: "kfor (fork_file me np) [0..<k] s =
      Ret () (s\<lparr>procs := (procs s)[np := (procs s ! np)\<lparr>p_ofile := child_files ps cs k\<rparr>], ftable := ft\<rparr>)"
    "length ft = length (ftable s)" "\<And>f. f < length (ftable s) \<Longrightarrow> ft ! f = (ftable s ! f)\<lparr>f_ref := f_ref (ftable s ! f) + refs (take k ps) f\<rparr>"
    by auto
  let ?t = "s\<lparr>procs := (procs s)[np := (procs s ! np)\<lparr>p_ofile := child_files ps cs k\<rparr>], ftable := ft\<rparr>"
  have k: "k < 16" using Suc by simp
  have len: "length ps = 16" "length cs = 16" using assms(4,5) by (simp_all add: ps_def cs_def)
  have tk: "take (Suc k) ps = take k ps @ [ps ! k]" using k len by (simp add: take_Suc_conv_app_nth)
  have po: "p_ofile (procs ?t ! me) = ps" using assms(1) by (simp add: ps_def)
  show ?case
  proof (cases "ps ! k")
    case None
    have "child_files ps cs (Suc k) = child_files ps cs k"
      unfolding child_files_def by (rule map_cong [OF refl]) (use None in \<open>auto simp: less_Suc_eq\<close>)
    moreover have "refs (take (Suc k) ps) f = refs (take k ps) f" for f using None by (simp add: refs_def tk)
    moreover have "fork_file me np k ?t = Ret () ?t" using None po by (simp add: fork_file_def)
    ultimately show ?thesis using ft by (intro exI [of _ ft]) (simp add: kfor_append)
  next
    case (Some f)
    have f: "f < length (ftable s)" "1 \<le> f_ref (ftable s ! f)" using assms(6) Some k by (auto simp: ps_def)
    have "0 \<le> refs (take k ps) f" by (simp add: refs_def)
    then have r: "\<not> f_ref (ft ! f) < 1" using ft(3) [OF f(1)] f(2) by simp
    let ?ft = "ft[f := (ft ! f)\<lparr>f_ref := f_ref (ft ! f) + 1\<rparr>]"
    have cf: "(child_files ps cs k)[k := Some f] = child_files ps cs (Suc k)"
      using k len Some by (intro nth_equalityI) (auto simp: child_files_def nth_list_update less_Suc_eq)
    have "fork_file me np k ?t = Ret () (s\<lparr>procs := (procs s)[np := (procs s ! np)\<lparr>p_ofile := child_files ps cs (Suc k)\<rparr>], ftable := ?ft\<rparr>)"
      using Some po r assms(2,3) cf by (simp add: fork_file_def filedup_def updf_def updp_def)
    moreover have "?ft ! g = (ftable s ! g)\<lparr>f_ref := f_ref (ftable s ! g) + refs (take (Suc k) ps) g\<rparr>" if "g < length (ftable s)" for g
      using ft(3) [OF that] ft(2) that Some by (cases "g = f") (simp_all add: refs_def tk)
    ultimately show ?thesis using ft(1,2) by (intro exI [of _ ?ft]) (simp add: kfor_append)
  qed
qed




text \<open>A parent with one open file next to a new child.\<close>

definition fork_ex :: mmst where
  "fork_ex = mmst_ex\<lparr>procs := [unused_proc\<lparr>p_pid := 1, p_ofile := Some 0 # replicate 15 None, p_cwd := Some 0, p_tf := 0x80300fb4\<rparr>,
       unused_proc\<lparr>p_pid := 2, p_tf := 0x80301fb4\<rparr>],
     ftable := [\<lparr>f_type = FD_INODE, f_ref = 1, f_readable = True, f_writable = True, f_pipe = 0, f_ip = Some 0, f_off = 0\<rparr>],
     inodes := [inode_ex]\<rparr>"


end
