(* ===== verification/Exec.thy ===== *)
theory Exec
  imports Fork
begin

text \<open>
  Access to the memory of the running process (\<^verbatim>\<open>fetchint\<close> to \<^verbatim>\<open>argstr\<close> of \<^verbatim>\<open>syscall.c\<close>) and \<^verbatim>\<open>exec\<close> (\<^verbatim>\<open>exec.c\<close>, \<^verbatim>\<open>elf.h\<close>). The kernel reads and
  writes user addresses through the page table in \<^verbatim>\<open>cr3\<close>; a byte that is not mapped is a page fault in the kernel, which is an outcome
  \<open>Fault\<close> here. A string argument is the list of its bytes.
\<close>

section \<open>User memory\<close>

definition user_byte :: "u32 \<Rightarrow> 'a vmst_scheme \<Rightarrow> (u8, 'a vmst_scheme) res" where
  "user_byte a s =
     (if present (pte_at (mem s) (P2V (cr3 s)) a) then Ret (mem s (uaddr (mem s) (P2V (cr3 s)) a)) s
      else Fault ''page fault in the kernel'')"

primrec user_bytes :: "nat \<Rightarrow> u32 \<Rightarrow> 'a vmst_scheme \<Rightarrow> (u8 list, 'a vmst_scheme) res" where
  "user_bytes 0 a s = Ret [] s"
| "user_bytes (Suc n) a s = kbind (user_byte a s) (\<lambda>c s. kbind (user_bytes n (a + 1) s) (\<lambda>cs s. Ret (c # cs) s))"

primrec user_store :: "u32 \<Rightarrow> u8 list \<Rightarrow> 'a vmst_scheme \<Rightarrow> (unit, 'a vmst_scheme) res" where
  "user_store a [] s = Ret () s"
| "user_store a (c # cs) s =
     (let e = pte_at (mem s) (P2V (cr3 s)) a
      in if present e \<and> e AND PTE_W \<noteq> 0
         then user_store (a + 1) cs (s\<lparr>mem := (mem s)(uaddr (mem s) (P2V (cr3 s)) a := c)\<rparr>)
         else Fault ''page fault in the kernel'')"

section \<open>Arguments of system calls\<close>

text \<open>\<open>None\<close> is the result -1, with nothing stored.\<close>

definition fetchint :: "u32 \<Rightarrow> 'a ptab_scheme \<Rightarrow> (u32 option, 'a ptab_scheme) res" where
  "fetchint addr s =
     with_proc s (\<lambda>p.
       let sz = p_sz (procs s ! p)
       in if addr \<ge> sz \<or> addr + 4 > sz then Ret None s
          else kbind (user_bytes 4 addr s) (\<lambda>bs s. Ret (Some (get32 bs 0)) s))"

primrec fetchstr_loop :: "nat \<Rightarrow> u32 \<Rightarrow> 'a ptab_scheme \<Rightarrow> (u8 list option, 'a ptab_scheme) res" where
  "fetchstr_loop 0 a s = Ret None s"
| "fetchstr_loop (Suc n) a s =
     kbind (user_byte a s) (\<lambda>c s.
       if c = 0 then Ret (Some []) s
       else kbind (fetchstr_loop n (a + 1) s) (\<lambda>r s. Ret (map_option (Cons c) r) s))"

definition fetchstr :: "u32 \<Rightarrow> 'a ptab_scheme \<Rightarrow> (u8 list option, 'a ptab_scheme) res" where
  "fetchstr addr s =
     with_proc s (\<lambda>p.
       let sz = p_sz (procs s ! p)
       in if addr \<ge> sz then Ret None s else fetchstr_loop (unat (sz - addr)) addr s)"

definition argint :: "nat \<Rightarrow> 'a ptab_scheme \<Rightarrow> (u32 option, 'a ptab_scheme) res" where
  "argint n s = with_proc s (\<lambda>p. fetchint (load32 (mem s) (p_tf (procs s ! p) + TF_ESP) + 4 + 4 * of_nat n) s)"

definition argptr :: "nat \<Rightarrow> int \<Rightarrow> 'a ptab_scheme \<Rightarrow> (u32 option, 'a ptab_scheme) res" where
  "argptr n sz s =
     kbind (argint n s) (\<lambda>r s.
       case r of
         None \<Rightarrow> Ret None s
       | Some i \<Rightarrow>
           with_proc s (\<lambda>p.
             if sz < 0 \<or> i \<ge> p_sz (procs s ! p) \<or> i + word_of_int sz > p_sz (procs s ! p) then Ret None s else Ret (Some i) s))"

definition argstr :: "nat \<Rightarrow> 'a ptab_scheme \<Rightarrow> (u8 list option, 'a ptab_scheme) res" where
  "argstr n s = kbind (argint n s) (\<lambda>r s. case r of None \<Rightarrow> Ret None s | Some addr \<Rightarrow> fetchstr addr s)"

section \<open>exec\<close>

definition ELF_MAGIC :: u32 where "ELF_MAGIC = 0x464C457F"

definition exec_bad :: "u32 \<Rightarrow> nat option \<Rightarrow> 'a fsst_scheme \<Rightarrow> (int, 'a fsst_scheme) res" where
  "exec_bad pgdir ip s =
     kbind (if pgdir \<noteq> 0 then freevm pgdir s else Ret () s) (\<lambda>_ s.
     kbind (case ip of None \<Rightarrow> Ret () s | Some ip \<Rightarrow> kbind (iunlockput ip s) (\<lambda>_ s. end_op s)) (\<lambda>_ s. Ret (-1) s))"

text \<open>\<^verbatim>\<open>readi\<close> into memory, as \<^verbatim>\<open>loaduvm\<close> calls it.\<close>

definition readi_to :: "'a fsst_scheme devread \<Rightarrow> nat \<Rightarrow> u32 \<Rightarrow> u32 \<Rightarrow> u32 \<Rightarrow> 'a fsst_scheme \<Rightarrow> (int, 'a fsst_scheme) res" where
  "readi_to dv ip dst off n s = kbind (readi dv ip off n s) (\<lambda>(r, xs) s. Ret r (s\<lparr>mem := store_bytes (mem s) dst xs\<rparr>))"

text \<open>The loop over the program headers that remain.\<close>

primrec exec_load :: "'a fsst_scheme devread \<Rightarrow> nat \<Rightarrow> u32 \<Rightarrow> nat \<Rightarrow> u32 \<Rightarrow> u32 \<Rightarrow> 'a fsst_scheme \<Rightarrow> (u32 option, 'a fsst_scheme) res" where
  "exec_load dv ip pgdir 0 off sz s = Ret (Some sz) s"
| "exec_load dv ip pgdir (Suc k) off sz s =
     kbind (readi dv ip off 32 s) (\<lambda>(r, ph) s.
       if r \<noteq> 32 then Ret None s
       else let vaddr = get32 ph 8; filesz = get32 ph 16; memsz = get32 ph 20
       in if get32 ph 0 \<noteq> 1 then exec_load dv ip pgdir k (off + 32) sz s
          else if memsz < filesz then Ret None s
          else if vaddr + memsz < vaddr then Ret None s
          else kbind (allocuvm pgdir sz (vaddr + memsz) s) (\<lambda>sz s.
            if sz = 0 then Ret None s
            else if vaddr mod PGSIZE \<noteq> 0 then Ret None s
            else kbind (loaduvm (readi_to dv ip) pgdir vaddr (get32 ph 4) filesz s) (\<lambda>r s.
              if r < 0 then Ret None s else exec_load dv ip pgdir k (off + 32) sz s)))"

text \<open>Pushing the argument strings; the result is the stack pointer and the addresses of the strings.\<close>

primrec exec_args :: "u32 \<Rightarrow> u8 list list \<Rightarrow> nat \<Rightarrow> u32 \<Rightarrow> 'a vmst_scheme \<Rightarrow> ((u32 \<times> u32 list) option, 'a vmst_scheme) res" where
  "exec_args pgdir [] argc sp s = Ret (Some (sp, [])) s"
| "exec_args pgdir (a # argv) argc sp s =
     (if 32 \<le> argc then Ret None s
      else let sp = (sp - of_nat (length a + 1)) AND NOT 3
      in kbind (copyout pgdir sp (a @ [0]) s) (\<lambda>r s.
           if r < 0 then Ret None s
           else kbind (exec_args pgdir argv (Suc argc) sp s) (\<lambda>r s.
             Ret (map_option (\<lambda>(sp', ps). (sp', sp # ps)) r) s)))"

text \<open>The name of the program: what follows the last slash.\<close>

definition last_elem :: "u8 list \<Rightarrow> u8 list" where
  "last_elem path = rev (takeWhile (\<lambda>c. c \<noteq> slash) (rev path))"

definition to_name :: "u8 list \<Rightarrow> string" where
  "to_name bs = map (\<lambda>c. char_of (unat c)) (take 15 bs)"

definition exec_commit :: "u8 list \<Rightarrow> u32 \<Rightarrow> u32 \<Rightarrow> u32 \<Rightarrow> u32 \<Rightarrow> 'a ptab_scheme \<Rightarrow> (int, 'a ptab_scheme) res" where
  "exec_commit path pgdir sz entry sp s =
     with_proc s (\<lambda>p.
       let oldpgdir = p_pgdir (procs s ! p);
           s = updp p (\<lambda>x. x\<lparr>p_name := to_name (last_elem path), p_pgdir := pgdir, p_sz := sz\<rparr>) s;
           s = set_tf p TF_ESP sp (set_tf p TF_EIP entry s)
       in kbind (switchuvm (uvm_of (Some p) s) s) (\<lambda>_ s.
          kbind (freevm oldpgdir s) (\<lambda>_ s. Ret 0 s)))"

definition exec_stack :: "u8 list \<Rightarrow> u8 list list \<Rightarrow> u32 \<Rightarrow> u32 \<Rightarrow> u32 \<Rightarrow> 'a fsst_scheme \<Rightarrow> (int, 'a fsst_scheme) res" where
  "exec_stack path argv pgdir entry sz s =
     kbind (allocuvm pgdir sz (sz + 2 * PGSIZE) s) (\<lambda>sz s.
       if sz = 0 then exec_bad pgdir None s
       else kbind (clearpteu pgdir (sz - 2 * PGSIZE) s) (\<lambda>_ s.
            kbind (exec_args pgdir argv 0 sz s) (\<lambda>r s.
              case r of
                None \<Rightarrow> exec_bad pgdir None s
              | Some (sp, ps) \<Rightarrow>
                  let argc = of_nat (length ps);
                      ustack = [0xffffffff, argc, sp - (argc + 1) * 4] @ ps @ [0];
                      sp = sp - (3 + argc + 1) * 4
                  in kbind (copyout pgdir sp (concat (map bytes32 ustack)) s) (\<lambda>r s.
                       if r < 0 then exec_bad pgdir None s
                       else exec_commit path pgdir sz entry sp s))))"

definition exec :: "'a fsst_scheme devread \<Rightarrow> u8 list \<Rightarrow> u8 list list \<Rightarrow> 'a fsst_scheme \<Rightarrow> (int, 'a fsst_scheme) res" where
  "exec dv path argv s =
     kbind (begin_op s) (\<lambda>_ s.
     kbind (namei path s) (\<lambda>ip s.
       case ip of
         None \<Rightarrow> kbind (end_op s) (\<lambda>_ s. kbind (cprintf (''exec: fail'' @ [CHR 0x0A]) [] s) (\<lambda>_ s. Ret (-1) s))
       | Some ip \<Rightarrow>
           kbind (ilock (Some ip) s) (\<lambda>_ s.
           kbind (readi dv ip 0 52 s) (\<lambda>(r, elf) s.
             if r \<noteq> 52 then exec_bad 0 (Some ip) s
             else if get32 elf 0 \<noteq> ELF_MAGIC then exec_bad 0 (Some ip) s
             else kbind (setupkvm s) (\<lambda>pgdir s.
               if pgdir = 0 then exec_bad 0 (Some ip) s
               else kbind (exec_load dv ip pgdir (unat (get16 elf 44)) (get32 elf 28) 0 s) (\<lambda>r s.
                 case r of
                   None \<Rightarrow> exec_bad pgdir (Some ip) s
                 | Some sz \<Rightarrow>
                     kbind (iunlockput ip s) (\<lambda>_ s.
                     kbind (end_op s) (\<lambda>_ s.
                     exec_stack path argv pgdir (get32 elf 24) (PGROUNDUP sz) s))))))))"

section \<open>Arguments stay inside the process\<close>

definition user_at :: "'a vmst_scheme \<Rightarrow> u32 \<Rightarrow> u8" where
  "user_at s a = mem s (uaddr (mem s) (P2V (cr3 s)) a)"

definition user_mapped :: "'a vmst_scheme \<Rightarrow> u32 \<Rightarrow> bool" where
  "user_mapped s sz \<longleftrightarrow> sz \<le> KERNBASE \<and> (\<forall>a. a < sz \<longrightarrow> present (pte_at (mem s) (P2V (cr3 s)) a))"

lemma user_byte_Ret: "user_mapped s sz \<Longrightarrow> a < sz \<Longrightarrow> user_byte a s = Ret (user_at s a) s"
  by (simp add: user_byte_def user_mapped_def user_at_def)

lemma user_bytes_Ret:
  assumes "user_mapped s sz" "unat a + n \<le> unat sz"
  shows "user_bytes n a s = Ret (map (\<lambda>i. user_at s (a + of_nat i)) [0..<n]) s"
  using assms(2)
proof (induction n arbitrary: a)
  case (Suc n)
  have sz: "unat sz \<le> 0x80000000" using assms(1) by (simp add: user_mapped_def word_le_nat_alt)
  have "a < sz" using Suc(2) by (simp add: word_less_nat_alt)
  moreover have "unat (a + 1) = unat a + 1" using unat_add_nat [of a 1] Suc(2) sz by simp
  ultimately show ?case
    using Suc(1) [of "a + 1"] Suc(2) user_byte_Ret [OF assms(1)]
    by (simp add: upt_conv_Cons map_Suc_upt [symmetric] add.assoc comp_def del: upt_Suc)
qed simp

text \<open>The string at \<open>a\<close> that ends within \<open>n\<close> bytes.\<close>

fun cstring :: "(u32 \<Rightarrow> u8) \<Rightarrow> u32 \<Rightarrow> nat \<Rightarrow> u8 list option" where
  "cstring f a 0 = None"
| "cstring f a (Suc n) = (if f a = 0 then Some [] else map_option (Cons (f a)) (cstring f (a + 1) n))"

lemma fetchstr_loop_Ret:
  assumes "user_mapped s sz" "unat a + n \<le> unat sz"
  shows "fetchstr_loop n a s = Ret (cstring (user_at s) a n) s"
  using assms(2)
proof (induction n arbitrary: a)
  case (Suc n)
  have sz: "unat sz \<le> 0x80000000" using assms(1) by (simp add: user_mapped_def word_le_nat_alt)
  have "a < sz" using Suc(2) by (simp add: word_less_nat_alt)
  moreover have "unat (a + 1) = unat a + 1" using unat_add_nat [of a 1] Suc(2) sz by simp
  ultimately show ?case using Suc(1) [of "a + 1"] Suc(2) user_byte_Ret [OF assms(1)] by simp
qed simp

lemma cstring_iff:
  "cstring f a n = Some cs \<longleftrightarrow> length cs < n \<and> f (a + of_nat (length cs)) = 0 \<and> 0 \<notin> set cs \<and> (\<forall>i<length cs. cs ! i = f (a + of_nat i))"
proof (induction f a n arbitrary: cs rule: cstring.induct)
  case (2 f a n)
  show ?case
  proof (cases cs)
    case Nil
    then show ?thesis by simp
  next
    case (Cons c ds)
    have "(\<forall>i<length cs. cs ! i = f (a + of_nat i)) \<longleftrightarrow> c = f a \<and> (\<forall>i<length ds. ds ! i = f (a + 1 + of_nat i))"
      unfolding Cons by (simp add: All_less_Suc2 add.assoc)
    then show ?thesis using 2 [of ds] Cons by (auto simp: add.assoc)
  qed
qed simp

text \<open>
  C23. System calls read arguments from inside the calling process only. With every page below the process's size mapped: \<^verbatim>\<open>fetchint\<close> returns the word at its address when
  all four bytes lie below the size and -1 otherwise; \<^verbatim>\<open>fetchstr\<close> returns exactly the string that ends below the size, or -1 if there is none;
  and a block that \<^verbatim>\<open>argptr\<close> accepts lies below the size as a whole, for every length, with no wrap-around. None of them changes the state.
\<close>

theorem user_args_bounds:
  fixes s :: "'a ptab_scheme"
  assumes "cpu_proc s = Some p" "user_mapped s (p_sz (procs s ! p))" "k < 2 ^ 31"
  shows "fetchint addr s = Ret (if unat addr + 4 \<le> unat (p_sz (procs s ! p)) then Some (get32 (map (\<lambda>i. user_at s (addr + of_nat i)) [0..<4]) 0) else None) s \<and>
    (\<forall>cs. fetchstr addr s = Ret (Some cs) s \<longleftrightarrow> unat addr + length cs < unat (p_sz (procs s ! p)) \<and> 0 \<notin> set cs \<and>
       user_at s (addr + of_nat (length cs)) = 0 \<and> (\<forall>i<length cs. cs ! i = user_at s (addr + of_nat i))) \<and>
    (\<exists>r. fetchstr addr s = Ret r s) \<and>
    (\<exists>r. argptr n k s = Ret r s \<and> (\<forall>a. r = Some a \<longrightarrow> 0 \<le> k \<and> unat a < unat (p_sz (procs s ! p)) \<and> unat a + nat k \<le> unat (p_sz (procs s ! p))))"
proof -
  let ?sz = "p_sz (procs s ! p)"
  have sz: "unat ?sz \<le> 0x80000000" using assms(2) by (simp add: user_mapped_def word_le_nat_alt)
  have fi: "fetchint a s = Ret (if unat a + 4 \<le> unat ?sz then Some (get32 (map (\<lambda>i. user_at s (a + of_nat i)) [0..<4]) 0) else None) s" for a
  proof (cases "a < ?sz")
    case True
    then have "unat (a + 4) = unat a + 4" using unat_add_nat [of a 4] sz by (simp add: word_less_nat_alt)
    then have "a + 4 > ?sz \<longleftrightarrow> \<not> unat a + 4 \<le> unat ?sz" by (auto simp: word_less_nat_alt)
    then show ?thesis using True user_bytes_Ret [OF assms(2), of a 4] assms(1) by (auto simp: fetchint_def with_proc_def Let_def)
  next
    case False
    then have "?sz \<le> a" "\<not> unat a + 4 \<le> unat ?sz" by (auto simp: not_less word_le_nat_alt)
    then show ?thesis using assms(1) by (simp add: fetchint_def with_proc_def Let_def)
  qed
  have fs: "fetchstr addr s = Ret (if addr < ?sz then cstring (user_at s) addr (unat ?sz - unat addr) else None) s"
  proof (cases "addr < ?sz")
    case True
    then have "unat (?sz - addr) = unat ?sz - unat addr" by (simp add: unat_sub word_le_nat_alt word_less_nat_alt)
    then show ?thesis using True fetchstr_loop_Ret [OF assms(2), of addr "unat ?sz - unat addr"] assms(1)
      by (auto simp: fetchstr_def with_proc_def Let_def word_less_nat_alt word_le_nat_alt)
  qed (use assms(1) in \<open>auto simp: fetchstr_def with_proc_def Let_def not_less\<close>)
  have ap: "\<exists>r. argptr n k s = Ret r s \<and> (\<forall>a. r = Some a \<longrightarrow> 0 \<le> k \<and> unat a < unat ?sz \<and> unat a + nat k \<le> unat ?sz)"
  proof -
    obtain r where r: "argint n s = Ret r s" using fi assms(1) by (auto simp: argint_def with_proc_def)
    show ?thesis
    proof (cases r)
      case (Some a)
      have "unat a + nat k \<le> unat ?sz" if "0 \<le> k" "a < ?sz" "\<not> a + word_of_int k > ?sz"
      proof -
        have "(word_of_int k :: u32) = of_nat (nat k)" using that(1) by simp
        moreover have "unat (a + of_nat (nat k)) = unat a + nat k"
          using unat_add_nat [of a "nat k"] that(1,2) sz assms(3) by (simp add: word_less_nat_alt)
        ultimately show ?thesis using that(3) by (simp add: word_less_nat_alt)
      qed
      then show ?thesis using r Some assms(1) by (auto simp: argptr_def with_proc_def word_less_nat_alt not_le)
    qed (use r in \<open>simp add: argptr_def\<close>)
  qed
  show ?thesis using fi [of addr] fs ap by (auto simp: cstring_iff word_less_nat_alt)
qed


theorem user_args_bounds_witness:
  "\<exists>s. fetchint 4094 (s :: ptab) = Ret None s \<and> (\<exists>w. fetchint 4092 s = Ret (Some w) s)"
proof -
  obtain s0 xs where s0: "\<And>x. PGROUNDDOWN x = 0 \<Longrightarrow> pte_at (mem (s0 :: vmst)) pgdir_ex x = 0x300007"
    using uvm_one_ex [of 0] by auto
  let ?s = "ptab_ex\<lparr>mem := mem s0, cr3 := V2P pgdir_ex, procs := [unused_proc\<lparr>p_sz := 4096\<rparr>], cpu_proc := Some 0\<rparr>"
  have "PGROUNDDOWN a = 0" if "a < 4096" for a :: u32
    using that by (simp add: word_unat_eq_iff unat_PGROUNDDOWN word_less_nat_alt)
  then have "user_mapped ?s 4096" using s0 by (simp add: user_mapped_def present_def)
  then show ?thesis
    using user_args_bounds [of ?s 0 0 4094 0] user_args_bounds [of ?s 0 0 4092 0] by (intro exI [of _ ?s]) simp
qed

end
