(* ===== verification/Sysfile.thy ===== *)
theory Sysfile
  imports Exec
begin

text \<open>
  The system calls on files (\<^verbatim>\<open>sysfile.c\<close>). Each takes its arguments from the user stack of the running process and returns -1 for every failure.
  \<open>dv\<close> and \<open>dw\<close> are the read and write functions of the device table.
\<close>

text \<open>Go on with the value that was found, or return -1.\<close>

definition kopt :: "('b option, 's) res \<Rightarrow> ('b \<Rightarrow> 's \<Rightarrow> (int, 's) res) \<Rightarrow> (int, 's) res" where
  "kopt m f = kbind m (\<lambda>r s. case r of None \<Rightarrow> Ret (-1) s | Some x \<Rightarrow> f x s)"

text \<open>The same inside a transaction, which is ended first.\<close>

definition kopt_op :: "('b option, 'a lgst_scheme) res \<Rightarrow> ('b \<Rightarrow> 'a lgst_scheme \<Rightarrow> (int, 'a lgst_scheme) res) \<Rightarrow> (int, 'a lgst_scheme) res" where
  "kopt_op m f = kbind m (\<lambda>r s. case r of None \<Rightarrow> kbind (end_op s) (\<lambda>_ s. Ret (-1) s) | Some x \<Rightarrow> f x s)"

section \<open>Descriptors\<close>

definition argfd :: "nat \<Rightarrow> 'a filst_scheme \<Rightarrow> ((nat \<times> nat) option, 'a filst_scheme) res" where
  "argfd n s =
     kbind (argint n s) (\<lambda>r s.
       case r of
         None \<Rightarrow> Ret None s
       | Some w \<Rightarrow>
           let fd = sint w
           in if fd < 0 \<or> fd \<ge> 16 then Ret None s
              else with_proc s (\<lambda>p.
                case p_ofile (procs s ! p) ! nat fd of None \<Rightarrow> Ret None s | Some f \<Rightarrow> Ret (Some (nat fd, f)) s))"

definition set_fd :: "nat \<Rightarrow> nat option \<Rightarrow> nat \<Rightarrow> 'a ptab_scheme \<Rightarrow> 'a ptab_scheme" where
  "set_fd fd f p s = updp p (\<lambda>x. x\<lparr>p_ofile := (p_ofile x)[fd := f]\<rparr>) s"

definition fdalloc :: "nat \<Rightarrow> 'a filst_scheme \<Rightarrow> (nat option, 'a filst_scheme) res" where
  "fdalloc f s =
     with_proc s (\<lambda>p.
       case find_index (\<lambda>x. x = None) (take 16 (p_ofile (procs s ! p))) of
         Some fd \<Rightarrow> Ret (Some fd) (set_fd fd (Some f) p s)
       | None \<Rightarrow> Ret None s)"

definition sys_dup :: "'a filst_scheme \<Rightarrow> (int, 'a filst_scheme) res" where
  "sys_dup s = kopt (argfd 0 s) (\<lambda>(_, f) s. kopt (fdalloc f s) (\<lambda>fd s. kbind (filedup f s) (\<lambda>_ s. Ret (int fd) s)))"

definition sys_read :: "'a filst_scheme devread \<Rightarrow> 'a filst_scheme \<Rightarrow> (int, 'a filst_scheme) res" where
  "sys_read dv s =
     kopt (argfd 0 s) (\<lambda>(_, f) s. kopt (argint 2 s) (\<lambda>n s. kopt (argptr 1 (sint n) s) (\<lambda>p s.
       kbind (fileread dv f (sint n) s) (\<lambda>(r, xs) s. kbind (user_store p xs s) (\<lambda>_ s. Ret r s)))))"

definition sys_write :: "'a filst_scheme devwrite \<Rightarrow> 'a filst_scheme \<Rightarrow> (int, 'a filst_scheme) res" where
  "sys_write dw s =
     kopt (argfd 0 s) (\<lambda>(_, f) s. kopt (argint 2 s) (\<lambda>n s. kopt (argptr 1 (sint n) s) (\<lambda>p s.
       kbind (user_bytes (unat n) p s) (\<lambda>xs s. filewrite dw f xs s))))"

definition sys_close :: "'a filst_scheme \<Rightarrow> (int, 'a filst_scheme) res" where
  "sys_close s =
     kopt (argfd 0 s) (\<lambda>(fd, f) s.
       with_proc s (\<lambda>p. kbind (fileclose f (set_fd fd None p s)) (\<lambda>_ s. Ret 0 s)))"

text \<open>The fields of \<^verbatim>\<open>struct stat\<close> at their offsets; the padding is not written.\<close>

definition store_stat :: "u32 \<Rightarrow> statbuf \<Rightarrow> 'a vmst_scheme \<Rightarrow> (unit, 'a vmst_scheme) res" where
  "store_stat a st s =
     kbind (user_store (a + 4) (bytes32 (st_dev st)) s) (\<lambda>_ s.
     kbind (user_store (a + 8) (bytes32 (st_ino st)) s) (\<lambda>_ s.
     kbind (user_store a (bytes16 (st_type st)) s) (\<lambda>_ s.
     kbind (user_store (a + 12) (bytes16 (st_nlink st)) s) (\<lambda>_ s.
     user_store (a + 16) (bytes32 (st_size st)) s))))"

definition sys_fstat :: "'a filst_scheme \<Rightarrow> (int, 'a filst_scheme) res" where
  "sys_fstat s =
     kopt (argfd 0 s) (\<lambda>(_, f) s. kopt (argptr 1 20 s) (\<lambda>p s.
       kbind (filestat f s) (\<lambda>(r, st) s.
         case st of None \<Rightarrow> Ret r s | Some st \<Rightarrow> kbind (store_stat p st s) (\<lambda>_ s. Ret r s))))"

section \<open>Links\<close>

definition end_fail :: "'a lgst_scheme \<Rightarrow> (int, 'a lgst_scheme) res" where
  "end_fail s = kbind (end_op s) (\<lambda>_ s. Ret (-1) s)"

definition link_bad :: "nat \<Rightarrow> 'a fsst_scheme \<Rightarrow> (int, 'a fsst_scheme) res" where
  "link_bad ip s =
     kbind (ilock (Some ip) s) (\<lambda>_ s.
     kbind (iupdate ip (updi ip (\<lambda>x. x\<lparr>i_nlink := i_nlink x - 1\<rparr>) s)) (\<lambda>_ s.
     kbind (iunlockput ip s) (\<lambda>_ s. end_fail s)))"

definition link_to :: "nat \<Rightarrow> u8 list \<Rightarrow> 'a fsst_scheme \<Rightarrow> (int, 'a fsst_scheme) res" where
  "link_to ip new s =
     kbind (iupdate ip (updi ip (\<lambda>x. x\<lparr>i_nlink := i_nlink x + 1\<rparr>) s)) (\<lambda>_ s.
     kbind (iunlock (Some ip) s) (\<lambda>_ s.
     kbind (nameiparent new s) (\<lambda>(dp, name) s.
       case dp of
         None \<Rightarrow> link_bad ip s
       | Some dp \<Rightarrow>
           kbind (ilock (Some dp) s) (\<lambda>_ s.
           kbind (if i_dev (inodes s ! dp) \<noteq> i_dev (inodes s ! ip) then Ret (-1) s
                  else dirlink dp name (i_inum (inodes s ! ip)) s) (\<lambda>r s.
           kbind (iunlockput dp s) (\<lambda>_ s.
             if r < 0 then link_bad ip s
             else kbind (iput ip s) (\<lambda>_ s. kbind (end_op s) (\<lambda>_ s. Ret 0 s)))))))) "

definition sys_link :: "'a fsst_scheme \<Rightarrow> (int, 'a fsst_scheme) res" where
  "sys_link s =
     kopt (argstr 0 s) (\<lambda>old s. kopt (argstr 1 s) (\<lambda>new s.
     kbind (begin_op s) (\<lambda>_ s.
     kopt_op (namei old s) (\<lambda>ip s.
     kbind (ilock (Some ip) s) (\<lambda>_ s.
       if i_type (inodes s ! ip) = T_DIR then kbind (iunlockput ip s) (\<lambda>_ s. end_fail s)
       else link_to ip new s)))))"

definition isdirempty :: "nat \<Rightarrow> 'a fsst_scheme \<Rightarrow> (bool, 'a fsst_scheme) res" where
  "isdirempty dp s =
     kbind (dir_scan ''isdirempty: readi'' (\<lambda>e. de_inum e \<noteq> 0) dp 32 s) (\<lambda>(e, _) s. Ret (e = None) s)"

definition unlink_bad :: "nat \<Rightarrow> 'a fsst_scheme \<Rightarrow> (int, 'a fsst_scheme) res" where
  "unlink_bad dp s = kbind (iunlockput dp s) (\<lambda>_ s. end_fail s)"

text \<open>Removing the entry at \<open>off\<close> of the directory \<open>dp\<close> for the inode \<open>ip\<close>; both are locked.\<close>

definition unlink_entry :: "nat \<Rightarrow> nat \<Rightarrow> u32 \<Rightarrow> 'a fsst_scheme \<Rightarrow> (int, 'a fsst_scheme) res" where
  "unlink_entry dp ip off s =
     kbind (writei_data dp (replicate 16 0) off s) (\<lambda>r s.
       if r \<noteq> 16 then Panic ''unlink: writei''
       else kbind (if i_type (inodes s ! ip) = T_DIR
                   then iupdate dp (updi dp (\<lambda>x. x\<lparr>i_nlink := i_nlink x - 1\<rparr>) s) else Ret () s) (\<lambda>_ s.
            kbind (iunlockput dp s) (\<lambda>_ s.
            kbind (iupdate ip (updi ip (\<lambda>x. x\<lparr>i_nlink := i_nlink x - 1\<rparr>) s)) (\<lambda>_ s.
            kbind (iunlockput ip s) (\<lambda>_ s. kbind (end_op s) (\<lambda>_ s. Ret 0 s))))))"

definition sys_unlink :: "'a fsst_scheme \<Rightarrow> (int, 'a fsst_scheme) res" where
  "sys_unlink s =
     kopt (argstr 0 s) (\<lambda>path s.
     kbind (begin_op s) (\<lambda>_ s.
     kbind (nameiparent path s) (\<lambda>(dp, name) s.
       case dp of
         None \<Rightarrow> end_fail s
       | Some dp \<Rightarrow>
           kbind (ilock (Some dp) s) (\<lambda>_ s.
             if namecmp name [46] = 0 \<or> namecmp name [46, 46] = 0 then unlink_bad dp s
             else kbind (dirlookup dp name s) (\<lambda>r s.
               case r of
                 None \<Rightarrow> unlink_bad dp s
               | Some (ip, off) \<Rightarrow>
                   kbind (ilock (Some ip) s) (\<lambda>_ s.
                     if sint (i_nlink (inodes s ! ip)) < 1 then Panic ''unlink: nlink < 1''
                     else kbind (if i_type (inodes s ! ip) = T_DIR then isdirempty ip s else Ret True s) (\<lambda>empty s.
                       if \<not> empty then kbind (iunlockput ip s) (\<lambda>_ s. unlink_bad dp s)
                       else unlink_entry dp ip off s)))))))"

section \<open>Creating and opening\<close>

text \<open>A new inode \<open>ip\<close> in the directory \<open>dp\<close>; both are locked.\<close>

definition create_new :: "nat \<Rightarrow> u8 list \<Rightarrow> u16 \<Rightarrow> u16 \<Rightarrow> u16 \<Rightarrow> 'a fsst_scheme \<Rightarrow> (nat option, 'a fsst_scheme) res" where
  "create_new dp name type major minor s =
     kbind (ialloc (i_dev (inodes s ! dp)) type s) (\<lambda>ip s.
     kbind (ilock (Some ip) s) (\<lambda>_ s.
     kbind (iupdate ip (updi ip (\<lambda>x. x\<lparr>i_major := major, i_minor := minor, i_nlink := 1\<rparr>) s)) (\<lambda>_ s.
     kbind (if type = T_DIR
            then kbind (iupdate dp (updi dp (\<lambda>x. x\<lparr>i_nlink := i_nlink x + 1\<rparr>) s)) (\<lambda>_ s.
                 kbind (dirlink ip [46] (i_inum (inodes s ! ip)) s) (\<lambda>r s.
                   if r < 0 then Panic ''create dots''
                   else kbind (dirlink ip [46, 46] (i_inum (inodes s ! dp)) s) (\<lambda>r s.
                     if r < 0 then Panic ''create dots'' else Ret () s)))
            else Ret () s) (\<lambda>_ s.
     kbind (dirlink dp name (i_inum (inodes s ! ip)) s) (\<lambda>r s.
       if r < 0 then Panic ''create: dirlink''
       else kbind (iunlockput dp s) (\<lambda>_ s. Ret (Some ip) s))))))"

definition create :: "u8 list \<Rightarrow> u16 \<Rightarrow> u16 \<Rightarrow> u16 \<Rightarrow> 'a fsst_scheme \<Rightarrow> (nat option, 'a fsst_scheme) res" where
  "create path type major minor s =
     kbind (nameiparent path s) (\<lambda>(dp, name) s.
       case dp of
         None \<Rightarrow> Ret None s
       | Some dp \<Rightarrow>
           kbind (ilock (Some dp) s) (\<lambda>_ s.
           kbind (dirlookup dp name s) (\<lambda>r s.
             case r of
               Some (ip, _) \<Rightarrow>
                 kbind (iunlockput dp s) (\<lambda>_ s.
                 kbind (ilock (Some ip) s) (\<lambda>_ s.
                   if type = T_FILE \<and> i_type (inodes s ! ip) = T_FILE then Ret (Some ip) s
                   else kbind (iunlockput ip s) (\<lambda>_ s. Ret None s)))
             | None \<Rightarrow> create_new dp name type major minor s)))"

definition open_fields :: "u32 \<Rightarrow> nat \<Rightarrow> kfile \<Rightarrow> kfile" where
  "open_fields omode ip f = f\<lparr>f_type := FD_INODE, f_ip := Some ip, f_off := 0,
     f_readable := omode AND 1 = 0, f_writable := (omode AND 1 \<noteq> 0 \<or> omode AND 2 \<noteq> 0)\<rparr>"

text \<open>From the locked inode to the descriptor.\<close>

definition open_ip :: "u32 \<Rightarrow> nat \<Rightarrow> 'a filst_scheme \<Rightarrow> (int, 'a filst_scheme) res" where
  "open_ip omode ip s =
     kbind (filealloc s) (\<lambda>f s.
       case f of
         None \<Rightarrow> kbind (iunlockput ip s) (\<lambda>_ s. end_fail s)
       | Some f \<Rightarrow>
           kbind (fdalloc f s) (\<lambda>fd s.
             case fd of
               None \<Rightarrow> kbind (fileclose f s) (\<lambda>_ s. kbind (iunlockput ip s) (\<lambda>_ s. end_fail s))
             | Some fd \<Rightarrow>
                 kbind (iunlock (Some ip) s) (\<lambda>_ s.
                 kbind (end_op s) (\<lambda>_ s. Ret (int fd) (updf f (open_fields omode ip) s)))))"

definition sys_open :: "'a filst_scheme \<Rightarrow> (int, 'a filst_scheme) res" where
  "sys_open s =
     kopt (argstr 0 s) (\<lambda>path s. kopt (argint 1 s) (\<lambda>omode s.
     kbind (begin_op s) (\<lambda>_ s.
       if omode AND 0x200 \<noteq> 0 then kopt_op (create path T_FILE 0 0 s) (\<lambda>ip s. open_ip omode ip s)
       else kopt_op (namei path s) (\<lambda>ip s.
            kbind (ilock (Some ip) s) (\<lambda>_ s.
              if i_type (inodes s ! ip) = T_DIR \<and> omode \<noteq> 0 then kbind (iunlockput ip s) (\<lambda>_ s. end_fail s)
              else open_ip omode ip s)))))"

definition finish_create :: "nat \<Rightarrow> 'a fsst_scheme \<Rightarrow> (int, 'a fsst_scheme) res" where
  "finish_create ip s = kbind (iunlockput ip s) (\<lambda>_ s. kbind (end_op s) (\<lambda>_ s. Ret 0 s))"

definition sys_mkdir :: "'a fsst_scheme \<Rightarrow> (int, 'a fsst_scheme) res" where
  "sys_mkdir s =
     kbind (begin_op s) (\<lambda>_ s. kopt_op (argstr 0 s) (\<lambda>path s. kopt_op (create path T_DIR 0 0 s) finish_create))"

definition sys_mknod :: "'a fsst_scheme \<Rightarrow> (int, 'a fsst_scheme) res" where
  "sys_mknod s =
     kbind (begin_op s) (\<lambda>_ s.
     kopt_op (argstr 0 s) (\<lambda>path s. kopt_op (argint 1 s) (\<lambda>major s. kopt_op (argint 2 s) (\<lambda>minor s.
     kopt_op (create path T_DEV (ucast major) (ucast minor) s) finish_create))))"

definition sys_chdir :: "'a fsst_scheme \<Rightarrow> (int, 'a fsst_scheme) res" where
  "sys_chdir s =
     kbind (begin_op s) (\<lambda>_ s.
     kopt_op (argstr 0 s) (\<lambda>path s. kopt_op (namei path s) (\<lambda>ip s.
     kbind (ilock (Some ip) s) (\<lambda>_ s.
       if i_type (inodes s ! ip) \<noteq> T_DIR then kbind (iunlockput ip s) (\<lambda>_ s. end_fail s)
       else kbind (iunlock (Some ip) s) (\<lambda>_ s.
            with_proc s (\<lambda>p.
            kbind (with_ip (p_cwd (procs s ! p)) (\<lambda>d. iput d s)) (\<lambda>_ s.
            kbind (end_op s) (\<lambda>_ s. Ret 0 (updp p (\<lambda>x. x\<lparr>p_cwd := Some ip\<rparr>) s)))))))))"

text \<open>The argument vector, at most \<^verbatim>\<open>MAXARG\<close> entries with the null pointer.\<close>

primrec exec_argv :: "nat \<Rightarrow> u32 \<Rightarrow> 'a ptab_scheme \<Rightarrow> (u8 list list option, 'a ptab_scheme) res" where
  "exec_argv 0 a s = Ret None s"
| "exec_argv (Suc n) a s =
     kbind (fetchint a s) (\<lambda>r s.
       case r of
         None \<Rightarrow> Ret None s
       | Some uarg \<Rightarrow>
           if uarg = 0 then Ret (Some []) s
           else kbind (fetchstr uarg s) (\<lambda>r s.
             case r of
               None \<Rightarrow> Ret None s
             | Some str \<Rightarrow> kbind (exec_argv n (a + 4) s) (\<lambda>r s. Ret (map_option (Cons str) r) s)))"

definition sys_exec :: "'a fsst_scheme devread \<Rightarrow> 'a fsst_scheme \<Rightarrow> (int, 'a fsst_scheme) res" where
  "sys_exec dv s =
     kopt (argstr 0 s) (\<lambda>path s. kopt (argint 1 s) (\<lambda>uargv s. kopt (exec_argv 32 uargv s) (\<lambda>argv s. exec dv path argv s)))"

definition pipe_fail :: "nat \<Rightarrow> nat \<Rightarrow> 'a filst_scheme \<Rightarrow> (int, 'a filst_scheme) res" where
  "pipe_fail rd wr s = kbind (fileclose rd s) (\<lambda>_ s. kbind (fileclose wr s) (\<lambda>_ s. Ret (-1) s))"

definition sys_pipe :: "'a filst_scheme \<Rightarrow> (int, 'a filst_scheme) res" where
  "sys_pipe s =
     kopt (argptr 0 8 s) (\<lambda>a s. kopt (pipealloc s) (\<lambda>(rd, wr) s.
     kbind (fdalloc rd s) (\<lambda>fd0 s.
       case fd0 of
         None \<Rightarrow> pipe_fail rd wr s
       | Some fd0 \<Rightarrow>
           kbind (fdalloc wr s) (\<lambda>fd1 s.
             case fd1 of
               None \<Rightarrow> with_proc s (\<lambda>p. pipe_fail rd wr (set_fd fd0 None p s))
             | Some fd1 \<Rightarrow> kbind (user_store a (bytes32 (of_nat fd0) @ bytes32 (of_nat fd1)) s) (\<lambda>_ s. Ret 0 s)))))"

end
