(* ===== verification/Trap.thy ===== *)
theory Trap
  imports Sysfile
begin

text \<open>
  The system calls on processes (\<^verbatim>\<open>sysproc.c\<close>), their dispatch (\<^verbatim>\<open>syscall.c\<close>) and traps (\<^verbatim>\<open>trap.c\<close>). The trap frame at \<open>tf\<close>, the number of the CPU
  and the register \<^verbatim>\<open>cr2\<close> are arguments, and so are the interrupt routines of the keyboard and the serial line.
\<close>

section \<open>System calls on processes\<close>

definition sys_kill :: "'a ptab_scheme \<Rightarrow> (int, 'a ptab_scheme) res" where
  "sys_kill s = kopt (argint 0 s) (\<lambda>pid s. kill (sint pid) s)"

definition sys_getpid :: "'a ptab_scheme \<Rightarrow> (int, 'a ptab_scheme) res" where
  "sys_getpid s = with_proc s (\<lambda>p. Ret (p_pid (procs s ! p)) s)"

definition sys_sbrk :: "'a ptab_scheme \<Rightarrow> (int, 'a ptab_scheme) res" where
  "sys_sbrk s =
     kopt (argint 0 s) (\<lambda>n s. with_proc s (\<lambda>p.
       let addr = p_sz (procs s ! p)
       in kbind (growproc (sint n) s) (\<lambda>r s. Ret (if r < 0 then -1 else sint addr) s)))"

text \<open>The loop of \<^verbatim>\<open>sys_sleep\<close>; after a wait it goes on in \<open>sys_sleep_resume\<close>.\<close>

definition sys_sleep_loop :: "u32 \<Rightarrow> u32 \<Rightarrow> 'a ptab_scheme \<Rightarrow> (int, 'a ptab_scheme) res" where
  "sys_sleep_loop n ticks0 s =
     (if ticks s - ticks0 < n then
        with_killed s (\<lambda>killed.
          if killed then kbind (lock_release LTicks s) (\<lambda>_ s. Ret (-1) s)
          else sleep ChTicks (Some LTicks) s)
      else kbind (lock_release LTicks s) (\<lambda>_ s. Ret 0 s))"

definition sys_sleep :: "'a ptab_scheme \<Rightarrow> (int, 'a ptab_scheme) res" where
  "sys_sleep s = kopt (argint 0 s) (\<lambda>n s. kbind (lock_acquire LTicks s) (\<lambda>_ s. sys_sleep_loop n (ticks s) s))"

definition sys_sleep_resume :: "nat \<Rightarrow> u32 \<Rightarrow> u32 \<Rightarrow> 'a ptab_scheme \<Rightarrow> (int, 'a ptab_scheme) res" where
  "sys_sleep_resume me n ticks0 s = kbind (sleep_resume me LTicks s) (\<lambda>_ s. sys_sleep_loop n ticks0 s)"

definition sys_uptime :: "'a ptab_scheme \<Rightarrow> (int, 'a ptab_scheme) res" where
  "sys_uptime s =
     kbind (lock_acquire LTicks s) (\<lambda>_ s.
       let xticks = ticks s in kbind (lock_release LTicks s) (\<lambda>_ s. Ret (sint xticks) s))"

definition sys_getpname :: "'a ptab_scheme \<Rightarrow> (int, 'a ptab_scheme) res" where
  "sys_getpname s = kopt (argint 0 s) (\<lambda>pid s. getpname (sint pid) s)"

definition sys_getnice :: "'a ptab_scheme \<Rightarrow> (int, 'a ptab_scheme) res" where
  "sys_getnice s = kopt (argint 0 s) (\<lambda>pid s. getnice (sint pid) s)"

definition sys_setnice :: "'a ptab_scheme \<Rightarrow> (int, 'a ptab_scheme) res" where
  "sys_setnice s = kopt (argint 0 s) (\<lambda>pid s. kopt (argint 1 s) (\<lambda>v s. setnice (sint pid) (sint v) s))"

definition sys_ps :: "'a ptab_scheme \<Rightarrow> (int, 'a ptab_scheme) res" where
  "sys_ps s = kopt (argint 0 s) (\<lambda>pid s. kbind (ps_print (sint pid) s) (\<lambda>_ s. Ret 0 s))"

text \<open>\<^verbatim>\<open>fd\<close> and \<^verbatim>\<open>offset\<close> have default values.\<close>

definition sys_mmap :: "'a mmst_scheme devread \<Rightarrow> 'a mmst_scheme \<Rightarrow> (int, 'a mmst_scheme) res" where
  "sys_mmap dv s =
     kopt (argint 0 s) (\<lambda>addr s. kopt (argint 1 s) (\<lambda>len s. kopt (argint 2 s) (\<lambda>prot s. kopt (argint 3 s) (\<lambda>flags s.
     kbind (argint 4 s) (\<lambda>fd s. kbind (argint 5 s) (\<lambda>offset s.
       let fd = (case fd of None \<Rightarrow> -1 | Some w \<Rightarrow> sint w);
           offset = (case offset of None \<Rightarrow> 0 | Some w \<Rightarrow> sint w)
       in kbind (mmap dv addr (sint len) (sint prot) flags fd offset s) (\<lambda>a s. Ret (sint a) s)))))))"

definition sys_munmap :: "'a mmst_scheme \<Rightarrow> (int, 'a mmst_scheme) res" where
  "sys_munmap s = kopt (argint 0 s) (\<lambda>addr s. munmap addr s)"

section \<open>Dispatch\<close>

text \<open>The table \<^verbatim>\<open>syscalls\<close>; there is no call 0.\<close>

definition syscalls :: "'a trst_scheme devread \<Rightarrow> 'a trst_scheme devwrite \<Rightarrow> ('a trst_scheme \<Rightarrow> (int, 'a trst_scheme) res) list" where
  "syscalls dv dw = [
     fork dv, exit, wait, sys_pipe, sys_read dv, sys_kill, sys_exec dv, sys_fstat, sys_chdir, sys_dup, sys_getpid, sys_sbrk, sys_sleep, sys_uptime,
     sys_open, sys_write dw, sys_mknod, sys_unlink, sys_link, sys_mkdir, sys_close, sys_getpname, sys_getnice, sys_setnice, sys_ps,
     sys_mmap dv, sys_munmap, \<lambda>s. Ret (freemem s) s]"

definition syscall :: "'a trst_scheme devread \<Rightarrow> 'a trst_scheme devwrite \<Rightarrow> 'a trst_scheme \<Rightarrow> (unit, 'a trst_scheme) res" where
  "syscall dv dw s =
     with_proc s (\<lambda>p.
       let num = sint (load32 (mem s) (p_tf (procs s ! p) + TF_EAX))
       in if num > 0 \<and> num < 29
          then kbind ((syscalls dv dw ! nat (num - 1)) s) (\<lambda>r s. Ret () (set_tf p TF_EAX (word_of_int r) s))
          else kbind (cprintf (''%d %s: unknown sys call %d'' @ [CHR 0x0A])
                        [AInt (word_of_int (p_pid (procs s ! p))), AStr (Some (p_name (procs s ! p))), AInt (word_of_int num)] s) (\<lambda>_ s.
               Ret () (set_tf p TF_EAX (-1) s)))"

section \<open>Traps\<close>

text \<open>Gates of the interrupt descriptor table, with the bit fields of \<^verbatim>\<open>struct gatedesc\<close>.\<close>

record gatedesc =
  off_15_0 :: u16
  g_cs :: u16
  g_args :: "5 word"
  g_rsv1 :: "3 word"
  g_type :: "4 word"
  g_s :: "1 word"
  g_dpl :: "2 word"
  g_p :: "1 word"
  off_31_16 :: u16

definition SETGATE :: "bool \<Rightarrow> u16 \<Rightarrow> u32 \<Rightarrow> 2 word \<Rightarrow> gatedesc" where
  "SETGATE istrap sel off d =
     \<lparr>off_15_0 = ucast (off AND 0xffff), g_cs = sel, g_args = 0, g_rsv1 = 0, g_type = (if istrap then 0xF else 0xE), g_s = 0,
      g_dpl = d, g_p = 1, off_31_16 = ucast (drop_bit 16 off)\<rparr>"

text \<open>The table that \<^verbatim>\<open>tvinit\<close> builds from the entry points in \<open>vectors\<close>.\<close>

definition tvinit_idt :: "u32 list \<Rightarrow> gatedesc list" where
  "tvinit_idt vectors =
     (map (\<lambda>i. SETGATE False 8 (vectors ! i) 0) [0..<256])[64 := SETGATE True 8 (vectors ! 64) 3]"

definition tvinit :: "'a ptab_scheme \<Rightarrow> 'a ptab_scheme" where
  "tvinit s = s\<lparr>held := removeAll LTicks (held s)\<rparr>"

text \<open>The address that the hardware puts together from a gate.\<close>

definition gate_entry :: "gatedesc \<Rightarrow> u32" where
  "gate_entry g = push_bit 16 (ucast (off_31_16 g)) OR ucast (off_15_0 g)"

lemma bit_ffff: "bit (0xffff :: u32) k \<longleftrightarrow> k < 16"
proof -
  have "(0xffff :: u32) = mask 16" by (simp add: mask_eq_exp_minus_1)
  then show ?thesis by (simp only: bit_mask_iff) auto
qed

lemma gate_entry_SETGATE: "gate_entry (SETGATE t sel off d) = off"
proof (rule bit_word_eqI)
  fix n assume n: "n < LENGTH(32)"
  have "bit (gate_entry (SETGATE t sel off d)) n \<longleftrightarrow>
      16 \<le> n \<and> n < 32 \<and> bit (ucast (drop_bit 16 off) :: u16) (n - 16) \<or> bit (ucast (off AND 0xffff) :: u16) n"
    using n by (auto simp: gate_entry_def SETGATE_def bit_or_iff bit_push_bit_iff bit_ucast_iff)
  moreover have "bit (ucast (off AND 0xffff) :: u16) n \<longleftrightarrow> n < 16 \<and> bit off n"
    using bit_ffff [of n] unfolding bit_ucast_iff bit_and_iff by auto
  moreover have "bit (ucast (drop_bit 16 off) :: u16) (n - 16) \<longleftrightarrow> n - 16 < 16 \<and> bit off (16 + (n - 16))"
    by (simp add: bit_ucast_iff bit_drop_bit_eq)
  ultimately show "bit (gate_entry (SETGATE t sel off d)) n = bit off n" using n by (cases "n < 16") auto
qed

text \<open>
  The table that \<^verbatim>\<open>tvinit\<close> builds is well formed: each of the 256 gates is a present system gate for its vector's entry point in the kernel code segment.
  Vector 64, the system call, is the only one that a user program may raise with an \<^verbatim>\<open>int\<close> instruction, and the only one entered with interrupts left on.
\<close>

lemma tvinit_gates:
  assumes "i < 256"
  shows "length (tvinit_idt vectors) = 256 \<and> gate_entry (tvinit_idt vectors ! i) = vectors ! i \<and>
    g_cs (tvinit_idt vectors ! i) = 8 \<and> g_p (tvinit_idt vectors ! i) = 1 \<and> g_s (tvinit_idt vectors ! i) = 0 \<and>
    (g_dpl (tvinit_idt vectors ! i) = 3 \<longleftrightarrow> i = 64) \<and> (g_dpl (tvinit_idt vectors ! i) = 0 \<longleftrightarrow> i \<noteq> 64) \<and>
    g_type (tvinit_idt vectors ! i) = (if i = 64 then 0xF else 0xE)"
proof (cases "i = 64")
  case True
  then have "tvinit_idt vectors ! i = SETGATE True 8 (vectors ! 64) 3" by (simp add: tvinit_idt_def)
  then show ?thesis using True by (simp add: gate_entry_SETGATE) (simp add: SETGATE_def tvinit_idt_def)
next
  case False
  then have "tvinit_idt vectors ! i = SETGATE False 8 (vectors ! i) 0" using assms by (simp add: tvinit_idt_def)
  then show ?thesis using False by (simp add: gate_entry_SETGATE) (simp add: SETGATE_def tvinit_idt_def)
qed

text \<open>The clock interrupt of the first CPU.\<close>

definition tick :: "'a ptab_scheme \<Rightarrow> (unit, 'a ptab_scheme) res" where
  "tick s =
     kbind (lock_acquire LTicks s) (\<lambda>_ s.
     kbind (wakeup ChTicks (s\<lparr>ticks := ticks s + 1\<rparr>)) (\<lambda>_ s. lock_release LTicks s))"

definition spurious :: "u32 \<Rightarrow> u32 \<Rightarrow> 'a const_scheme \<Rightarrow> (unit, 'a const_scheme) res" where
  "spurious cpu tf s =
     cprintf (''cpu%d: spurious interrupt at %x:%x'' @ [CHR 0x0A]) [AInt cpu, AInt (load32 (mem s) (tf + TF_CS) AND 0xFFFF), AInt (load32 (mem s) (tf + TF_EIP))] s"

definition bad_trap :: "u32 \<Rightarrow> u32 \<Rightarrow> u32 \<Rightarrow> 'a ptab_scheme \<Rightarrow> (unit, 'a ptab_scheme) res" where
  "bad_trap cpu cr2 tf s =
     (let trapno = load32 (mem s) (tf + TF_TRAPNO); eip = load32 (mem s) (tf + TF_EIP); cs = load32 (mem s) (tf + TF_CS)
      in case cpu_proc s of
           None \<Rightarrow>
             kbind (cprintf (''unexpected trap %d from cpu %d eip %x (cr2=0x%x)'' @ [CHR 0x0A]) [AInt trapno, AInt cpu, AInt eip, AInt cr2] s)
               (\<lambda>_ s. Panic ''trap'')
         | Some p \<Rightarrow>
             if cs AND 3 = 0 then
               kbind (cprintf (''unexpected trap %d from cpu %d eip %x (cr2=0x%x)'' @ [CHR 0x0A]) [AInt trapno, AInt cpu, AInt eip, AInt cr2] s)
                 (\<lambda>_ s. Panic ''trap'')
             else
               kbind (cprintf (''pid %d %s: trap %d err %d on cpu %d eip 0x%x addr 0x%x--kill proc'' @ [CHR 0x0A])
                        [AInt (word_of_int (p_pid (procs s ! p))), AStr (Some (p_name (procs s ! p))), AInt trapno,
                         AInt (load32 (mem s) (tf + TF_ERR)), AInt cpu, AInt eip, AInt cr2] s) (\<lambda>_ s.
                 Ret () (updp p (\<lambda>x. x\<lparr>p_killed := True\<rparr>) s)))"

text \<open>The \<^verbatim>\<open>switch\<close>. A page fault that the handler refuses falls through to the spurious interrupts.\<close>

definition trap_switch :: "'a trst_scheme devread \<Rightarrow> ('a trst_scheme \<Rightarrow> (unit, 'a trst_scheme) res) \<Rightarrow> ('a trst_scheme \<Rightarrow> (unit, 'a trst_scheme) res) \<Rightarrow>
    u32 \<Rightarrow> u32 \<Rightarrow> u32 \<Rightarrow> 'a trst_scheme \<Rightarrow> (unit, 'a trst_scheme) res" where
  "trap_switch dv kbdintr uartintr cpu cr2 tf s =
     (let trapno = load32 (mem s) (tf + TF_TRAPNO)
      in if trapno = 32 then (if cpu = 0 then tick s else Ret () s)
         else if trapno = 32 + 14 then ideintr s
         else if trapno = 32 + 15 then Ret () s
         else if trapno = 32 + 1 then kbdintr s
         else if trapno = 32 + 4 then uartintr s
         else if trapno = 14 then
           kbind (page_fault_handler dv cr2 (if load32 (mem s) (tf + TF_ERR) AND 2 \<noteq> 0 then 2 else 1) s) (\<lambda>r s.
             if r \<noteq> -1 then Ret () s else spurious cpu tf s)
         else if trapno = 32 + 7 \<or> trapno = 32 + 31 then spurious cpu tf s
         else bad_trap cpu cr2 tf s)"

text \<open>A killed process does not go back to user space.\<close>

definition exit_if_killed :: "u32 \<Rightarrow> 'a filst_scheme \<Rightarrow> (unit, 'a filst_scheme) res" where
  "exit_if_killed tf s =
     (case cpu_proc s of
        None \<Rightarrow> Ret () s
      | Some p \<Rightarrow> if p_killed (procs s ! p) \<and> load32 (mem s) (tf + TF_CS) AND 3 = 3 then exit s else Ret () s)"

text \<open>The accounting of a clock tick: \<^verbatim>\<open>aruntime\<close> and the virtual runtime in two parts, the low one below \<^verbatim>\<open>1000000000\<close>.\<close>

definition account :: "proc \<Rightarrow> proc" where
  "account p =
     (let low = p_vruntime_low p + word_of_int (cdiv 1024000 (p_weight p));
          p = p\<lparr>p_aruntime := p_aruntime p + 1000\<rparr>
      in if low div 1000000000 \<noteq> 0 then p\<lparr>p_vruntime_low := low mod 1000000000, p_vruntime_high := p_vruntime_high p + 1\<rparr>
         else p\<lparr>p_vruntime_low := low\<rparr>)"

definition preempt :: "u32 \<Rightarrow> 'a ptab_scheme \<Rightarrow> (unit, 'a ptab_scheme) res" where
  "preempt tf s =
     (case cpu_proc s of
        None \<Rightarrow> Ret () s
      | Some p \<Rightarrow>
          if p_state (procs s ! p) = RUNNING \<and> load32 (mem s) (tf + TF_TRAPNO) = 32 then
            (if p_weight (procs s ! p) = 0 then Fault ''trap: division by zero''
             else let temp = p_aruntime (procs s ! p) + 1000 - p_aruntime_prev (procs s ! p);
                      s = updp p account s
                  in if temp \<ge> p_timeslice (procs s ! p) then yield (updp p (\<lambda>x. x\<lparr>p_aruntime_prev := p_aruntime x\<rparr>) s)
                     else Ret () s)
          else Ret () s)"

definition trap :: "'a trst_scheme devread \<Rightarrow> 'a trst_scheme devwrite \<Rightarrow> ('a trst_scheme \<Rightarrow> (unit, 'a trst_scheme) res) \<Rightarrow>
    ('a trst_scheme \<Rightarrow> (unit, 'a trst_scheme) res) \<Rightarrow> u32 \<Rightarrow> u32 \<Rightarrow> u32 \<Rightarrow> 'a trst_scheme \<Rightarrow> (unit, 'a trst_scheme) res" where
  "trap dv dw kbdintr uartintr cpu cr2 tf s =
     (if load32 (mem s) (tf + TF_TRAPNO) = 64 then
        with_killed s (\<lambda>killed.
          if killed then exit s
          else with_proc s (\<lambda>p.
            kbind (syscall dv dw (updp p (\<lambda>x. x\<lparr>p_tf := tf\<rparr>) s)) (\<lambda>_ s.
              with_killed s (\<lambda>killed. if killed then exit s else Ret () s))))
      else
        kbind (trap_switch dv kbdintr uartintr cpu cr2 tf s) (\<lambda>_ s.
        kbind (exit_if_killed tf s) (\<lambda>_ s.
        kbind (preempt tf s) (\<lambda>_ s. exit_if_killed tf s))))"

text \<open>After the \<^verbatim>\<open>yield\<close> of a clock tick.\<close>

definition trap_resume :: "u32 \<Rightarrow> 'a filst_scheme \<Rightarrow> (unit, 'a filst_scheme) res" where
  "trap_resume tf s = kbind (yield_resume s) (\<lambda>_ s. exit_if_killed tf s)"

section \<open>The clock\<close>

text \<open>The virtual runtime as one number.\<close>

definition vtime :: "proc \<Rightarrow> nat" where
  "vtime p = unat (p_vruntime_high p) * 1000000000 + unat (p_vruntime_low p)"

lemma account_fields:
  "p_state (account p) = p_state p" "p_weight (account p) = p_weight p" "p_timeslice (account p) = p_timeslice p"
  "p_aruntime (account p) = p_aruntime p + 1000" "p_aruntime_prev (account p) = p_aruntime_prev p" "p_killed (account p) = p_killed p"
  "p_pid (account p) = p_pid p" "p_nice (account p) = p_nice p"
  by (simp_all add: account_def Let_def)

lemma account_vtime:
  assumes "0 < p_weight p" "unat (p_vruntime_low p) < 1000000000" "unat (p_vruntime_high p) < 4294967295"
  shows "vtime (account p) = vtime p + nat (1024000 div p_weight p)" "unat (p_vruntime_low (account p)) < 1000000000"
proof -
  define d where "d = nat (1024000 div p_weight p)"
  let ?l = "p_vruntime_low p" and ?h = "p_vruntime_high p"
  have "1024000 div p_weight p \<le> 1024000" "0 \<le> 1024000 div p_weight p" using assms(1) zdiv_mono2 [of 1024000 1 "p_weight p"] by (simp_all add: pos_imp_zdiv_nonneg_iff)
  then have d: "d \<le> 1024000" "(word_of_int (cdiv 1024000 (p_weight p)) :: u32) = of_nat d"
    using assms(1) by (simp_all add: cdiv_def d_def)
  let ?low = "?l + of_nat d"
  have low: "unat ?low = unat ?l + d" using assms(2) d(1) by (intro unat_add_nat) simp
  have q: "unat (?low div 1000000000) = (unat ?l + d) div 1000000000" "unat (?low mod 1000000000) = (unat ?l + d) mod 1000000000"
    by (simp_all add: unat_div_distrib unat_mod_distrib low)
  show "vtime (account p) = vtime p + nat (1024000 div p_weight p)" "unat (p_vruntime_low (account p)) < 1000000000"
    unfolding d_def [symmetric]
  proof (atomize (full), cases "unat ?l + d < 1000000000")
    case True
    then have "?low div 1000000000 = 0" using q(1) by (simp add: unat_eq_0 [symmetric] del: unat_eq_0)
    then show "vtime (account p) = vtime p + d \<and> unat (p_vruntime_low (account p)) < 1000000000"
      using True low by (simp add: vtime_def account_def Let_def d(2))
  next
    case False
    then have m: "(unat ?l + d) div 1000000000 = 1" "(unat ?l + d) mod 1000000000 = unat ?l + d - 1000000000"
      using assms(2) d(1) by (simp_all add: mod_if div_if)
    then have "?low div 1000000000 \<noteq> 0" using q(1) by (metis unat_0 zero_neq_one)
    moreover have "unat (?h + 1) = unat ?h + 1" using unat_add_nat [of ?h 1] assms(3) by simp
    ultimately show "vtime (account p) = vtime p + d \<and> unat (p_vruntime_low (account p)) < 1000000000"
      using False m q(2) assms(2) d(1) by (simp add: vtime_def account_def Let_def d(2))
  qed
qed

lemma tick_Ret:
  assumes "ptab_ok s" "held s = []"
  shows "tick s = Ret () (s\<lparr>ticks := ticks s + 1, procs := woken ChTicks (procs s)\<rparr>)"
proof -
  let ?s = "s\<lparr>held := [LTicks], ticks := ticks s + 1\<rparr>"
  have "ptab_ok ?s" using assms(1) by (simp add: ptab_ok_def)
  then have "wakeup ChTicks ?s = Ret () (?s\<lparr>procs := woken ChTicks (procs s)\<rparr>)" using wakeup_Ret [of ?s ChTicks] by simp
  then show ?thesis using assms(2) by (simp add: tick_def)
qed



text \<open>The example machine with a clock interrupt's frame at \<open>0x80300000\<close>.\<close>

definition trst_ex :: trst where
  "trst_ex = mmst.extend (mmst_ex\<lparr>procs := procs_ex, cpu_proc := Some 0, held := [], nextpid := 5, mem := store32 (\<lambda>_. 0) 0x80300030 32\<rparr>)
     (trst.fields True)"

lemma trst_ex_simps [simp]:
  "procs trst_ex = procs_ex" "cpu_proc trst_ex = Some 0" "held trst_ex = []" "nextpid trst_ex = 5" "mem trst_ex = store32 (\<lambda>_. 0) 0x80300030 32"
  by (simp_all add: trst_ex_def mmst.defs trst.defs)


end
