(* ===== verification/Console.thy ===== *)
theory Console
  imports Trap
begin

text \<open>
  Console input (\<^verbatim>\<open>console.c\<close>, second half) and the keyboard (\<^verbatim>\<open>kbd.c\<close>, \<^verbatim>\<open>kbd.h\<close>): scan codes become characters, \<^verbatim>\<open>consoleintr\<close> edits the line
  that is being typed in a ring buffer, and \<^verbatim>\<open>consoleread\<close> takes finished lines out of it. The characters that \<^verbatim>\<open>getc\<close> delivers before it
  returns a negative number are an argument of \<open>consoleintr\<close>, a list. \<open>in_view\<close> reads the ring buffer as the bytes that may be read and the bytes
  that are still being edited; \<open>edit\<close> is the editor on that view.
\<close>

section \<open>State\<close>

record inputbuf =
  in_buf :: "u8 list"      \<comment> \<open>\<^verbatim>\<open>INPUT_BUF\<close> bytes\<close>
  in_r :: u32
  in_w :: u32
  in_e :: u32

record conin = trst +
  inp :: inputbuf          \<comment> \<open>the variable \<^verbatim>\<open>input\<close>\<close>
  kbd_shift :: u8          \<comment> \<open>\<^verbatim>\<open>shift\<close> of \<^verbatim>\<open>kbdgetc\<close>\<close>

abbreviation (input) INPUT_BUF :: u32 where "INPUT_BUF \<equiv> 128"

section \<open>The keyboard\<close>

abbreviation (input) SHIFT :: u8 where "SHIFT \<equiv> 1"
abbreviation (input) CTL :: u8 where "CTL \<equiv> 2"
abbreviation (input) ALT :: u8 where "ALT \<equiv> 4"
abbreviation (input) CAPSLOCK :: u8 where "CAPSLOCK \<equiv> 8"
abbreviation (input) NUMLOCK :: u8 where "NUMLOCK \<equiv> 16"
abbreviation (input) SCROLLLOCK :: u8 where "SCROLLLOCK \<equiv> 32"
abbreviation (input) E0ESC :: u8 where "E0ESC \<equiv> 64"

definition shiftcode :: "u8 \<Rightarrow> u8" where
  "shiftcode d = (if d = 0x1D \<or> d = 0x9D then CTL else if d = 0x2A \<or> d = 0x36 then SHIFT else if d = 0x38 \<or> d = 0xB8 then ALT else 0)"

definition togglecode :: "u8 \<Rightarrow> u8" where
  "togglecode d = (if d = 0x3A then CAPSLOCK else if d = 0x45 then NUMLOCK else if d = 0x46 then SCROLLLOCK else 0)"

text \<open>The entries above \<open>0x80\<close> that the three maps share; \<open>enter\<close> and \<open>slash\<close> are the two that differ.\<close>

definition extmap :: "u8 \<Rightarrow> u8 \<Rightarrow> u8 \<Rightarrow> u8" where
  "extmap enter sl d =
     (if d = 0x9C then enter else if d = 0xB5 then sl
      else if d = 0xC8 then 0xE2 else if d = 0xD0 then 0xE3 else if d = 0xC9 then 0xE6 else if d = 0xD1 then 0xE7
      else if d = 0xCB then 0xE4 else if d = 0xCD then 0xE5 else if d = 0x97 then 0xE0 else if d = 0xCF then 0xE1
      else if d = 0xD2 then 0xE8 else if d = 0xD3 then 0xE9 else 0)"

definition chars :: "string \<Rightarrow> u8 list" where
  "chars = map of_char"

definition keypad :: "u8 list" where
  "keypad = chars ''789-456+1230.''"

definition normalmap :: "u8 \<Rightarrow> u8" where
  "normalmap d =
     (let row = [0, 0x1B] @ chars ''1234567890-='' @ [8, 9] @ chars ''qwertyuiop[]'' @ [10, 0] @ chars ''asdfghjkl;'' @ [0x27] @ chars ''`'' @ [0] @
                [0x5C] @ chars ''zxcvbnm,./'' @ [0] @ chars ''*'' @ [0] @ chars '' '' @ replicate 13 0 @ keypad
      in if unat d < length row then row ! unat d else extmap 10 0x2F d)"

definition shiftmap :: "u8 \<Rightarrow> u8" where
  "shiftmap d =
     (let row = [0, 0x1B] @ chars ''!@#$%^&*()_+'' @ [8, 9] @ chars ''QWERTYUIOP{}'' @ [10, 0] @ chars ''ASDFGHJKL:'' @ [0x22] @ chars ''~'' @ [0] @
                chars ''|ZXCVBNM<>?'' @ [0] @ chars ''*'' @ [0] @ chars '' '' @ replicate 13 0 @ keypad
      in if unat d < length row then row ! unat d else extmap 10 0x2F d)"

text \<open>\<^verbatim>\<open>C(x)\<close>, the code of a control character, stored in a byte.\<close>

definition ctl :: "char \<Rightarrow> u8" where
  "ctl c = of_char c - 0x40"

definition ctlmap :: "u8 \<Rightarrow> u8" where
  "ctlmap d =
     (let row = replicate 16 0 @ map ctl ''QWERTYUIOP'' @ [0, 0, 13, 0] @ map ctl ''ASDFGHJKL'' @ [0, 0, 0, 0, ctl (CHR 0x5C)] @
                map ctl ''ZXCVBNM'' @ [0, 0, ctl (CHR ''/''), 0, 0]
      in if unat d < length row then row ! unat d else extmap 13 (ctl (CHR ''/'')) d)"

text \<open>\<^verbatim>\<open>kbdgetc\<close> on the byte \<open>data\<close> of the controller: the character and the new value of \<^verbatim>\<open>shift\<close>. Without a byte the code returns -1.\<close>

definition kbdgetc :: "u8 \<Rightarrow> u8 \<Rightarrow> u8 \<times> u8" where
  "kbdgetc shift data =
     (if data = 0xE0 then (0, shift OR E0ESC)
      else if data AND 0x80 \<noteq> 0
      then let data = (if shift AND E0ESC \<noteq> 0 then data else data AND 0x7F) in (0, shift AND NOT (shiftcode data OR E0ESC))
      else let (data, shift) = (if shift AND E0ESC \<noteq> 0 then (data OR 0x80, shift AND NOT E0ESC) else (data, shift));
               shift = (shift OR shiftcode data) XOR togglecode data;
               m = shift AND (CTL OR SHIFT);
               c = (if m = 0 then normalmap data else if m = SHIFT then shiftmap data else ctlmap data);
               c = (if shift AND CAPSLOCK \<noteq> 0
                    then if of_char CHR ''a'' \<le> c \<and> c \<le> of_char CHR ''z'' then c + (of_char CHR ''A'' - of_char CHR ''a'')
                         else if of_char CHR ''A'' \<le> c \<and> c \<le> of_char CHR ''Z'' then c + (of_char CHR ''a'' - of_char CHR ''A'')
                         else c
                    else c)
           in (c, shift))"

fun kbd_chars :: "u8 \<Rightarrow> u8 list \<Rightarrow> u8 list \<times> u8" where
  "kbd_chars shift [] = ([], shift)"
| "kbd_chars shift (d # ds) = (let (c, shift) = kbdgetc shift d; (cs, shift) = kbd_chars shift ds in (c # cs, shift))"

section \<open>Typing\<close>

definition set_inp :: "inputbuf \<Rightarrow> 'a conin_scheme \<Rightarrow> 'a conin_scheme" where
  "set_inp x s = s\<lparr>inp := x\<rparr>"

definition last_typed :: "inputbuf \<Rightarrow> u8" where
  "last_typed x = in_buf x ! unat ((in_e x - 1) mod INPUT_BUF)"

text \<open>The loop for control-U; its fuel, the length of the line, runs out exactly when the line is empty.\<close>

primrec kill_line :: "nat \<Rightarrow> 'a conin_scheme \<Rightarrow> (unit, 'a conin_scheme) res" where
  "kill_line 0 s = Ret () s"
| "kill_line (Suc n) s =
     (if in_e (inp s) \<noteq> in_w (inp s) \<and> last_typed (inp s) \<noteq> 10
      then kbind (consputc BACKSPACE (set_inp ((inp s)\<lparr>in_e := in_e (inp s) - 1\<rparr>) s)) (\<lambda>_ s. kill_line n s)
      else Ret () s)"

text \<open>One character of the loop of \<^verbatim>\<open>consoleintr\<close>; control-P is noted by the caller.\<close>

definition type_char :: "u8 \<Rightarrow> 'a conin_scheme \<Rightarrow> (unit, 'a conin_scheme) res" where
  "type_char c s =
     (if c = ctl CHR ''P'' then Ret () s
      else if c = ctl CHR ''U'' then kill_line (unat (in_e (inp s) - in_w (inp s))) s
      else if c = ctl CHR ''H'' \<or> c = 0x7F then
        (if in_e (inp s) \<noteq> in_w (inp s) then consputc BACKSPACE (set_inp ((inp s)\<lparr>in_e := in_e (inp s) - 1\<rparr>) s) else Ret () s)
      else if c \<noteq> 0 \<and> in_e (inp s) - in_r (inp s) < INPUT_BUF then
        (let c = (if c = 13 then 10 else c);
             x = (inp s)\<lparr>in_buf := (in_buf (inp s))[unat (in_e (inp s) mod INPUT_BUF) := c], in_e := in_e (inp s) + 1\<rparr>
         in kbind (consputc (Ch (char_of (unat c))) (set_inp x s)) (\<lambda>_ s.
              if c = 10 \<or> c = ctl CHR ''D'' \<or> in_e (inp s) = in_r (inp s) + INPUT_BUF
              then wakeup ChInput (set_inp ((inp s)\<lparr>in_w := in_e (inp s)\<rparr>) s)
              else Ret () s))
      else Ret () s)"

primrec type_chars :: "u8 list \<Rightarrow> 'a conin_scheme \<Rightarrow> (unit, 'a conin_scheme) res" where
  "type_chars [] s = Ret () s"
| "type_chars (c # cs) s = kbind (type_char c s) (\<lambda>_ s. type_chars cs s)"

definition consoleintr :: "u8 list \<Rightarrow> 'a conin_scheme \<Rightarrow> (unit, 'a conin_scheme) res" where
  "consoleintr cs s =
     kbind (lock_acquire LCons s) (\<lambda>_ s.
     kbind (type_chars cs s) (\<lambda>_ s.
     kbind (lock_release LCons s) (\<lambda>_ s.
       if ctl CHR ''P'' \<in> set cs then procdump s else Ret () s)))"

definition kbdintr :: "u8 list \<Rightarrow> 'a conin_scheme \<Rightarrow> (unit, 'a conin_scheme) res" where
  "kbdintr data s = (let (cs, shift) = kbd_chars (kbd_shift s) data in consoleintr cs (s\<lparr>kbd_shift := shift\<rparr>))"

section \<open>Reading and writing\<close>

text \<open>
  The loop of \<^verbatim>\<open>consoleread\<close> with \<open>n\<close> bytes to go and the bytes \<open>got\<close> so far. The result says whether the process has been killed, and has
  the bytes stored at \<^verbatim>\<open>dst\<close>. When there is nothing to read it ends in \<open>Sleep\<close> and goes on in \<open>consoleread_resume\<close>.
\<close>

definition in_get :: "inputbuf \<Rightarrow> u8" where
  "in_get x = in_buf x ! unat (in_r x mod INPUT_BUF)"

primrec read_loop :: "nat \<Rightarrow> u8 list \<Rightarrow> 'a conin_scheme \<Rightarrow> (bool \<times> u8 list, 'a conin_scheme) res" where
  "read_loop 0 got s = Ret (False, got) s"
| "read_loop (Suc n) got s =
     (if in_r (inp s) = in_w (inp s) then
        with_killed s (\<lambda>killed. if killed then Ret (True, got) s else sleep ChInput (Some LCons) s)
      else let c = in_get (inp s); t = set_inp ((inp s)\<lparr>in_r := in_r (inp s) + 1\<rparr>) s
           in if c = ctl CHR ''D'' then Ret (False, got) (if got \<noteq> [] then set_inp ((inp t)\<lparr>in_r := in_r (inp t) - 1\<rparr>) t else t)
              else if c = 10 then Ret (False, got @ [c]) t
              else read_loop n (got @ [c]) t)"

definition read_end :: "nat \<Rightarrow> bool \<times> u8 list \<Rightarrow> 'a conin_scheme \<Rightarrow> (int \<times> u8 list, 'a conin_scheme) res" where
  "read_end ip r s =
     kbind (lock_release LCons s) (\<lambda>_ s.
     kbind (ilock (Some ip) s) (\<lambda>_ s.
       Ret (if fst r then -1 else int (length (snd r)), snd r) s))"

text \<open>A negative \<open>n\<close> reads nothing, like 0.\<close>

definition consoleread :: "nat \<Rightarrow> int \<Rightarrow> 'a conin_scheme \<Rightarrow> (int \<times> u8 list, 'a conin_scheme) res" where
  "consoleread ip n s =
     kbind (iunlock (Some ip) s) (\<lambda>_ s.
     kbind (lock_acquire LCons s) (\<lambda>_ s.
     kbind (read_loop (nat n) [] s) (\<lambda>r s. read_end ip r s)))"

definition consoleread_resume :: "nat \<Rightarrow> nat \<Rightarrow> nat \<Rightarrow> u8 list \<Rightarrow> 'a conin_scheme \<Rightarrow> (int \<times> u8 list, 'a conin_scheme) res" where
  "consoleread_resume me ip n got s =
     kbind (sleep_resume me LCons s) (\<lambda>_ s.
     kbind (read_loop n got s) (\<lambda>r s. read_end ip r s))"

definition consolewrite :: "nat \<Rightarrow> u8 list \<Rightarrow> 'a conin_scheme \<Rightarrow> (int, 'a conin_scheme) res" where
  "consolewrite ip bs s =
     kbind (iunlock (Some ip) s) (\<lambda>_ s.
     kbind (lock_acquire LCons s) (\<lambda>_ s.
     kbind (consputs (map (\<lambda>c. char_of (unat c)) bs) s) (\<lambda>_ s.
     kbind (lock_release LCons s) (\<lambda>_ s.
     kbind (ilock (Some ip) s) (\<lambda>_ s. Ret (int (length bs)) s)))))"
text \<open>\<^verbatim>\<open>initlock\<close> frees the lock. The entries of \<^verbatim>\<open>devsw\<close> are the functions that \<open>fileread\<close> and \<open>filewrite\<close> take as arguments.\<close>

definition consoleinit :: "'a const_scheme \<Rightarrow> 'a const_scheme" where
  "consoleinit s = s\<lparr>held := removeAll LCons (held s), cons_locking := True\<rparr>"

section \<open>Keys\<close>

text \<open>The shift key turns the letters that follow into capitals until it is released.\<close>

lemma kbd_shift_letter: "kbd_chars 0 [0x2A, 0x1E, 0x9E, 0xAA, 0x1E] = ([0, 0x41, 0, 0, 0x61], 0)"
  by code_simp

section \<open>The ring buffer\<close>

definition ibytes :: "u8 list \<Rightarrow> u32 \<Rightarrow> nat \<Rightarrow> u8 list" where
  "ibytes buf r n = map (\<lambda>i. buf ! (unat (r + of_nat i) mod 128)) [0..<n]"

lemma length_ibytes [simp]: "length (ibytes buf r n) = n"
  by (simp add: ibytes_def)

lemma ibytes_0 [simp]: "ibytes buf r 0 = []"
  by (simp add: ibytes_def)

lemma ibytes_Suc: "ibytes buf r (Suc n) = ibytes buf r n @ [buf ! (unat (r + of_nat n) mod 128)]"
  by (simp add: ibytes_def)

lemma ibytes_Cons: "ibytes buf r (Suc n) = buf ! (unat r mod 128) # ibytes buf (r + 1) n"
  by (simp add: ibytes_def map_upt_Suc add.assoc del: upt_Suc)

lemma ibytes_append: "ibytes buf r (k + n) = ibytes buf r k @ ibytes buf (r + of_nat k) n"
  by (induction n) (simp_all add: ibytes_Suc add.assoc)

lemma unat_add_mod128: "i \<le> 128 \<Longrightarrow> unat (r + of_nat i :: u32) mod 128 = (unat r + i) mod 128"
proof -
  assume "i \<le> 128"
  then have "unat (r + of_nat i) = (unat r + i) mod 4294967296" by (simp add: unat_word_ariths unat_of_nat mod_add_right_eq)
  then show ?thesis by (simp add: mod_mod_cancel)
qed

lemma mod128_neq: "i < n \<Longrightarrow> n < i + (128 :: nat) \<Longrightarrow> (a + i) mod 128 \<noteq> (a + n) mod 128"
proof
  assume i: "i < n" "n < i + (128 :: nat)" and "(a + i) mod 128 = (a + n) mod 128"
  then have "128 dvd (a + n) - (a + i)" by (metis mod_eq_dvd_iff_nat add_le_cancel_left less_imp_le)
  then have "128 dvd n - i" by simp
  then show False using i by (auto dest: dvd_imp_le)
qed

lemma ibytes_update:
  assumes "n < 128" "m \<le> n"
  shows "ibytes (buf[unat (r + of_nat n) mod 128 := c]) r m = ibytes buf r m"
proof (rule nth_equalityI)
  fix i assume "i < length (ibytes (buf[unat (r + of_nat n) mod 128 := c]) r m)"
  then have i: "i < m" by simp
  then have "(unat r + i) mod 128 \<noteq> (unat r + n) mod 128" using assms by (intro mod128_neq) auto
  then have "unat (r + of_nat n) mod 128 \<noteq> unat (r + of_nat i) mod 128" using assms i by (simp add: unat_add_mod128)
  then show "ibytes (buf[unat (r + of_nat n) mod 128 := c]) r m ! i = ibytes buf r m ! i" using i by (simp add: ibytes_def)
qed simp

lemma unat_of_nat_le: "n \<le> 128 \<Longrightarrow> unat (of_nat n :: u32) = n"
  by (simp add: unat_of_nat)

text \<open>The buffer that holds \<open>rd\<close>, which may be read, and after it \<open>ln\<close>, which is still being edited.\<close>

definition inp_holds :: "inputbuf \<Rightarrow> u8 list \<Rightarrow> u8 list \<Rightarrow> bool" where
  "inp_holds x rd ln \<longleftrightarrow> length (in_buf x) = 128 \<and> length rd + length ln \<le> 128 \<and>
     in_w x = in_r x + of_nat (length rd) \<and> in_e x = in_w x + of_nat (length ln) \<and>
     ibytes (in_buf x) (in_r x) (length rd + length ln) = rd @ ln \<and> 10 \<notin> set ln"

lemma inp_holds_lens:
  assumes "inp_holds x rd ln"
  shows "unat (in_e x - in_w x) = length ln" "in_e x = in_w x \<longleftrightarrow> ln = []" "in_r x = in_w x \<longleftrightarrow> rd = []"
    "unat (in_e x - in_r x) = length rd + length ln"
proof -
  have l: "length rd + length ln \<le> 128" and w: "in_w x = in_r x + of_nat (length rd)" and e: "in_e x = in_w x + of_nat (length ln)"
    using assms by (auto simp: inp_holds_def)
  show 1: "unat (in_e x - in_w x) = length ln" using l unat_of_nat_le [of "length ln"] unfolding e by simp
  show "in_e x = in_w x \<longleftrightarrow> ln = []" using 1 by auto (use e in simp)
  have "unat (in_w x - in_r x) = length rd" using l unat_of_nat_le [of "length rd"] unfolding w by simp
  then show "in_r x = in_w x \<longleftrightarrow> rd = []" using w by auto
  have "in_e x - in_r x = of_nat (length rd + length ln)" unfolding e w by simp
  then show "unat (in_e x - in_r x) = length rd + length ln" using unat_of_nat_le [OF l] by simp
qed

lemma ibytes_put:
  assumes "n < 128" "e = r + of_nat n" "length buf = 128"
  shows "ibytes (buf[unat (e mod 128) := c]) r (Suc n) = ibytes buf r n @ [c]"
proof -
  have i: "unat (e mod 128) = unat (r + of_nat n) mod 128" using assms(2) by (simp add: unat_mod)
  show ?thesis using assms(3) unfolding i ibytes_Suc ibytes_update [OF assms(1) order_refl] by simp
qed

lemma inp_holds_put:
  assumes h: "inp_holds x rd ln" and r: "length rd + length ln < 128" and c: "c \<noteq> 10"
  defines "y \<equiv> x\<lparr>in_buf := (in_buf x)[unat (in_e x mod 128) := c], in_e := in_e x + 1\<rparr>"
  shows "inp_holds y rd (ln @ [c])"
proof -
  let ?n = "length rd + length ln"
  have e: "in_e x = in_r x + of_nat ?n" using h by (simp add: inp_holds_def add.assoc)
  have l: "length (in_buf x) = 128" using h by (simp add: inp_holds_def)
  have "ibytes (in_buf y) (in_r x) (Suc ?n) = rd @ ln @ [c]"
    using h ibytes_put [OF r e l, of c] unfolding y_def inp_holds_def by simp
  then show ?thesis using h r c l unfolding y_def inp_holds_def by (simp add: add.assoc)
qed

lemma inp_holds_commit:
  assumes "inp_holds x rd ln" shows "inp_holds (x\<lparr>in_w := in_e x\<rparr>) (rd @ ln) []"
  using assms by (simp add: inp_holds_def add.assoc)

lemma inp_holds_enter:
  assumes h: "inp_holds x rd ln" and r: "length rd + length ln < 128"
  defines "y \<equiv> x\<lparr>in_buf := (in_buf x)[unat (in_e x mod 128) := 10], in_e := in_e x + 1\<rparr>"
  shows "inp_holds (y\<lparr>in_w := in_e y\<rparr>) (rd @ ln @ [10]) []"
proof -
  let ?n = "length rd + length ln"
  have e: "in_e x = in_r x + of_nat ?n" using h by (simp add: inp_holds_def add.assoc)
  have l: "length (in_buf x) = 128" using h by (simp add: inp_holds_def)
  have "ibytes (in_buf y) (in_r x) (Suc ?n) = rd @ ln @ [10]"
    using h ibytes_put [OF r e l, of 10] unfolding y_def inp_holds_def by simp
  then show ?thesis using h r l e unfolding y_def inp_holds_def by (simp add: add.assoc)
qed

lemma inp_holds_rub:
  assumes "inp_holds x rd (ln @ [c])" shows "inp_holds (x\<lparr>in_e := in_e x - 1\<rparr>) rd ln"
  using assms by (auto simp: inp_holds_def ibytes_Suc)

lemma inp_holds_last:
  assumes "inp_holds x rd (ln @ [c])" shows "last_typed x = c"
proof -
  have "in_e x - 1 = in_r x + of_nat (length rd + length ln)" using assms by (simp add: inp_holds_def add.assoc)
  then show ?thesis using assms by (simp add: last_typed_def inp_holds_def ibytes_Suc unat_mod)
qed

lemma inp_holds_get:
  assumes "inp_holds x (c # rd) ln"
  shows "in_get x = c" "inp_holds (x\<lparr>in_r := in_r x + 1\<rparr>) rd ln"
  using assms by (auto simp: inp_holds_def ibytes_Cons in_get_def unat_mod add.assoc)

section \<open>Line editing\<close>

text \<open>The editor that the ring buffer implements, on the bytes that may be read and the line being typed.\<close>

definition edit :: "u8 \<Rightarrow> u8 list \<times> u8 list \<Rightarrow> u8 list \<times> u8 list" where
  "edit c v =
     (let (rd, ln) = v in
      if c = ctl CHR ''P'' then (rd, ln)
      else if c = ctl CHR ''U'' then (rd, [])
      else if c = ctl CHR ''H'' \<or> c = 0x7F then (rd, butlast ln)
      else if c = 0 \<or> length rd + length ln = 128 then (rd, ln)
      else let d = (if c = 13 then 10 else c)
           in if d = 10 \<or> d = ctl CHR ''D'' \<or> length rd + length ln = 127 then (rd @ ln @ [d], []) else (rd, ln @ [d]))"

lemma edit_grows: "\<exists>x. fst (edit c v) = fst v @ x"
  by (simp add: edit_def Let_def split: prod.split)

lemma edits_grow: "\<exists>x. fst (fold edit cs v) = fst v @ x"
proof (induction cs arbitrary: v)
  case (Cons c cs)
  obtain x y where "fst (edit c v) = fst v @ x" "fst (fold edit cs (edit c v)) = fst (edit c v) @ y"
    using edit_grows [of c v] Cons [of "edit c v"] by blast
  then show ?case by simp
qed simp

definition console_ok :: "u8 list \<times> u8 list \<Rightarrow> 'a conin_scheme \<Rightarrow> bool" where
  "console_ok v s \<longleftrightarrow> inp_holds (inp s) (fst v) (snd v) \<and> cga_pos s < 24 * 80 \<and> ptab_ok s"

text \<open>The process table after the readable bytes went from \<open>rd\<close> to \<open>rd'\<close>.\<close>

definition told :: "u8 list \<Rightarrow> u8 list \<Rightarrow> proc list \<Rightarrow> proc list" where
  "told rd rd' ps = (if rd' = rd then ps else woken ChInput ps)"

lemma told_same [simp]: "told rd rd ps = ps"
  by (simp add: told_def)

lemma told_told: "told (rd @ x) (rd @ x @ y) (told rd (rd @ x) ps) = told rd (rd @ x @ y) ps"
  using woken_quiet [OF no_sleeper_woken [of ChInput ps]] by (auto simp: told_def)

lemma consputc_Ret:
  assumes "cga_pos s < 24 * 80"
  shows "\<exists>out pos m. pos < 24 * 80 \<and> consputc c s = Ret () (s\<lparr>con_out := out, cga_pos := pos, crt := m\<rparr>)"
proof -
  obtain t where t: "consputc c s = Ret () t" "cga_pos t < 24 * 80" using consputc_screen [OF assms, of c] by blast
  then have "\<exists>out pos m. t = s\<lparr>con_out := out, cga_pos := pos, crt := m\<rparr>"
    by (auto simp: consputc_def cgaputc_def Let_def split: if_splits cchar.splits)
  then obtain out pos m where u: "t = s\<lparr>con_out := out, cga_pos := pos, crt := m\<rparr>" by blast
  have "pos < 24 * 80" using t(2) unfolding u by simp
  then show ?thesis using t(1) unfolding u by blast
qed

lemma console_ok_put [simp]:
  "pos < 24 * 80 \<Longrightarrow> console_ok v (s\<lparr>con_out := out, cga_pos := pos, crt := m\<rparr>) \<longleftrightarrow> inp_holds (inp s) (fst v) (snd v) \<and> ptab_ok s"
  by (simp add: console_ok_def ptab_ok_def)

lemma ptab_ok_set_inp [simp]: "ptab_ok (set_inp x s) = ptab_ok s"
  by (simp add: ptab_ok_def set_inp_def)

lemma set_inp_fields [simp]: "inp (set_inp x s) = x" "cga_pos (set_inp x s) = cga_pos s" "held (set_inp x s) = held s" "procs (set_inp x s) = procs s"
  "cpu_proc (set_inp x s) = cpu_proc s" "slocks (set_inp x s) = slocks s"
  by (simp_all add: set_inp_def)

text \<open>What one step of typing does: the buffer follows the editor, and a sleeping reader is woken when there is more to read.\<close>

definition typed :: "u8 list \<times> u8 list \<Rightarrow> u8 list \<times> u8 list \<Rightarrow> 'a conin_scheme \<Rightarrow> 'a conin_scheme \<Rightarrow> bool" where
  "typed v v' s t \<longleftrightarrow> console_ok v' t \<and> held t = held s \<and> procs t = told (fst v) (fst v') (procs s)"

lemma typed_refl: "console_ok v s \<Longrightarrow> typed v v s s"
  by (simp add: typed_def)

lemma rub_out:
  assumes "console_ok (rd, ln @ [c]) s"
  shows "\<exists>t. consputc BACKSPACE (set_inp ((inp s)\<lparr>in_e := in_e (inp s) - 1\<rparr>) s) = Ret () t \<and> typed (rd, ln @ [c]) (rd, ln) s t"
proof -
  let ?s = "set_inp ((inp s)\<lparr>in_e := in_e (inp s) - 1\<rparr>) s"
  have "cga_pos ?s < 24 * 80" using assms by (simp add: console_ok_def)
  then obtain out pos m where p: "pos < 24 * 80" "consputc BACKSPACE ?s = Ret () (?s\<lparr>con_out := out, cga_pos := pos, crt := m\<rparr>)"
    using consputc_Ret [of ?s BACKSPACE] by blast
  then show ?thesis using assms inp_holds_rub [of "inp s" rd ln c] by (simp add: typed_def) (simp add: console_ok_def)
qed

lemma kill_line_typed:
  assumes "console_ok (rd, ln) s"
  shows "\<exists>t. kill_line (length ln) s = Ret () t \<and> typed (rd, ln) (rd, []) s t"
  using assms
proof (induction ln arbitrary: s rule: rev_induct)
  case Nil
  then show ?case by (simp add: typed_refl)
next
  case (snoc c ln)
  have h: "inp_holds (inp s) rd (ln @ [c])" using snoc(2) by (simp add: console_ok_def)
  then have "c \<noteq> 10" by (simp add: inp_holds_def)
  then have go: "in_e (inp s) \<noteq> in_w (inp s) \<and> last_typed (inp s) \<noteq> 10"
    using inp_holds_lens(2) [OF h] inp_holds_last [OF h] by simp
  obtain s' where s': "consputc BACKSPACE (set_inp ((inp s)\<lparr>in_e := in_e (inp s) - 1\<rparr>) s) = Ret () s'" "typed (rd, ln @ [c]) (rd, ln) s s'"
    using rub_out [OF snoc(2)] by blast
  obtain t where t: "kill_line (length ln) s' = Ret () t" "typed (rd, ln) (rd, []) s' t"
    using snoc(1) [of s'] s'(2) by (auto simp: typed_def)
  show ?case using go s' t by (simp add: typed_def)
qed

lemma inp_full:
  assumes h: "inp_holds x rd ln" and r: "length rd + length ln < 128"
  shows "in_e x + 1 = in_r x + 128 \<longleftrightarrow> length rd + length ln = 127"
proof -
  let ?n = "Suc (length rd + length ln)"
  have e: "in_e x + 1 = in_r x + of_nat ?n" using h by (simp add: inp_holds_def add.assoc)
  have "(of_nat ?n :: u32) = of_nat 128 \<longleftrightarrow> ?n = 128" using unat_of_nat_le [of ?n] unat_of_nat_le [of 128] r by (metis Suc_leI order_refl)
  then show ?thesis unfolding e by simp
qed

lemma put_typed:
  assumes ok: "console_ok (rd, ln) s" and held: "LPtable \<notin> set (held s)" and r: "length rd + length ln < 128"
  defines "y d \<equiv> (inp s)\<lparr>in_buf := (in_buf (inp s))[unat (in_e (inp s) mod 128) := d], in_e := in_e (inp s) + 1\<rparr>"
  shows "\<exists>t. kbind (consputc (Ch (char_of (unat d))) (set_inp (y d) s)) (\<lambda>_ s.
              if d = 10 \<or> d = ctl CHR ''D'' \<or> in_e (inp s) = in_r (inp s) + 128
              then wakeup ChInput (set_inp ((inp s)\<lparr>in_w := in_e (inp s)\<rparr>) s)
              else Ret () s) = Ret () t \<and>
     typed (rd, ln) (if d = 10 \<or> d = ctl CHR ''D'' \<or> length rd + length ln = 127 then (rd @ ln @ [d], []) else (rd, ln @ [d])) s t"
proof -
  let ?s = "set_inp (y d) s"
  have h: "inp_holds (inp s) rd ln" using ok by (simp add: console_ok_def)
  have "cga_pos ?s < 24 * 80" using ok by (simp add: console_ok_def)
  then obtain out pos m where p: "pos < 24 * 80" "consputc (Ch (char_of (unat d))) ?s = Ret () (?s\<lparr>con_out := out, cga_pos := pos, crt := m\<rparr>)"
    using consputc_Ret [of ?s "Ch (char_of (unat d))"] by blast
  let ?t = "?s\<lparr>con_out := out, cga_pos := pos, crt := m\<rparr>"
  have full: "in_e (inp ?t) = in_r (inp ?t) + 128 \<longleftrightarrow> length rd + length ln = 127" using inp_full [OF h r] by (simp add: y_def)
  have pt: "ptab_ok ?t" using ok by (simp add: console_ok_def ptab_ok_def set_inp_def)
  show ?thesis
  proof (cases "d = 10 \<or> d = ctl CHR ''D'' \<or> length rd + length ln = 127")
    case True
    let ?w = "set_inp ((y d)\<lparr>in_w := in_e (y d)\<rparr>) ?t"
    have "inp_holds ((y d)\<lparr>in_w := in_e (y d)\<rparr>) (rd @ ln @ [d]) []"
      using inp_holds_enter [OF h r] inp_holds_commit [OF inp_holds_put [OF h r, of d]] by (cases "d = 10") (simp_all add: y_def)
    moreover have "wakeup ChInput ?w = Ret () (?w\<lparr>procs := woken ChInput (procs s)\<rparr>)"
      using wakeup_Ret [of ?w ChInput] pt held by simp
    moreover have "ptab_ok (?w\<lparr>procs := woken ChInput (procs s)\<rparr>)" using ptab_ok_woken [of ?w ChInput] pt by simp
    ultimately show ?thesis using True full p by (simp add: typed_def told_def console_ok_def set_inp_def)
  next
    case False
    then have "inp_holds (y d) rd (ln @ [d])" using inp_holds_put [OF h r, of d] by (simp add: y_def)
    then show ?thesis using False full p ok by (simp add: typed_def) (simp add: console_ok_def)
  qed
qed

lemma type_char_typed:
  assumes ok: "console_ok (rd, ln) s" and held: "LPtable \<notin> set (held s)"
  shows "\<exists>t. type_char c s = Ret () t \<and> typed (rd, ln) (edit c (rd, ln)) s t"
proof -
  have h: "inp_holds (inp s) rd ln" using ok by (simp add: console_ok_def)
  then have le: "length rd + length ln \<le> 128" by (simp add: inp_holds_def)
  consider (p) "c = ctl CHR ''P''" | (u) "c = ctl CHR ''U''" | (bs) "c = ctl CHR ''H'' \<or> c = 0x7F"
    | (n) "c \<notin> {ctl CHR ''P'', ctl CHR ''U'', ctl CHR ''H'', 0x7F}" "c = 0 \<or> length rd + length ln = 128"
    | (d) "c \<notin> {ctl CHR ''P'', ctl CHR ''U'', ctl CHR ''H'', 0x7F}" "c \<noteq> 0" "length rd + length ln < 128"
    using le by (cases "length rd + length ln = 128") (auto simp: ctl_def)
  then show ?thesis
  proof cases
    case p
    then show ?thesis using typed_refl [OF ok] by (simp add: type_char_def edit_def)
  next
    case u
    then show ?thesis using kill_line_typed [OF ok] inp_holds_lens(1) [OF h] by (simp add: type_char_def edit_def ctl_def)
  next
    case bs
    have ne: "c \<noteq> ctl CHR ''P''" "c \<noteq> ctl CHR ''U''" using bs by (auto simp: ctl_def)
    show ?thesis
    proof (cases ln rule: rev_cases)
      case Nil
      then show ?thesis using bs ne ok typed_refl [OF ok] inp_holds_lens(2) [of "inp s" rd ln]
        by (simp add: type_char_def edit_def console_ok_def)
    next
      case (snoc ks k)
      then show ?thesis using bs ne ok rub_out [of rd ks k s] inp_holds_lens(2) [of "inp s" rd ln]
        by (simp add: type_char_def edit_def console_ok_def)
    qed
  next
    case n
    then have no: "(c \<noteq> 0 \<and> in_e (inp s) - in_r (inp s) < 128) = False" using inp_holds_lens(4) [OF h] by (auto simp: word_less_nat_alt)
    have "type_char c s = Ret () s" using n(1) unfolding type_char_def no by simp
    then show ?thesis using n typed_refl [OF ok] by (simp add: edit_def)
  next
    case d
    then have "in_e (inp s) - in_r (inp s) < 128" using inp_holds_lens(4) [OF h] by (simp add: word_less_nat_alt)
    then show ?thesis using d put_typed [OF ok held d(3), of "if c = 13 then 10 else c"]
      by (simp add: type_char_def edit_def Let_def del: if_split)
  qed
qed

lemma type_chars_typed:
  assumes "console_ok v s" "LPtable \<notin> set (held s)"
  shows "\<exists>t. type_chars cs s = Ret () t \<and> typed v (fold edit cs v) s t"
  using assms
proof (induction cs arbitrary: v s)
  case Nil
  then show ?case by (simp add: typed_refl)
next
  case (Cons c cs)
  obtain s' where s': "type_char c s = Ret () s'" "typed v (edit c v) s s'"
    using type_char_typed [of "fst v" "snd v" s c] Cons.prems by auto
  obtain t where t: "type_chars cs s' = Ret () t" "typed (edit c v) (fold edit cs (edit c v)) s' t"
    using Cons.IH [of "edit c v" s'] s'(2) Cons.prems(2) by (auto simp: typed_def)
  obtain x y where "fst (edit c v) = fst v @ x" "fst (fold edit cs (edit c v)) = fst v @ x @ y"
    using edit_grows [of c v] edits_grow [of cs "edit c v"] by auto
  then have "typed v (fold edit cs (edit c v)) s t" using s'(2) t(2) by (simp add: typed_def told_told)
  then show ?case using s'(1) t(1) by simp
qed

section \<open>Reading a line\<close>

text \<open>
  What a reader that has \<open>n\<close> bytes to go takes from \<open>rd\<close>: whether it has to wait for more, the bytes, and the rest. \<open>g\<close> says that it has got
  some bytes before; then an end-of-file mark is left for the next read.
\<close>

definition take_line :: "nat \<Rightarrow> bool \<Rightarrow> u8 list \<Rightarrow> bool \<times> u8 list \<times> u8 list" where
  "take_line n g rd =
     (let body = takeWhile (\<lambda>c. c \<noteq> 10 \<and> c \<noteq> ctl CHR ''D'') (take n rd); more = drop (length body) rd
      in if length body = n then (False, body, more)
         else case more of
                [] \<Rightarrow> (True, body, [])
              | c # cs \<Rightarrow> (False, if c = 10 then body @ [c] else body, if c = 10 \<or> body = [] \<and> \<not> g then cs else more))"

lemma take_line_0 [simp]: "take_line 0 g rd = (False, [], rd)"
  by (simp add: take_line_def)

lemma take_line_Nil [simp]: "take_line (Suc n) g [] = (True, [], [])"
  by (simp add: take_line_def)

lemma take_line_stop:
  "take_line (Suc n) g (10 # rd) = (False, [10], rd)"
  "take_line (Suc n) g (ctl CHR ''D'' # rd) = (False, [], if g then ctl CHR ''D'' # rd else rd)"
  by (simp_all add: take_line_def ctl_def)

lemma take_line_Cons:
  "c \<noteq> 10 \<Longrightarrow> c \<noteq> ctl CHR ''D'' \<Longrightarrow>
   take_line (Suc n) g (c # rd) = (fst (take_line n True rd), c # fst (snd (take_line n True rd)), snd (snd (take_line n True rd)))"
  by (simp add: take_line_def Let_def split: list.split)

lemma set_inp_set_inp [simp]: "set_inp x (set_inp y s) = set_inp x s" "set_inp (inp s) s = s"
  by (simp_all add: set_inp_def)

definition read_result :: "bool \<Rightarrow> u8 list \<Rightarrow> 'a conin_scheme \<Rightarrow> (bool \<times> u8 list, 'a conin_scheme) res" where
  "read_result waits bs s =
     (if waits then with_killed s (\<lambda>killed. if killed then Ret (True, bs) s else sleep ChInput (Some LCons) s) else Ret (False, bs) s)"

lemma read_loop_takes:
  assumes "inp_holds (inp s) rd ln"
  shows "\<exists>x. inp_holds x (snd (snd (take_line n (got \<noteq> []) rd))) ln \<and>
     read_loop n got s = read_result (fst (take_line n (got \<noteq> []) rd)) (got @ fst (snd (take_line n (got \<noteq> []) rd))) (set_inp x s)"
  using assms
proof (induction n arbitrary: got rd s)
  case 0
  then show ?case by (intro exI [of _ "inp s"]) (simp add: read_result_def)
next
  case (Suc n)
  show ?case
  proof (cases rd)
    case Nil
    then have "in_r (inp s) = in_w (inp s)" using inp_holds_lens(3) [OF Suc.prems] by simp
    then show ?thesis using Nil Suc.prems by (intro exI [of _ "inp s"]) (simp add: read_result_def)
  next
    case (Cons c rd')
    let ?x = "(inp s)\<lparr>in_r := in_r (inp s) + 1\<rparr>"
    have ne: "in_r (inp s) \<noteq> in_w (inp s)" using inp_holds_lens(3) [OF Suc.prems] Cons by simp
    have c: "in_get (inp s) = c" and x: "inp_holds ?x rd' ln" using inp_holds_get Suc.prems Cons by blast+
    consider (nl) "c = 10" | (eof) "c = ctl CHR ''D''" | (c) "c \<noteq> 10" "c \<noteq> ctl CHR ''D''" by blast
    then show ?thesis
    proof cases
      case nl
      then show ?thesis using ne c x Cons by (intro exI [of _ ?x]) (simp add: take_line_stop read_result_def ctl_def)
    next
      case eof
      then show ?thesis using ne c x Cons Suc.prems
        by (intro exI [of _ "if got \<noteq> [] then inp s else ?x"]) (simp add: take_line_stop read_result_def)
    next
      case c
      then show ?thesis using Suc.IH [of "set_inp ?x s" rd' "got @ [c]"] x ne \<open>in_get (inp s) = c\<close> Cons
        by (simp add: take_line_Cons)
    qed
  qed
qed

section \<open>Properties\<close>

text \<open>
  C7. Typing. Whatever the values of the wrapping indices, the ring buffer is the line editor \<open>edit\<close>: control-U erases the line that is
  being typed, control-H and delete its last character, nothing can erase bytes that may be read already, a carriage return is a newline, and a
  line becomes readable with its newline, with an end-of-file mark or when the 128 bytes are full, beyond which characters are dropped.
  \<^verbatim>\<open>consoleintr\<close> neither panics nor keeps the lock, and it wakes the readers exactly when there is more to read.
\<close>

theorem console_edits:
  assumes "inp_holds (inp s) rd ln" "cga_pos s < 24 * 80" "ptab_ok s" "held s = []" "ctl CHR ''P'' \<notin> set cs"
  shows "\<exists>t rd' ln'. consoleintr cs s = Ret () t \<and> fold edit cs (rd, ln) = (rd', ln') \<and> inp_holds (inp t) rd' ln' \<and>
     cga_pos t < 24 * 80 \<and> ptab_ok t \<and> held t = [] \<and> procs t = (if rd' = rd then procs s else woken ChInput (procs s))"
proof -
  let ?s = "s\<lparr>held := [LCons]\<rparr>"
  have "console_ok (rd, ln) ?s" using assms by (simp add: console_ok_def)
  then obtain t where t: "type_chars cs ?s = Ret () t" "typed (rd, ln) (fold edit cs (rd, ln)) ?s t"
    using type_chars_typed [of "(rd, ln)" ?s cs] by auto
  have "consoleintr cs s = Ret () (t\<lparr>held := []\<rparr>)" using t assms(4,5) by (simp add: consoleintr_def typed_def)
  then show ?thesis using t(2) by (cases "fold edit cs (rd, ln)") (auto simp: typed_def told_def console_ok_def)
qed

text \<open>The example machine with an input buffer \<open>x\<close> and an inode for the console that process 1 has locked.\<close>

definition conin_ex :: "inputbuf \<Rightarrow> conin" where
  "conin_ex x = trst.extend (trst_ex\<lparr>cga_pos := 0, inodes := [inode_ex], slocks := (\<lambda>_. \<lparr>sl_locked = True, sl_pid = 1\<rparr>)\<rparr>) (conin.fields x 0)"

lemma conin_ex_simps [simp]:
  "inp (conin_ex x) = x" "cga_pos (conin_ex x) = 0" "held (conin_ex x) = []" "procs (conin_ex x) = procs_ex" "cpu_proc (conin_ex x) = Some 0"
  "inodes (conin_ex x) = [inode_ex]" "slocks (conin_ex x) = (\<lambda>_. \<lparr>sl_locked = True, sl_pid = 1\<rparr>)" "ptab_ok (conin_ex x)"
proof -
  have "ptab_ok trst_ex" using ptab_ok_ex by (simp add: ptab_ok_def ptab_ex_def)
  then show "ptab_ok (conin_ex x)" by (simp add: conin_ex_def ptab_ok_def trst.defs conin.defs)
qed (simp_all add: conin_ex_def trst.defs conin.defs)

text \<open>The keys l, x, backspace, s and enter, with the indices about to wrap.\<close>

theorem console_edits_witness:
  "\<exists>t. consoleintr [0x6C, 0x78, 8, 0x73, 13] (conin_ex \<lparr>in_buf = replicate 128 0, in_r = 0xFFFFFFFE, in_w = 0xFFFFFFFE, in_e = 0xFFFFFFFE\<rparr>) = Ret () t \<and>
     inp_holds (inp t) [0x6C, 0x73, 10] []"
proof -
  let ?x = "\<lparr>in_buf = replicate 128 0, in_r = 0xFFFFFFFE, in_w = 0xFFFFFFFE, in_e = 0xFFFFFFFE\<rparr>"
  have "inp_holds ?x [] []" by (simp add: inp_holds_def)
  moreover have "ctl CHR ''P'' \<notin> set [0x6C, 0x78, 8, 0x73, 13]" by (simp add: ctl_def)
  moreover have "fold edit [0x6C, 0x78, 8, 0x73, 13] ([], []) = ([0x6C, 0x73, 10], [])" by (simp add: edit_def ctl_def)
  ultimately show ?thesis using console_edits [of "conin_ex ?x" "[]" "[]" "[0x6C, 0x78, 8, 0x73, 13]"] by auto
qed

text \<open>
  C21. Reading. A read of the console takes the bytes up to a newline, an end-of-file mark or the count, whichever comes first. The newline is
  read; the mark ends the read and is taken only by a read that has no bytes before it, so that the caller sees a read of no bytes. The inode is
  unlocked in between, which wakes the processes that wait for it, and locked again. When the bytes run out before that, the reader fails
  if it is killed and otherwise sleeps with no lock but that of the process table.
\<close>

theorem console_reads:
  assumes "inp_holds (inp s) rd ln" "ptab_ok s" "held s = []" "cpu_proc s = Some me"
    and "slocks s (SlInode ip) = \<lparr>sl_locked = True, sl_pid = p_pid (procs s ! me)\<rparr>" "i_valid (inodes s ! ip)" "1 \<le> i_ref (inodes s ! ip)"
    and "take_line (nat n) False rd = (waits, bs, rest)"
  shows "\<exists>t. inp_holds (inp t) rest ln \<and>
     (if waits \<and> \<not> p_killed (procs s ! me)
      then consoleread ip n s = Sleep ChInput t \<and> held t = [LPtable] \<and> sleeps_on ChInput (procs t ! me) \<and> \<not> sl_locked (slocks t (SlInode ip))
      else consoleread ip n s = Ret (if waits then -1 else int (length bs), bs) t \<and> held t = [] \<and> slocks t = slocks s \<and>
        procs t = woken (ChInodeLock ip) (procs s))"
proof -
  let ?l = "\<lparr>sl_locked = False, sl_pid = 0\<rparr>"
  let ?u = "s\<lparr>slocks := (slocks s)(SlInode ip := ?l), procs := woken (ChInodeLock ip) (procs s)\<rparr>"
  let ?v = "?u\<lparr>held := [LCons]\<rparr>"
  have me: "me < length (procs s)" using assms(2,4) by (auto simp: ptab_ok_def procs_ok_def)
  then have k: "p_killed (woken c (procs s) ! me) = p_killed (procs s ! me)" for c
    by (simp add: nth_woken wake_proc_def)
  have u: "iunlock (Some ip) s = Ret () ?u"
    using assms(2-7) by (simp add: iunlock_def holdingsleep_Ret releasesleep_Ret)
  obtain x where x: "inp_holds x rest ln" "read_loop (nat n) [] ?v = read_result waits bs (set_inp x ?v)"
    using read_loop_takes [of ?v rd ln "nat n" "[]"] assms(1,8) by auto
  have run: "consoleread ip n s = kbind (read_result waits bs (set_inp x ?v)) (read_end ip)"
    using u x(2) assms(3) by (simp add: consoleread_def)
  let ?t = "set_inp x (?u\<lparr>held := [], slocks := slocks s\<rparr>)"
  have sl: "(slocks s)(SlInode ip := \<lparr>sl_locked = True, sl_pid = p_pid (procs s ! me)\<rparr>) = slocks s"
    using assms(5) by (metis fun_upd_triv)
  have e: "read_end ip r (set_inp x ?v) = Ret (if fst r then -1 else int (length (snd r)), snd r) ?t" for r
    using assms(3,4,6,7) me by (simp add: read_end_def ilock_def ilock_load_def acquiresleep_free set_inp_def sl)
  show ?thesis
  proof (cases "waits \<and> \<not> p_killed (procs s ! me)")
    case True
    then show ?thesis using assms(4) me x(1) k unfolding run
      by (simp add: read_result_def with_killed_def sleep_def sched_def updp_def sleeps_on_def set_inp_def)
  next
    case False
    then show ?thesis using assms(3,4) me x(1) k unfolding run
      by (auto simp: read_result_def with_killed_def e intro!: exI [of _ ?t])
  qed
qed

text \<open>A line that lies across the end of the buffer, read by a process that asks for 100 bytes.\<close>

theorem console_reads_witness:
  "\<exists>t. consoleread 0 100 (conin_ex \<lparr>in_buf = (replicate 128 0)[126 := 0x6C, 127 := 0x73, 0 := 10], in_r = 0xFFFFFFFE, in_w = 1, in_e = 1\<rparr>) =
     Ret (3, [0x6C, 0x73, 10]) t"
proof -
  let ?x = "\<lparr>in_buf = (replicate 128 0)[126 := 0x6C, 127 := 0x73, 0 := 10], in_r = 0xFFFFFFFE, in_w = 1, in_e = 1\<rparr>"
  have "inp_holds ?x [0x6C, 0x73, 10] []" by (simp add: inp_holds_def ibytes_def upt_conv_Cons)
  moreover have "take_line (nat 100) False [0x6C, 0x73, 10] = (False, [0x6C, 0x73, 10], [])" by (simp add: take_line_def ctl_def)
  moreover have "p_pid (procs_ex ! 0) = 1" by (simp add: procs_ex_nth proc_ex_def unused_proc_def)
  ultimately show ?thesis using console_reads [of "conin_ex ?x" "[0x6C, 0x73, 10]" "[]" 0 0 100] by (auto simp: inode_ex_def)
qed

end
