(* ===== verification/Shell.thy ===== *)
theory Shell
  imports Prelude "HOL-Library.Sublist"
begin

text \<open>
  The shell (\<^verbatim>\<open>sh.c\<close>): its recursive-descent parser and \<^verbatim>\<open>runcmd\<close>. A pointer into the command line is the part of the line that starts there;
  the line itself is the C string up to its end \<^verbatim>\<open>es\<close>. The parser is recursive in \<^verbatim>\<open>parseline\<close>, \<^verbatim>\<open>parsepipe\<close>, \<^verbatim>\<open>parseexec\<close> and \<^verbatim>\<open>parseblock\<close>; that
  recursion carries fuel, and the lemmas show that four units a character are enough. \<^verbatim>\<open>malloc\<close> is taken to succeed, as the code
  takes it. The theorems: the parser ends on every line and cuts it into its words; the text of a command parses to this command;
  \<^verbatim>\<open>runcmd\<close> connects the programs of a command line as its pipes and redirections say.
\<close>

section \<open>Commands\<close>

text \<open>The five kinds of \<^verbatim>\<open>struct cmd\<close>; \<open>'t\<close> is the type of a word, in the parser a pair of pointers \<^verbatim>\<open>(argv, eargv)\<close>.\<close>

datatype 't cmd =
    EXEC "'t list"
  | REDIR "'t cmd" 't u32 nat    \<comment> \<open>\<^verbatim>\<open>cmd\<close>, \<^verbatim>\<open>file\<close>, \<^verbatim>\<open>mode\<close>, \<^verbatim>\<open>fd\<close>\<close>
  | PIPE "'t cmd" "'t cmd"
  | LIST "'t cmd" "'t cmd"
  | BACK "'t cmd"

abbreviation (input) O_RDONLY :: u32 where "O_RDONLY \<equiv> 0"
abbreviation (input) O_WRONLY :: u32 where "O_WRONLY \<equiv> 1"
abbreviation (input) O_CREATE :: u32 where "O_CREATE \<equiv> 0x200"
abbreviation (input) MAXARGS :: nat where "MAXARGS \<equiv> 10"

type_synonym tok = "string \<times> string"

text \<open>What a parsing function does: return, print a message and exit, or run out of the model's fuel.\<close>

datatype 'a pres = Ok 'a | Exits string | NoFuel

fun pbind :: "'a pres \<Rightarrow> ('a \<Rightarrow> 'b pres) \<Rightarrow> 'b pres" where
  "pbind (Ok x) f = f x"
| "pbind (Exits m) f = Exits m"
| "pbind NoFuel f = NoFuel"

definition sh_panic :: "string \<Rightarrow> 'a pres" where
  "sh_panic m = Exits (m @ [CHR 0x0A])"

section \<open>Tokens\<close>

definition whitespace :: string where
  "whitespace = [CHR '' '', CHR 0x09, CHR 0x0D, CHR 0x0A, CHR 0x0B]"

definition symbols :: string where
  "symbols = ''<|>&;()''"

definition skip_ws :: "string \<Rightarrow> string" where
  "skip_ws s = dropWhile (\<lambda>c. c \<in> set whitespace) s"

definition wordchar :: "char \<Rightarrow> bool" where
  "wordchar c \<longleftrightarrow> c \<notin> set whitespace \<and> c \<notin> set symbols"

text \<open>The kind of the token that starts at \<open>q\<close>, and where it ends.\<close>

definition tok_end :: "string \<Rightarrow> char \<times> string" where
  "tok_end q =
     (case q of
        [] \<Rightarrow> (CHR 0x00, [])
      | c # cs \<Rightarrow>
          if c \<in> set ''|();&<'' then (c, cs)
          else if c = CHR ''>'' then
            (case cs of d # ds \<Rightarrow> if d = CHR ''>'' then (CHR ''+'', ds) else (c, cs) | [] \<Rightarrow> (c, cs))
          else (CHR ''a'', dropWhile wordchar q))"

text \<open>The result is the kind, the start \<^verbatim>\<open>q\<close> and the end \<^verbatim>\<open>eq\<close> of the token, and the new value of \<^verbatim>\<open>*ps\<close>.\<close>

definition gettoken :: "string \<Rightarrow> char \<times> tok \<times> string" where
  "gettoken s = (let q = skip_ws s; (ret, e) = tok_end q in (ret, (q, e), skip_ws e))"

definition peek :: "string \<Rightarrow> string \<Rightarrow> bool \<times> string" where
  "peek toks s = (let s = skip_ws s in (s \<noteq> [] \<and> hd s \<in> set toks, s))"

lemma length_skip_ws: "length (skip_ws s) \<le> length s"
  by (simp add: skip_ws_def length_dropWhile_le)

lemma skip_ws_hd: "skip_ws s = c # cs \<Longrightarrow> c \<notin> set whitespace"
  unfolding skip_ws_def dropWhile_eq_Cons_conv by blast

lemma skip_ws_id: "s = [] \<or> hd s \<notin> set whitespace \<Longrightarrow> skip_ws s = s"
  by (cases s) (auto simp: skip_ws_def)

lemma skip_ws_idem [simp]: "skip_ws (skip_ws s) = skip_ws s"
proof (cases "skip_ws s")
  case (Cons c cs)
  then show ?thesis using skip_ws_hd [OF Cons] by (intro skip_ws_id) simp
qed (simp add: skip_ws_def)

lemma tok_end_Cons: "c \<notin> set whitespace \<Longrightarrow> length (snd (tok_end (c # cs))) \<le> length cs"
  using length_dropWhile_le [of wordchar cs] by (auto simp: tok_end_def wordchar_def symbols_def split: list.splits)

lemma length_gettoken: "length (snd (snd (gettoken s))) \<le> length (skip_ws s) - 1"
proof (cases "skip_ws s")
  case Nil
  then show ?thesis by (simp add: gettoken_def tok_end_def skip_ws_id [of "[]"])
next
  case (Cons c cs)
  obtain t e where e: "tok_end (c # cs) = (t, e)" by (cases "tok_end (c # cs)") auto
  then show ?thesis using tok_end_Cons [OF skip_ws_hd [OF Cons], of cs] length_skip_ws [of e] Cons by (simp add: gettoken_def)
qed

lemma gettoken_le: "gettoken s = (t, q, r) \<Longrightarrow> length r \<le> length s"
  using length_gettoken [of s] length_skip_ws [of s] by simp

lemma gettoken_less: "gettoken s = (t, q, r) \<Longrightarrow> skip_ws s \<noteq> [] \<Longrightarrow> length r < length s"
  using length_gettoken [of s] length_skip_ws [of s] by (cases "skip_ws s") simp_all

lemma peek_eq: "peek ts s = (p, r) \<longleftrightarrow> r = skip_ws s \<and> (p \<longleftrightarrow> r \<noteq> [] \<and> hd r \<in> set ts)"
  by (auto simp: peek_def Let_def)

text \<open>What follows a successful \<^verbatim>\<open>peek\<close> is shorter.\<close>

lemma peek_gettoken: "peek ts s = (True, r) \<Longrightarrow> gettoken r = (t, q, r') \<Longrightarrow> length r' < length s"
  using gettoken_less [of r t q r'] length_skip_ws [of s] by (auto simp: peek_eq)

lemma peek_gettoken1: "(True, r) = peek ts s \<Longrightarrow> (t, q, r') = gettoken r \<Longrightarrow> length r' < length s"
  by (metis peek_gettoken)

lemma peek_gettoken2: "(True, r) = peek ts s \<Longrightarrow> (t, q, r') = gettoken r \<Longrightarrow> (t2, q2, r2) = gettoken r' \<Longrightarrow> length r2 < length s"
  using peek_gettoken1 [of r ts s t q r'] gettoken_le [of r' t2 q2 r2] by simp

section \<open>The parser\<close>

text \<open>\<^verbatim>\<open>cmd->argv[argc]\<close> is set through the pointer to the innermost command, around which \<^verbatim>\<open>parseredirs\<close> has put redirections.\<close>

primrec add_arg :: "'t \<Rightarrow> 't cmd \<Rightarrow> 't cmd" where
  "add_arg a (EXEC as) = EXEC (as @ [a])"
| "add_arg a (REDIR c f m d) = REDIR (add_arg a c) f m d"
| "add_arg a (PIPE l r) = PIPE l r"
| "add_arg a (LIST l r) = LIST l r"
| "add_arg a (BACK c) = BACK c"

function parseredirs :: "tok cmd \<Rightarrow> string \<Rightarrow> (tok cmd \<times> string) pres" where
  "parseredirs cmd s =
     (let (p, s) = peek ''<>'' s
      in if \<not> p then Ok (cmd, s)
         else let (tok, _, s) = gettoken s; (t, qe, s) = gettoken s
              in if t \<noteq> CHR ''a'' then sh_panic ''missing file for redirection''
                 else parseredirs
                   (if tok = CHR ''<'' then REDIR cmd qe O_RDONLY 0
                    else if tok = CHR ''>'' then REDIR cmd qe (O_WRONLY OR O_CREATE) 1
                    else if tok = CHR ''+'' then REDIR cmd qe (O_WRONLY OR O_CREATE) 1
                    else cmd) s)"
  by pat_completeness auto
termination
  by (relation "measure (\<lambda>(_, s). length s)") (auto dest: peek_gettoken2)

declare parseredirs.simps [simp del]

text \<open>The loop of \<^verbatim>\<open>parseexec\<close> with \<open>argc\<close> arguments so far.\<close>

function parseargs :: "nat \<Rightarrow> tok cmd \<Rightarrow> string \<Rightarrow> (tok cmd \<times> string) pres" where
  "parseargs argc cmd s =
     (let (p, s) = peek ''|)&;'' s
      in if p then Ok (cmd, s)
         else let (tok, qe, s) = gettoken s
              in if tok = CHR 0x00 then Ok (cmd, s)
                 else if tok \<noteq> CHR ''a'' then sh_panic ''syntax''
                 else if argc + 1 \<ge> MAXARGS then sh_panic ''too many args''
                 else pbind (parseredirs (add_arg qe cmd) s) (\<lambda>(cmd, s). parseargs (argc + 1) cmd s))"
  by pat_completeness auto
termination
  by (relation "measure (\<lambda>(argc, _). MAXARGS - argc)") auto

declare parseargs.simps [simp del]

text \<open>The loop of \<^verbatim>\<open>parseline\<close> over \<^verbatim>\<open>&\<close>.\<close>

function parseback :: "tok cmd \<Rightarrow> string \<Rightarrow> tok cmd \<times> string" where
  "parseback cmd s =
     (let (p, s) = peek ''&'' s
      in if p then let (_, _, s) = gettoken s in parseback (BACK cmd) s else (cmd, s))"
  by pat_completeness auto
termination
  by (relation "measure (\<lambda>(_, s). length s)") (auto dest: peek_gettoken1)

declare parseback.simps [simp del]

fun parseline :: "nat \<Rightarrow> string \<Rightarrow> (tok cmd \<times> string) pres"
  and parsepipe :: "nat \<Rightarrow> string \<Rightarrow> (tok cmd \<times> string) pres"
  and parseblock :: "nat \<Rightarrow> string \<Rightarrow> (tok cmd \<times> string) pres"
  and parseexec :: "nat \<Rightarrow> string \<Rightarrow> (tok cmd \<times> string) pres" where
  "parseline 0 s = NoFuel"
| "parseline (Suc n) s =
     pbind (parsepipe n s) (\<lambda>(cmd, s).
       let (cmd, s) = parseback cmd s; (p, s) = peek '';'' s
       in if p then let (_, _, s) = gettoken s in pbind (parseline n s) (\<lambda>(right, s). Ok (LIST cmd right, s))
          else Ok (cmd, s))"
| "parsepipe 0 s = NoFuel"
| "parsepipe (Suc n) s =
     pbind (parseexec n s) (\<lambda>(cmd, s).
       let (p, s) = peek ''|'' s
       in if p then let (_, _, s) = gettoken s in pbind (parsepipe n s) (\<lambda>(right, s). Ok (PIPE cmd right, s))
          else Ok (cmd, s))"
| "parseblock 0 s = NoFuel"
| "parseblock (Suc n) s =
     (let (p, s) = peek ''('' s
      in if \<not> p then sh_panic ''parseblock''
         else let (_, _, s) = gettoken s
              in pbind (parseline n s) (\<lambda>(cmd, s).
                   let (p, s) = peek '')'' s
                   in if \<not> p then sh_panic ''syntax - missing )''
                      else let (_, _, s) = gettoken s in parseredirs cmd s))"
| "parseexec 0 s = NoFuel"
| "parseexec (Suc n) s =
     (let (p, s) = peek ''('' s
      in if p then parseblock n s
         else pbind (parseredirs (EXEC []) s) (\<lambda>(ret, s). parseargs 0 ret s))"

text \<open>
  \<^verbatim>\<open>nulterminate\<close> writes a NUL at the end of every word of the command, in the buffer \<open>b\<close> that holds a line of \<open>es\<close> characters; the
  pointer \<open>e\<close> is at index \<open>es - length e\<close>.
\<close>

definition nul_at :: "nat \<Rightarrow> tok \<Rightarrow> string \<Rightarrow> string" where
  "nul_at es t b = b[es - length (snd t) := CHR 0x00]"

primrec nulterminate :: "nat \<Rightarrow> tok cmd \<Rightarrow> string \<Rightarrow> string" where
  "nulterminate es (EXEC as) b = fold (nul_at es) as b"
| "nulterminate es (REDIR c f m d) b = nul_at es f (nulterminate es c b)"
| "nulterminate es (PIPE l r) b = nulterminate es r (nulterminate es l b)"
| "nulterminate es (LIST l r) b = nulterminate es r (nulterminate es l b)"
| "nulterminate es (BACK c) b = nulterminate es c b"

text \<open>\<^verbatim>\<open>parsecmd\<close> returns the command and the buffer it points into.\<close>

definition parsecmd :: "string \<Rightarrow> (tok cmd \<times> string) pres" where
  "parsecmd s =
     pbind (parseline (4 * length s + 4) s) (\<lambda>(cmd, r).
       let (_, r) = peek [] r
       in if r \<noteq> [] then Exits (''leftovers: '' @ r @ [CHR 0x0A] @ ''syntax'' @ [CHR 0x0A])
          else Ok (cmd, nulterminate (length s) cmd (s @ [CHR 0x00])))"

text \<open>The command that \<^verbatim>\<open>runcmd\<close> sees: its words are the C strings in the buffer.\<close>

definition cstr_at :: "string \<Rightarrow> nat \<Rightarrow> string" where
  "cstr_at b i = takeWhile (\<lambda>c. c \<noteq> CHR 0x00) (drop i b)"

definition seen :: "nat \<Rightarrow> string \<Rightarrow> tok cmd \<Rightarrow> string cmd" where
  "seen es b c = map_cmd (\<lambda>(q, e). cstr_at b (es - length q)) c"

section \<open>Running a command\<close>

text \<open>
  \<^verbatim>\<open>runcmd\<close> as the sequence of things its process does: it forks a process with a sequence of its own, waits, replaces itself by a program, prints on
  descriptor 2, exits. \<open>AWait\<close> and \<open>AExec\<close> carry the table of open files of the process at that moment. A pipe is named by the place in the command
  that creates it, a list of left and right turns; each place runs at most once. \<^verbatim>\<open>open\<close>, \<^verbatim>\<open>dup\<close> and \<^verbatim>\<open>pipe\<close> take the
  lowest free descriptors, as \<^verbatim>\<open>fdalloc\<close> of \<^verbatim>\<open>sysfile.c\<close> does. Which files can be opened (\<open>opens\<close>) and which programs run
  (\<open>progs\<close>) are arguments; \<^verbatim>\<open>fork\<close> is taken to succeed.
\<close>

datatype obj = OTty | OFile string u32 | OPipeR "bool list" | OPipeW "bool list"

type_synonym fdtab = "obj option list"

datatype act =
    AFork "act list"
  | AWait fdtab
  | AExec "string list" fdtab
  | AChdir string
  | APrint string
  | AExit

definition fd_close :: "nat \<Rightarrow> fdtab \<Rightarrow> fdtab" where
  "fd_close fd t = t[fd := None]"

definition fd_new :: "obj \<Rightarrow> fdtab \<Rightarrow> (nat \<times> fdtab) option" where
  "fd_new x t = (case find_index (\<lambda>y. y = None) t of None \<Rightarrow> None | Some i \<Rightarrow> Some (i, t[i := Some x]))"

definition fd_dup :: "nat \<Rightarrow> fdtab \<Rightarrow> fdtab" where
  "fd_dup fd t = (case t ! fd of None \<Rightarrow> t | Some x \<Rightarrow> (case fd_new x t of None \<Rightarrow> t | Some (i, t) \<Rightarrow> t))"

text \<open>\<^verbatim>\<open>pipe(p)\<close> on the pipe \<open>x\<close>: the descriptors of the reading and of the writing end.\<close>

definition fd_pipe :: "bool list \<Rightarrow> fdtab \<Rightarrow> (nat \<times> nat \<times> fdtab) option" where
  "fd_pipe x t =
     (case fd_new (OPipeR x) t of
        None \<Rightarrow> None
      | Some (i, t) \<Rightarrow> (case fd_new (OPipeW x) t of None \<Rightarrow> None | Some (j, t) \<Rightarrow> Some (i, j, t)))"

definition act_panic :: "string \<Rightarrow> act list" where
  "act_panic m = [APrint (m @ [CHR 0x0A]), AExit]"

primrec runcmd :: "(string \<Rightarrow> bool) \<Rightarrow> (string \<Rightarrow> u32 \<Rightarrow> bool) \<Rightarrow> bool list \<Rightarrow> string cmd \<Rightarrow> fdtab \<Rightarrow> act list" where
  "runcmd progs opens x (EXEC argv) t =
     (if argv = [] then [AExit]
      else AExec argv t # (if progs (hd argv) then [] else [APrint (''exec '' @ hd argv @ '' failed'' @ [CHR 0x0A]), AExit]))"
| "runcmd progs opens x (REDIR c f m fd) t =
     (let t = fd_close fd t
      in case (if opens f m then fd_new (OFile f m) t else None) of
           None \<Rightarrow> [APrint (''open '' @ f @ '' failed'' @ [CHR 0x0A]), AExit]
         | Some (_, t) \<Rightarrow> runcmd progs opens x c t)"
| "runcmd progs opens x (LIST l r) t =
     AFork (runcmd progs opens (False # x) l t) # AWait t # runcmd progs opens (True # x) r t"
| "runcmd progs opens x (PIPE l r) t =
     (case fd_pipe x t of
        None \<Rightarrow> act_panic ''pipe''
      | Some (p0, p1, t) \<Rightarrow>
          [AFork (runcmd progs opens (False # x) l (fd_close p1 (fd_close p0 (fd_dup p1 (fd_close 1 t))))),
           AFork (runcmd progs opens (True # x) r (fd_close p1 (fd_close p0 (fd_dup p0 (fd_close 0 t))))),
           AWait (fd_close p1 (fd_close p0 t)), AWait (fd_close p1 (fd_close p0 t)), AExit])"
| "runcmd progs opens x (BACK c) t = [AFork (runcmd progs opens (False # x) c t), AExit]"

text \<open>The first loop of \<^verbatim>\<open>main\<close>: the console is opened until descriptor 3 comes back. Each pass takes a free descriptor, so \<open>length t\<close> passes are enough.\<close>

primrec sh_open :: "nat \<Rightarrow> fdtab \<Rightarrow> fdtab" where
  "sh_open 0 t = t"
| "sh_open (Suc n) t =
     (case fd_new OTty t of
        None \<Rightarrow> t
      | Some (fd, t) \<Rightarrow> if fd \<ge> 3 then fd_close fd t else sh_open n t)"

text \<open>
  One pass of the loop of \<^verbatim>\<open>main\<close>, for the line \<open>s\<close> that \<^verbatim>\<open>getcmd\<close> has read and the shell's open files \<open>t\<close>. \<open>dirs\<close> says which directories
  \<^verbatim>\<open>chdir\<close> can enter.
\<close>

definition sh_line :: "(string \<Rightarrow> bool) \<Rightarrow> (string \<Rightarrow> u32 \<Rightarrow> bool) \<Rightarrow> (string \<Rightarrow> bool) \<Rightarrow> string \<Rightarrow> fdtab \<Rightarrow> act list" where
  "sh_line progs opens dirs s t =
     (if take 3 s = ''cd ''
      then let d = drop 3 (butlast s) in AChdir d # (if dirs d then [] else [APrint (''cannot cd '' @ d @ [CHR 0x0A])])
      else [AFork (case parsecmd s of
                     Ok (c, b) \<Rightarrow> runcmd progs opens [] (seen (length s) b c) t
                   | Exits m \<Rightarrow> [APrint m, AExit]
                   | NoFuel \<Rightarrow> []),
            AWait t])"

section \<open>The parser ends, and its words are the words of the line\<close>

definition tok_word :: "tok \<Rightarrow> string" where
  "tok_word t = take (length (fst t) - length (snd t)) (fst t)"

text \<open>A token of the line \<open>buf\<close>: a word that ends at the end of the line or at a character that cannot be in a word.\<close>

definition tok_ok :: "string \<Rightarrow> tok \<Rightarrow> bool" where
  "tok_ok buf t \<longleftrightarrow> suffix (fst t) buf \<and> (\<exists>w. fst t = w @ snd t \<and> w \<noteq> [] \<and> list_all wordchar w \<and> (snd t = [] \<or> \<not> wordchar (hd (snd t))))"

primrec args_ok :: "'t cmd \<Rightarrow> bool" where
  "args_ok (EXEC as) \<longleftrightarrow> length as < MAXARGS"
| "args_ok (REDIR c f m d) \<longleftrightarrow> args_ok c"
| "args_ok (PIPE l r) \<longleftrightarrow> args_ok l \<and> args_ok r"
| "args_ok (LIST l r) \<longleftrightarrow> args_ok l \<and> args_ok r"
| "args_ok (BACK c) \<longleftrightarrow> args_ok c"

text \<open>The arguments of the innermost command, to which \<open>add_arg\<close> adds one.\<close>

primrec inner_args :: "'t cmd \<Rightarrow> nat" where
  "inner_args (EXEC as) = length as"
| "inner_args (REDIR c f m d) = inner_args c"
| "inner_args (PIPE l r) = 0"
| "inner_args (LIST l r) = 0"
| "inner_args (BACK c) = 0"

lemma add_arg_args: "args_ok c \<Longrightarrow> inner_args c \<le> k \<Longrightarrow> k + 1 < MAXARGS \<Longrightarrow> args_ok (add_arg a c) \<and> inner_args (add_arg a c) \<le> k + 1"
  by (induction c) auto

lemma set_cmd_add_arg: "set_cmd (add_arg a c) \<subseteq> insert a (set_cmd c)"
  by (induction c) auto

fun pok :: "('a \<Rightarrow> bool) \<Rightarrow> 'a pres \<Rightarrow> bool" where
  "pok P (Ok x) = P x"
| "pok P (Exits m) = True"
| "pok P NoFuel = False"

lemma pok_pbind: "pok P m \<Longrightarrow> (\<And>x. P x \<Longrightarrow> pok Q (f x)) \<Longrightarrow> pok Q (pbind m f)"
  by (cases m) auto

lemma pok_panic [simp]: "pok P (sh_panic m)"
  by (simp add: sh_panic_def)

text \<open>What a parsing function establishes when it starts at \<open>s\<close> of the line \<open>buf\<close>.\<close>

definition parsed :: "string \<Rightarrow> string \<Rightarrow> tok cmd \<times> string \<Rightarrow> bool" where
  "parsed buf s x \<longleftrightarrow> suffix (snd x) s \<and> suffix s buf \<and> (\<forall>t\<in>set_cmd (fst x). tok_ok buf t) \<and> args_ok (fst x)"

lemma suffix_skip_ws: "suffix (skip_ws s) s"
  by (simp add: skip_ws_def suffix_dropWhile)

lemma gettoken_suffix: "gettoken s = (t, q, r) \<Longrightarrow> suffix r s"
proof -
  assume g: "gettoken s = (t, q, r)"
  obtain u e where e: "tok_end (skip_ws s) = (u, e)" by (cases "tok_end (skip_ws s)") auto
  then have "suffix e (skip_ws s)"
    using suffix_dropWhile [of wordchar "skip_ws s"]
    by (auto simp: tok_end_def suffix_Cons split: list.splits if_splits)
  moreover have "r = skip_ws e" using g e by (simp add: gettoken_def)
  ultimately show ?thesis using suffix_skip_ws by (metis suffix_order.trans)
qed

lemma gettoken_word: "gettoken s = (CHR ''a'', t, r) \<Longrightarrow> suffix s buf \<Longrightarrow> tok_ok buf t"
proof -
  assume g: "gettoken s = (CHR ''a'', t, r)" and s: "suffix s buf"
  obtain c cs where c: "skip_ws s = c # cs" using g by (cases "skip_ws s") (auto simp: gettoken_def tok_end_def)
  have "c \<notin> set ''|();&<>''" using g c by (auto simp: gettoken_def tok_end_def split: if_splits list.splits)
  then have w: "wordchar c" using skip_ws_hd [OF c] by (auto simp: wordchar_def symbols_def)
  then have t: "t = (c # cs, dropWhile wordchar (c # cs))"
    using g c by (auto simp: gettoken_def tok_end_def wordchar_def symbols_def split: if_splits list.splits)
  have "c # cs = takeWhile wordchar (c # cs) @ dropWhile wordchar (c # cs)" by simp
  moreover have "takeWhile wordchar (c # cs) \<noteq> []" using w by simp
  moreover have "list_all wordchar (takeWhile wordchar (c # cs))" by (auto simp: list_all_iff dest: set_takeWhileD)
  moreover have "dropWhile wordchar (c # cs) = [] \<or> \<not> wordchar (hd (dropWhile wordchar (c # cs)))"
    using hd_dropWhile by blast
  moreover have "suffix (c # cs) buf" using suffix_skip_ws [of s] c s by (metis suffix_order.trans)
  ultimately show ?thesis unfolding tok_ok_def t fst_conv snd_conv by blast
qed

lemma parsed_trans: "suffix r s \<Longrightarrow> parsed buf r x \<Longrightarrow> suffix s buf \<Longrightarrow> parsed buf s x"
  by (auto simp: parsed_def intro: suffix_order.trans)

lemma parseredirs_parsed:
  "parsed buf s (c, s) \<Longrightarrow> inner_args c \<le> k \<Longrightarrow> pok (\<lambda>x. parsed buf s x \<and> inner_args (fst x) \<le> k) (parseredirs c s)"
proof (induction "length s" arbitrary: c s rule: less_induct)
  case (less s c)
  obtain p s1 where p: "peek ''<>'' s = (p, s1)" by (cases "peek ''<>'' s") auto
  obtain tok q s2 where g1: "gettoken s1 = (tok, q, s2)" by (cases "gettoken s1") auto
  obtain t qe s3 where g2: "gettoken s2 = (t, qe, s3)" by (cases "gettoken s2") auto
  have s1: "suffix s1 s" using p suffix_skip_ws by (simp add: peek_eq)
  have s2: "suffix s2 s" using s1 gettoken_suffix [OF g1] by (metis suffix_order.trans)
  have s3: "suffix s3 s" using s2 gettoken_suffix [OF g2] by (metis suffix_order.trans)
  have b: "suffix s buf" "\<forall>t\<in>set_cmd c. tok_ok buf t" "args_ok c" using less.prems by (auto simp: parsed_def)
  let ?c = "if tok = CHR ''<'' then REDIR c qe O_RDONLY 0 else if tok = CHR ''>'' then REDIR c qe (O_WRONLY OR O_CREATE) 1
      else if tok = CHR ''+'' then REDIR c qe (O_WRONLY OR O_CREATE) 1 else c"
  show ?case
  proof (cases "p \<and> t = CHR ''a''")
    case True
    have "tok_ok buf qe" using gettoken_word [of s2 qe s3 buf] g2 True s2 b(1) by (meson suffix_order.trans)
    then have "parsed buf s3 (?c, s3)" using b s3 by (auto simp: parsed_def intro: suffix_order.trans)
    moreover have "inner_args ?c \<le> k" using less.prems by simp
    ultimately have "pok (\<lambda>x. parsed buf s3 x \<and> inner_args (fst x) \<le> k) (parseredirs ?c s3)"
      using less.hyps [of s3 ?c] peek_gettoken2 [of s1 "''<>''" s tok q s2 t qe s3] p g1 g2 True by simp
    then have "pok (\<lambda>x. parsed buf s x \<and> inner_args (fst x) \<le> k) (parseredirs ?c s3)"
      using parsed_trans [OF s3] b(1) by (cases "parseredirs ?c s3") auto
    then show ?thesis using True p g1 g2 by (simp add: parseredirs.simps [of c s])
  next
    case False
    then show ?thesis using less.prems p g1 g2 s1 by (auto simp: parseredirs.simps [of c s] parsed_def)
  qed
qed

lemma parseargs_parsed:
  "parsed buf s (c, s) \<Longrightarrow> inner_args c \<le> k \<Longrightarrow> k < MAXARGS \<Longrightarrow> pok (parsed buf s) (parseargs k c s)"
proof (induction "MAXARGS - k" arbitrary: k c s rule: less_induct)
  case (less k c s)
  obtain p s1 where p: "peek ''|)&;'' s = (p, s1)" by (cases "peek ''|)&;'' s") auto
  obtain tok qe s2 where g: "gettoken s1 = (tok, qe, s2)" by (cases "gettoken s1") auto
  have s1: "suffix s1 s" using p suffix_skip_ws by (simp add: peek_eq)
  have s2: "suffix s2 s" using s1 gettoken_suffix [OF g] by (metis suffix_order.trans)
  have b: "suffix s buf" "\<forall>t\<in>set_cmd c. tok_ok buf t" "args_ok c" using less.prems by (auto simp: parsed_def)
  show ?case
  proof (cases "\<not> p \<and> tok = CHR ''a'' \<and> k + 1 < MAXARGS")
    case True
    have "tok_ok buf qe" using gettoken_word [of s1 qe s2 buf] g True s1 b(1) by (meson suffix_order.trans)
    then have "parsed buf s2 (add_arg qe c, s2)"
      using b s2 set_cmd_add_arg [of qe c] add_arg_args [of c k qe] less.prems(2) True by (auto simp: parsed_def intro: suffix_order.trans)
    moreover have "inner_args (add_arg qe c) \<le> k + 1" using add_arg_args [of c k qe] b(3) less.prems(2) True by simp
    ultimately have "pok (\<lambda>x. parsed buf s2 x \<and> inner_args (fst x) \<le> k + 1) (parseredirs (add_arg qe c) s2)"
      by (rule parseredirs_parsed)
    then have "pok (parsed buf s) (pbind (parseredirs (add_arg qe c) s2) (\<lambda>(cmd, s). parseargs (k + 1) cmd s))"
    proof (rule pok_pbind)
      fix x assume x: "parsed buf s2 x \<and> inner_args (fst x) \<le> k + 1"
      have less: "MAXARGS - (k + 1) < MAXARGS - k" using True by linarith
      have "parsed buf (snd x) (fst x, snd x)" using x by (auto simp: parsed_def intro: suffix_order.trans)
      then have "pok (parsed buf (snd x)) (parseargs (k + 1) (fst x) (snd x))"
        using less.hyps [OF less] x True by simp
      moreover have "suffix (snd x) s" using x s2 by (auto simp: parsed_def intro: suffix_order.trans)
      ultimately show "pok (parsed buf s) (case x of (cmd, s) \<Rightarrow> parseargs (k + 1) cmd s)"
        using parsed_trans [of "snd x" s buf] b(1) by (cases x; cases "parseargs (k + 1) (fst x) (snd x)") auto
    qed
    then show ?thesis using True p g by (simp add: parseargs.simps [of k c s])
  next
    case False
    then show ?thesis using less.prems p g s1 s2 b by (auto simp: parseargs.simps [of k c s] parsed_def)
  qed
qed

lemma parseback_parsed: "parsed buf s (c, s) \<Longrightarrow> parsed buf s (parseback c s)"
proof (induction "length s" arbitrary: c s rule: less_induct)
  case (less s c)
  obtain p s1 where p: "peek ''&'' s = (p, s1)" by (cases "peek ''&'' s") auto
  obtain tok qe s2 where g: "gettoken s1 = (tok, qe, s2)" by (cases "gettoken s1") auto
  have s1: "suffix s1 s" using p suffix_skip_ws by (simp add: peek_eq)
  have s2: "suffix s2 s" using s1 gettoken_suffix [OF g] by (metis suffix_order.trans)
  have b: "suffix s buf" "\<forall>t\<in>set_cmd c. tok_ok buf t" "args_ok c" using less.prems by (auto simp: parsed_def)
  show ?case
  proof (cases p)
    case True
    have "parsed buf s2 (BACK c, s2)" using b s2 by (auto simp: parsed_def intro: suffix_order.trans)
    then have "parsed buf s2 (parseback (BACK c) s2)"
      using less.hyps [of s2 "BACK c"] peek_gettoken1 [of s1 "''&''" s tok qe s2] p g True by simp
    then show ?thesis using parsed_trans [OF s2] b(1) p g True by (simp add: parseback.simps [of c s])
  next
    case False
    then show ?thesis using b s1 p by (simp add: parseback.simps [of c s] parsed_def)
  qed
qed

text \<open>The steps \<^verbatim>\<open>cmd = f(cmd, parse(ps, es))\<close> after an operator.\<close>

lemma parse_after:
  assumes x: "parsed buf s (c, r)" and p: "peek ts r = (True, r1)" "gettoken r1 = (tok, q, r2)"
    and f: "\<And>s'. suffix s' buf \<Longrightarrow> length s' < length s \<Longrightarrow> pok (parsed buf s') (f s')"
    and k: "\<And>d r'. args_ok d \<Longrightarrow> set_cmd (k c d) \<subseteq> set_cmd c \<union> set_cmd d \<and> args_ok (k c d)"
  shows "pok (parsed buf s) (pbind (f r2) (\<lambda>(d, r). Ok (k c d, r)))"
proof -
  have b: "suffix r s" "suffix s buf" "\<forall>t\<in>set_cmd c. tok_ok buf t" using x by (auto simp: parsed_def)
  have "suffix r1 r" using p(1) suffix_skip_ws by (simp add: peek_eq)
  then have r2: "suffix r2 s" using gettoken_suffix [OF p(2)] b(1) by (meson suffix_order.trans)
  have "length r2 < length r" using peek_gettoken1 [of r1 ts r tok q r2] p by simp
  then have "length r2 < length s" using suffix_length_le [OF b(1)] by simp
  moreover have "suffix r2 buf" using r2 b(2) by (rule suffix_order.trans)
  ultimately have "pok (parsed buf r2) (f r2)" by (intro f)
  then show ?thesis
  proof (rule pok_pbind)
    fix y assume y: "parsed buf r2 y"
    then have "set_cmd (k c (fst y)) \<subseteq> set_cmd c \<union> set_cmd (fst y)" "args_ok (k c (fst y))" using k by (auto simp: parsed_def)
    moreover have "suffix (snd y) s" using y r2 by (auto simp: parsed_def intro: suffix_order.trans)
    ultimately show "pok (parsed buf s) (case y of (d, r) \<Rightarrow> Ok (k c d, r))" using y b by (cases y) (auto simp: parsed_def)
  qed
qed

lemma parseline_step:
  assumes f: "\<And>s'. suffix s' buf \<Longrightarrow> length s' < length s \<Longrightarrow> pok (parsed buf s') (parseline n s')"
    and sub: "pok (parsed buf s) (parsepipe n s)"
  shows "pok (parsed buf s) (parseline (Suc n) s)"
proof -
  from sub have "pok (parsed buf s) (pbind (parsepipe n s) (\<lambda>(cmd, s).
     let (cmd, s) = parseback cmd s; (p, s) = peek '';'' s
     in if p then let (_, _, s) = gettoken s in pbind (parseline n s) (\<lambda>(right, s). Ok (LIST cmd right, s)) else Ok (cmd, s)))"
  proof (rule pok_pbind)
    fix x assume x: "parsed buf s x"
    obtain c r where c: "parseback (fst x) (snd x) = (c, r)" by (cases "parseback (fst x) (snd x)") auto
    have "parsed buf (snd x) (fst x, snd x)" using x by (auto simp: parsed_def intro: suffix_order.trans)
    then have "parsed buf (snd x) (c, r)" using parseback_parsed c by metis
    then have cr: "parsed buf s (c, r)" using parsed_trans [of "snd x" s buf] x by (auto simp: parsed_def)
    obtain p r1 where p: "peek '';'' r = (p, r1)" by (cases "peek '';'' r") auto
    obtain tok q r2 where g: "gettoken r1 = (tok, q, r2)" by (cases "gettoken r1") auto
    have no: "parsed buf s (c, r1)" using cr p suffix_skip_ws [of r] by (auto simp: parsed_def peek_eq intro: suffix_order.trans)
    show "pok (parsed buf s) (case x of (cmd, s) \<Rightarrow>
      let (cmd, s) = parseback cmd s; (p, s) = peek '';'' s
      in if p then let (_, _, s) = gettoken s in pbind (parseline n s) (\<lambda>(right, s). Ok (LIST cmd right, s)) else Ok (cmd, s))"
    proof (cases p)
      case True
      have "pok (parsed buf s) (pbind (parseline n r2) (\<lambda>(d, r). Ok (LIST c d, r)))"
        using p g True f cr by (intro parse_after [where k = LIST]) (auto simp: parsed_def)
      then show ?thesis using True p g c by (cases x) simp
    qed (use p c no in \<open>cases x, simp\<close>)
  qed
  then show ?thesis by simp
qed

lemma parsepipe_step:
  assumes f: "\<And>s'. suffix s' buf \<Longrightarrow> length s' < length s \<Longrightarrow> pok (parsed buf s') (parsepipe n s')"
    and sub: "pok (parsed buf s) (parseexec n s)"
  shows "pok (parsed buf s) (parsepipe (Suc n) s)"
proof -
  from sub have "pok (parsed buf s) (pbind (parseexec n s) (\<lambda>(cmd, s).
     let (p, s) = peek ''|'' s
     in if p then let (_, _, s) = gettoken s in pbind (parsepipe n s) (\<lambda>(right, s). Ok (PIPE cmd right, s)) else Ok (cmd, s)))"
  proof (rule pok_pbind)
    fix x assume x: "parsed buf s x"
    obtain c r where c: "x = (c, r)" by (cases x) auto
    have cr: "parsed buf s (c, r)" using x c by simp
    obtain p r1 where p: "peek ''|'' r = (p, r1)" by (cases "peek ''|'' r") auto
    obtain tok q r2 where g: "gettoken r1 = (tok, q, r2)" by (cases "gettoken r1") auto
    have no: "parsed buf s (c, r1)" using cr p suffix_skip_ws [of r] by (auto simp: parsed_def peek_eq intro: suffix_order.trans)
    show "pok (parsed buf s) (case x of (cmd, s) \<Rightarrow>
      let (p, s) = peek ''|'' s
      in if p then let (_, _, s) = gettoken s in pbind (parsepipe n s) (\<lambda>(right, s). Ok (PIPE cmd right, s)) else Ok (cmd, s))"
    proof (cases p)
      case True
      have "pok (parsed buf s) (pbind (parsepipe n r2) (\<lambda>(d, r). Ok (PIPE c d, r)))"
        using p g True f cr by (intro parse_after [where k = PIPE]) (auto simp: parsed_def)
      then show ?thesis using True p g c by simp
    qed (use p c no in simp)
  qed
  then show ?thesis by simp
qed

lemma parseblock_step:
  assumes s: "suffix s buf" and f: "\<And>s'. suffix s' buf \<Longrightarrow> length s' < length s \<Longrightarrow> pok (parsed buf s') (parseline n s')"
  shows "pok (parsed buf s) (parseblock (Suc n) s)"
proof -
  obtain p s1 where p: "peek ''('' s = (p, s1)" by (cases "peek ''('' s") auto
  obtain tok q s2 where g: "gettoken s1 = (tok, q, s2)" by (cases "gettoken s1") auto
  have s2: "suffix s2 s" using p gettoken_suffix [OF g] suffix_skip_ws [of s] by (auto simp: peek_eq intro: suffix_order.trans)
  show ?thesis
  proof (cases p)
    case True
    have l: "length s2 < length s" using peek_gettoken1 [of s1 "''(''" s tok q s2] p g True by simp
    have "suffix s2 buf" using s2 s by (rule suffix_order.trans)
    then have "pok (parsed buf s2) (parseline n s2)" using l by (rule f)
    then have "pok (parsed buf s) (pbind (parseline n s2) (\<lambda>(cmd, s).
         let (p, s) = peek '')'' s
         in if \<not> p then sh_panic ''syntax - missing )'' else let (_, _, s) = gettoken s in parseredirs cmd s))"
    proof (rule pok_pbind)
      fix x assume x: "parsed buf s2 x"
      obtain c r where c: "x = (c, r)" by (cases x) auto
      obtain p' r1 where p': "peek '')'' r = (p', r1)" by (cases "peek '')'' r") auto
      obtain tok' q' r2 where g': "gettoken r1 = (tok', q', r2)" by (cases "gettoken r1") auto
      have r2: "suffix r2 r" using p' gettoken_suffix [OF g'] suffix_skip_ws [of r] by (auto simp: peek_eq intro: suffix_order.trans)
      have "parsed buf r2 (c, r2)" using x c r2 by (auto simp: parsed_def intro: suffix_order.trans)
      then have "pok (\<lambda>x. parsed buf r2 x \<and> inner_args (fst x) \<le> inner_args c) (parseredirs c r2)" by (rule parseredirs_parsed) simp
      moreover have "suffix r2 s" using r2 x c s2 by (auto simp: parsed_def intro: suffix_order.trans)
      ultimately have "pok (parsed buf s) (parseredirs c r2)"
        using parsed_trans [of r2 s buf] s by (cases "parseredirs c r2") auto
      then show "pok (parsed buf s) (case x of (cmd, s) \<Rightarrow> let (p, s) = peek '')'' s
         in if \<not> p then sh_panic ''syntax - missing )'' else let (_, _, s) = gettoken s in parseredirs cmd s)"
        using c p' g' by simp
    qed
    then show ?thesis using True p g by simp
  qed (use p in simp)
qed

lemma parseexec_step:
  assumes s: "suffix s buf" and sub: "\<And>s'. suffix s' buf \<Longrightarrow> length s' \<le> length s \<Longrightarrow> pok (parsed buf s') (parseblock n s')"
  shows "pok (parsed buf s) (parseexec (Suc n) s)"
proof -
  obtain p s1 where p: "peek ''('' s = (p, s1)" by (cases "peek ''('' s") auto
  have s1: "suffix s1 s" using p suffix_skip_ws by (simp add: peek_eq)
  show ?thesis
  proof (cases p)
    case True
    have "suffix s1 buf" using s1 s by (rule suffix_order.trans)
    then have "pok (parsed buf s1) (parseblock n s1)" using suffix_length_le [OF s1] by (rule sub)
    then show ?thesis using True p parsed_trans [OF s1] s by (cases "parseblock n s1") auto
  next
    case False
    have "parsed buf s1 (EXEC [], s1)" using s1 s by (auto simp: parsed_def intro: suffix_order.trans)
    then have "pok (\<lambda>x. parsed buf s1 x \<and> inner_args (fst x) \<le> 0) (parseredirs (EXEC []) s1)" by (rule parseredirs_parsed) simp
    then have "pok (parsed buf s) (pbind (parseredirs (EXEC []) s1) (\<lambda>(ret, s). parseargs 0 ret s))"
    proof (rule pok_pbind)
      fix x assume x: "parsed buf s1 x \<and> inner_args (fst x) \<le> 0"
      obtain c r where c: "x = (c, r)" by (cases x) auto
      have "parsed buf r (c, r)" using x c by (auto simp: parsed_def intro: suffix_order.trans)
      then have "pok (parsed buf r) (parseargs 0 c r)" using x c by (intro parseargs_parsed) simp_all
      moreover have "suffix r s" using x c s1 by (auto simp: parsed_def intro: suffix_order.trans)
      ultimately show "pok (parsed buf s) (case x of (ret, s) \<Rightarrow> parseargs 0 ret s)"
        using c parsed_trans [of r s buf] s by (cases "parseargs 0 c r") auto
    qed
    then show ?thesis using False p by simp
  qed
qed

lemma parse_parsed:
  "suffix s buf \<Longrightarrow> 4 * length s + 4 \<le> n \<Longrightarrow> pok (parsed buf s) (parseline n s)"
  "suffix s buf \<Longrightarrow> 4 * length s + 3 \<le> n \<Longrightarrow> pok (parsed buf s) (parsepipe n s)"
  "suffix s buf \<Longrightarrow> 4 * length s + 1 \<le> n \<Longrightarrow> pok (parsed buf s) (parseblock n s)"
  "suffix s buf \<Longrightarrow> 4 * length s + 2 \<le> n \<Longrightarrow> pok (parsed buf s) (parseexec n s)"
proof (induction n arbitrary: s)
  case (Suc n)
  {
    case 1 then show ?case by (intro parseline_step Suc.IH) simp_all
  next
    case 2 then show ?case by (intro parsepipe_step Suc.IH) simp_all
  next
    case 3 then show ?case by (intro parseblock_step Suc.IH) simp_all
  next
    case 4 then show ?case by (intro parseexec_step Suc.IH) simp_all
  }
qed simp_all

lemma length_nul_at [simp]: "length (nul_at es t b) = length b"
  by (simp add: nul_at_def)

lemma nth_nul_at: "i < length b \<Longrightarrow> nul_at es t b ! i = (if i = es - length (snd t) then CHR 0x00 else b ! i)"
  by (simp add: nul_at_def nth_list_update)

lemma nuls_at:
  "length (fold (nul_at es) ts b) = length b \<and> (\<forall>i<length b. fold (nul_at es) ts b ! i = (if \<exists>t\<in>set ts. i = es - length (snd t) then CHR 0x00 else b ! i))"
  by (induction ts arbitrary: b) (auto simp: nth_nul_at)

lemma nulterminate_nth:
  "length (nulterminate es c b) = length b \<and>
   (\<forall>i<length b. nulterminate es c b ! i = (if \<exists>t\<in>set_cmd c. i = es - length (snd t) then CHR 0x00 else b ! i))"
  by (induction c arbitrary: b) (auto simp: nuls_at nth_nul_at)

lemma cstr_at_word:
  assumes "p + length w < length b" "\<And>i. i < length w \<Longrightarrow> b ! (p + i) = w ! i" "b ! (p + length w) = CHR 0x00" "CHR 0x00 \<notin> set w"
  shows "cstr_at b p = w"
proof -
  have "take (length w) (drop p b) = w" using assms(1,2) by (intro nth_equalityI) auto
  moreover have "drop (length w) (drop p b) = CHR 0x00 # drop (Suc (p + length w)) b"
    using assms(1,3) Cons_nth_drop_Suc [of "p + length w" b] by (simp add: add.commute)
  ultimately have "drop p b = w @ CHR 0x00 # drop (Suc (p + length w)) b" by (metis append_take_drop_id)
  then show ?thesis using assms(4) by (auto simp: cstr_at_def takeWhile_append)
qed

lemma suffix_at: "suffix e buf \<Longrightarrow> e = drop (length buf - length e) buf"
  by (auto simp: suffix_def)

lemma cstr_at_nulterminate:
  assumes ok: "\<forall>t\<in>set_cmd c. tok_ok buf t" and t: "t \<in> set_cmd c" and z: "CHR 0x00 \<notin> set buf"
  shows "cstr_at (nulterminate (length buf) c (buf @ [CHR 0x00])) (length buf - length (fst t)) = tok_word t"
proof -
  let ?B = "nulterminate (length buf) c (buf @ [CHR 0x00])"
  obtain w where w: "fst t = w @ snd t" "w \<noteq> []" "list_all wordchar w" and s: "suffix (fst t) buf" using ok t by (auto simp: tok_ok_def)
  obtain pre where pre: "buf = pre @ w @ snd t" using s w(1) by (auto simp: suffix_def)
  have p: "length buf - length (fst t) = length pre" using pre w(1) by simp
  have B: "length ?B = Suc (length buf)" "i \<le> length buf \<Longrightarrow> ?B ! i =
      (if \<exists>t\<in>set_cmd c. i = length buf - length (snd t) then CHR 0x00 else (buf @ [CHR 0x00]) ! i)" for i
    using nulterminate_nth [of "length buf" c "buf @ [CHR 0x00]"] by auto
  have in_w: "?B ! (length pre + i) = w ! i" if i: "i < length w" for i
  proof -
    have "length pre + i \<noteq> length buf - length (snd u)" if u: "u \<in> set_cmd c" for u
    proof
      assume at: "length pre + i = length buf - length (snd u)"
      have "suffix (snd u) (fst u)" "suffix (fst u) buf" "snd u = [] \<or> \<not> wordchar (hd (snd u))" using ok u by (auto simp: tok_ok_def suffix_def)
      then have "snd u = drop (length pre + i) buf" unfolding at by (metis suffix_at suffix_order.trans)
      also have "\<dots> = drop i w @ snd t" using i by (simp add: pre)
      finally have "snd u \<noteq> []" "hd (snd u) = w ! i" using i by (simp_all add: hd_drop_conv_nth)
      then show False using \<open>snd u = [] \<or> \<not> wordchar (hd (snd u))\<close> w(3) i by (simp add: list_all_length)
    qed
    then show ?thesis using B(2) [of "length pre + i"] i by (auto simp: pre nth_append)
  qed
  have "?B ! (length pre + length w) = CHR 0x00" using B(2) [of "length pre + length w"] t pre by auto
  then have "cstr_at ?B (length pre) = w" using in_w B(1) z pre by (intro cstr_at_word) auto
  then show ?thesis using p w(1) by (simp add: tok_word_def)
qed

lemma parsecmd_seen:
  assumes "CHR 0x00 \<notin> set s"
  shows "parsecmd s \<noteq> NoFuel \<and>
     (\<forall>c b. parsecmd s = Ok (c, b) \<longrightarrow> args_ok c \<and> (\<forall>t\<in>set_cmd c. tok_ok s t) \<and> seen (length s) b c = map_cmd tok_word c)"
proof -
  have "pok (parsed s s) (parseline (4 * length s + 4) s)" by (rule parse_parsed) simp_all
  then consider (ok) c r where "parseline (4 * length s + 4) s = Ok (c, r)" "parsed s s (c, r)" | (no) m where "parseline (4 * length s + 4) s = Exits m"
    by (cases "parseline (4 * length s + 4) s") auto
  then show ?thesis
  proof cases
    case ok
    then have "seen (length s) (nulterminate (length s) c (s @ [CHR 0x00])) c = map_cmd tok_word c"
      unfolding seen_def using cstr_at_nulterminate [of c s] assms by (intro cmd.map_cong0) (auto simp: parsed_def case_prod_unfold)
    then show ?thesis using ok by (auto simp: parsecmd_def parsed_def split: prod.splits if_splits)
  qed (simp add: parsecmd_def)
qed

section \<open>The text of a command parses to the command\<close>

primrec prec :: "'t cmd \<Rightarrow> nat" where
  "prec (EXEC as) = 3"
| "prec (REDIR c f m d) = 3"
| "prec (PIPE l r) = 2"
| "prec (LIST l r) = 0"
| "prec (BACK c) = 1"

definition paren :: "bool \<Rightarrow> string \<Rightarrow> string" where
  "paren b s = (if b then ''('' @ s @ '')'' else s)"

text \<open>A way to write a command, with parentheses where the grammar needs them.\<close>

primrec cmd_text :: "string cmd \<Rightarrow> string" where
  "cmd_text (EXEC ws) = concat (map (\<lambda>w. w @ '' '') ws)"
| "cmd_text (REDIR c f m d) = paren (prec c < 3) (cmd_text c) @ (if d = 0 then ''<'' else ''>'') @ f"
| "cmd_text (PIPE l r) = paren (prec l < 3) (cmd_text l) @ ''|'' @ paren (prec r < 2) (cmd_text r)"
| "cmd_text (LIST l r) = paren (prec l < 1) (cmd_text l) @ '';'' @ cmd_text r"
| "cmd_text (BACK c) = paren (prec c < 1) (cmd_text c) @ ''&''"

definition text_at :: "nat \<Rightarrow> string cmd \<Rightarrow> string" where
  "text_at k c = paren (prec c < k) (cmd_text c)"

definition word_ok :: "string \<Rightarrow> bool" where
  "word_ok w \<longleftrightarrow> w \<noteq> [] \<and> list_all wordchar w \<and> CHR 0x00 \<notin> set w"

text \<open>The commands that the shell's language has.\<close>

primrec cmd_ok :: "string cmd \<Rightarrow> bool" where
  "cmd_ok (EXEC ws) \<longleftrightarrow> length ws < MAXARGS \<and> list_all word_ok ws"
| "cmd_ok (REDIR c f m d) \<longleftrightarrow> cmd_ok c \<and> word_ok f \<and> (d = 0 \<and> m = O_RDONLY \<or> d = 1 \<and> m = (O_WRONLY OR O_CREATE))"
| "cmd_ok (PIPE l r) \<longleftrightarrow> cmd_ok l \<and> cmd_ok r"
| "cmd_ok (LIST l r) \<longleftrightarrow> cmd_ok l \<and> cmd_ok r"
| "cmd_ok (BACK c) \<longleftrightarrow> cmd_ok c"

text \<open>What may follow: \<open>starts cs R\<close> says that \<open>R\<close> is empty or begins with one of \<open>cs\<close>.\<close>

definition starts :: "string \<Rightarrow> string \<Rightarrow> bool" where
  "starts cs R \<longleftrightarrow> R = [] \<or> hd R \<in> set cs"

lemma starts_Cons [simp]: "starts cs (c # R) \<longleftrightarrow> c \<in> set cs" "starts cs []"
  by (simp_all add: starts_def)

lemma starts_mono: "starts cs R \<Longrightarrow> set cs \<subseteq> set ds \<Longrightarrow> starts ds R"
  by (auto simp: starts_def)

lemma symbol_not_ws: "c \<in> set ''<|>&;()'' \<Longrightarrow> c \<notin> set whitespace \<and> \<not> wordchar c"
  by (auto simp: whitespace_def wordchar_def symbols_def)

lemma starts_skip_ws: "starts ''|)&;<>('' R \<Longrightarrow> skip_ws R = R"
  using symbol_not_ws by (intro skip_ws_id) (auto simp: starts_def)

lemma word_start:
  assumes "word_ok w" shows "skip_ws (w @ R) = w @ R" "w \<noteq> []" "wordchar (hd w)" "hd w \<notin> set symbols"
  using assms by (cases w; auto simp: word_ok_def wordchar_def intro!: skip_ws_id)+

lemma peek_at: "skip_ws s = s \<Longrightarrow> peek ts s = (s \<noteq> [] \<and> hd s \<in> set ts, s)"
  by (simp add: peek_def Let_def)

lemma peek_skip_ws [simp]: "peek ts (skip_ws s) = peek ts s"
  by (simp add: peek_def)

lemma gettoken_sym: "c \<in> set ''|();&<'' \<Longrightarrow> gettoken (c # s) = (c, (c # s, s), skip_ws s)"
  using symbol_not_ws [of c] skip_ws_id [of "c # s"] by (auto simp: gettoken_def tok_end_def)

lemma gettoken_gt: "s \<noteq> [] \<Longrightarrow> hd s \<noteq> CHR ''>'' \<Longrightarrow> gettoken (CHR ''>'' # s) = (CHR ''>'', (CHR ''>'' # s, s), skip_ws s)"
  using symbol_not_ws [of "CHR ''>''"] skip_ws_id [of "CHR ''>'' # s"] by (cases s) (auto simp: gettoken_def tok_end_def)

lemma gettoken_wd:
  assumes "word_ok w" "R = [] \<or> \<not> wordchar (hd R)"
  shows "gettoken (w @ R) = (CHR ''a'', (w @ R, R), skip_ws R)"
proof -
  obtain c cs where w: "w = c # cs" using assms(1) by (cases w) (auto simp: word_ok_def)
  have d: "dropWhile wordchar (w @ R) = R"
    using assms by (cases R) (auto simp: word_ok_def list_all_iff dropWhile_append2)
  have "c \<notin> set symbols" using word_start(4) [OF assms(1)] w by simp
  then have "tok_end (w @ R) = (CHR ''a'', R)" using d w by (auto simp: tok_end_def symbols_def)
  then show ?thesis using word_start(1) [OF assms(1)] by (simp add: gettoken_def)
qed

lemma parseredirs_skip_ws [simp]: "parseredirs c (skip_ws s) = parseredirs c s"
  by (subst (1 2) parseredirs.simps) simp

lemma parseredirs_none: "skip_ws s = s \<Longrightarrow> s = [] \<or> hd s \<notin> set ''<>'' \<Longrightarrow> parseredirs c s = Ok (c, s)"
  by (subst parseredirs.simps) (auto simp: peek_at)

lemma parseredirs_one:
  assumes "word_ok f" "R = [] \<or> \<not> wordchar (hd R)"
  shows "parseredirs c (CHR ''<'' # f @ R) = parseredirs (REDIR c (f @ R, R) O_RDONLY 0) R"
    and "parseredirs c (CHR ''>'' # f @ R) = parseredirs (REDIR c (f @ R, R) (O_WRONLY OR O_CREATE) 1) R"
proof -
  note s = word_start [OF assms(1)]
  have sk: "skip_ws (CHR ''<'' # f @ R) = CHR ''<'' # f @ R" "skip_ws (CHR ''>'' # f @ R) = CHR ''>'' # f @ R"
    by (rule starts_skip_ws, simp)+
  show "parseredirs c (CHR ''<'' # f @ R) = parseredirs (REDIR c (f @ R, R) O_RDONLY 0) R"
    by (subst parseredirs.simps) (simp add: peek_at sk gettoken_sym s gettoken_wd [OF assms])
  have "hd (f @ R) \<noteq> CHR ''>''" using s(2,4) by (auto simp: symbols_def)
  then show "parseredirs c (CHR ''>'' # f @ R) = parseredirs (REDIR c (f @ R, R) (O_WRONLY OR O_CREATE) 1) R"
    using s(2) by (subst parseredirs.simps) (simp add: peek_at sk gettoken_gt s gettoken_wd [OF assms])
qed

text \<open>The loop of \<^verbatim>\<open>parseexec\<close> from the point after its \<open>k\<close>-th word.\<close>

definition more_args :: "nat \<Rightarrow> tok cmd \<Rightarrow> string \<Rightarrow> (tok cmd \<times> string) pres" where
  "more_args k c s = pbind (parseredirs c s) (\<lambda>(c, s). parseargs k c s)"

lemma parseargs_stop: "starts ''|)&;'' R \<Longrightarrow> parseargs k c R = Ok (c, R)"
proof -
  assume R: "starts ''|)&;'' R"
  then have "skip_ws R = R" by (intro starts_skip_ws starts_mono [OF R]) auto
  then show ?thesis using R by (cases R) (simp_all add: parseargs.simps [of k c] peek_at gettoken_def tok_end_def skip_ws_id)
qed

lemma exec_stop:
  assumes "starts ''|)&;'' R" shows "parseredirs c R = Ok (c, R)" "more_args k c R = Ok (c, R)"
proof -
  have sk: "skip_ws R = R" by (intro starts_skip_ws starts_mono [OF assms]) auto
  have "R = [] \<or> hd R \<notin> set ''<>''" using assms by (auto simp: starts_def)
  then show r: "parseredirs c R = Ok (c, R)" by (rule parseredirs_none [OF sk])
  show "more_args k c R = Ok (c, R)" using r parseargs_stop [OF assms] by (simp add: more_args_def)
qed

lemma more_args_word:
  assumes "word_ok w" "k + 1 < MAXARGS"
  shows "more_args k c (w @ CHR '' '' # s) = more_args (k + 1) (add_arg (w @ CHR '' '' # s, CHR '' '' # s) c) s"
proof -
  let ?s = "w @ CHR '' '' # s"
  note ws = word_start(1) [OF assms(1), of "CHR '' '' # s"] word_start(2-4) [OF assms(1)]
  have "\<not> wordchar CHR '' ''" "skip_ws (CHR '' '' # s) = skip_ws s" by (simp_all add: wordchar_def whitespace_def skip_ws_def)
  then have g: "gettoken ?s = (CHR ''a'', (?s, CHR '' '' # s), skip_ws s)" using gettoken_wd [OF assms(1), of "CHR '' '' # s"] by simp
  have h: "hd ?s \<notin> set symbols" using ws by simp
  then have "parseredirs c ?s = Ok (c, ?s)" using ws by (intro parseredirs_none) (auto simp: symbols_def)
  moreover have "parseargs k c ?s = more_args (k + 1) (add_arg (?s, CHR '' '' # s) c) s"
    using h ws g assms(2) by (simp add: parseargs.simps [of k c ?s] peek_at symbols_def more_args_def)
  ultimately show ?thesis by (simp add: more_args_def)
qed

lemma tok_word_Pair: "tok_word (w @ e, e) = w"
  by (simp add: tok_word_def)

lemma more_args_words:
  "list_all word_ok ws \<Longrightarrow> k + length ws < MAXARGS \<Longrightarrow>
   \<exists>us. map tok_word us = ws \<and> more_args k (EXEC ts) (concat (map (\<lambda>w. w @ '' '') ws) @ R) = more_args (k + length ws) (EXEC (ts @ us)) R"
proof (induction ws arbitrary: k ts)
  case (Cons w ws)
  let ?s = "concat (map (\<lambda>w. w @ '' '') ws) @ R"
  let ?t = "(w @ CHR '' '' # ?s, CHR '' '' # ?s)"
  obtain us where us: "map tok_word us = ws" "more_args (k + 1) (EXEC (ts @ [?t])) ?s = more_args (k + 1 + length ws) (EXEC ((ts @ [?t]) @ us)) R"
    using Cons.IH [of "k + 1" "ts @ [?t]"] Cons.prems by auto
  have "more_args k (EXEC ts) (w @ CHR '' '' # ?s) = more_args (k + 1) (EXEC (ts @ [?t])) ?s"
    using more_args_word [of w k "EXEC ts" ?s] Cons.prems by simp
  then show ?case using us by (intro exI [of _ "?t # us"]) (simp add: tok_word_Pair [of w "CHR '' '' # ?s", simplified])
qed simp

text \<open>The text of a command starts with a word, an operator or a parenthesis, or is empty.\<close>

lemma text_start:
  "cmd_ok c \<Longrightarrow> starts ''|)&;<>'' R \<Longrightarrow> skip_ws (text_at k c @ R) = text_at k c @ R"
proof (induction c arbitrary: k R)
  case (EXEC ws)
  show ?case
  proof (cases ws)
    case Nil
    then show ?thesis using EXEC by (auto simp: text_at_def paren_def intro!: starts_skip_ws elim: starts_mono)
  next
    case (Cons w ws')
    then have "word_ok w" using EXEC by simp
    then show ?thesis using Cons word_start(1) [of w] by (auto simp: text_at_def paren_def intro!: starts_skip_ws)
  qed
next
  case (REDIR c f m d)
  have "skip_ws (text_at 3 c @ (if d = 0 then ''<'' else ''>'') @ f @ R) = text_at 3 c @ (if d = 0 then ''<'' else ''>'') @ f @ R"
    using REDIR.IH [of "(if d = 0 then ''<'' else ''>'') @ f @ R" 3] REDIR.prems(1) by auto
  then show ?case by (auto simp: text_at_def paren_def intro!: starts_skip_ws)
next
  case (PIPE l r)
  have "skip_ws (text_at 3 l @ ''|'' @ text_at 2 r @ R) = text_at 3 l @ ''|'' @ text_at 2 r @ R"
    using PIPE.IH(1) [of "''|'' @ text_at 2 r @ R" 3] PIPE.prems(1) by simp
  then show ?case by (auto simp: text_at_def paren_def intro!: starts_skip_ws)
next
  case (LIST l r)
  have "skip_ws (text_at 1 l @ '';'' @ cmd_text r @ R) = text_at 1 l @ '';'' @ cmd_text r @ R"
    using LIST.IH(1) [of "'';'' @ cmd_text r @ R" 1] LIST.prems(1) by simp
  then show ?case by (auto simp: text_at_def paren_def intro!: starts_skip_ws)
next
  case (BACK c)
  have "skip_ws (text_at 1 c @ ''&'' @ R) = text_at 1 c @ ''&'' @ R" using BACK.IH [of "''&'' @ R" 1] BACK.prems(1) by simp
  then show ?case by (auto simp: text_at_def paren_def intro!: starts_skip_ws)
qed

text \<open>What each parsing function does on the text of a command, for all sufficiently large fuel.\<close>

definition exec_reads :: "string cmd \<Rightarrow> bool" where
  "exec_reads c \<longleftrightarrow> (\<exists>N. \<forall>n\<ge>N. \<forall>R. starts ''|)&;<>'' R \<longrightarrow>
     (\<exists>p fin. map_cmd tok_word p = c \<and> parseexec n (text_at 3 c @ R) = fin p R \<and> (fin = parseredirs \<or> (\<exists>k. fin = more_args k))))"

definition pipe_reads :: "string cmd \<Rightarrow> bool" where
  "pipe_reads c \<longleftrightarrow> (\<exists>N. \<forall>n\<ge>N. \<forall>R. starts '')&;'' R \<longrightarrow> (\<exists>p. map_cmd tok_word p = c \<and> parsepipe n (text_at 2 c @ R) = Ok (p, R)))"

definition back_reads :: "string cmd \<Rightarrow> bool" where
  "back_reads c \<longleftrightarrow> (\<exists>N. \<forall>n\<ge>N. \<forall>R. starts '')&;'' R \<longrightarrow>
     (\<exists>p. map_cmd tok_word p = c \<and> pbind (parsepipe n (text_at 1 c @ R)) (\<lambda>(c, s). Ok (parseback c s)) = Ok (parseback p R)))"

definition line_reads :: "string cmd \<Rightarrow> bool" where
  "line_reads c \<longleftrightarrow> (\<exists>N. \<forall>n\<ge>N. \<forall>R. starts '')'' R \<longrightarrow> (\<exists>p. map_cmd tok_word p = c \<and> parseline n (cmd_text c @ R) = Ok (p, R)))"

lemma exec_reads_EXEC: "cmd_ok (EXEC ws) \<Longrightarrow> exec_reads (EXEC ws)"
  unfolding exec_reads_def
proof (intro exI [of _ 1] allI impI)
  fix n :: nat and R assume c: "cmd_ok (EXEC ws)" and n: "1 \<le> n" and R: "starts ''|)&;<>'' R"
  obtain m where m: "n = Suc m" using n by (cases n) auto
  let ?s = "text_at 3 (EXEC ws) @ R"
  have sk: "skip_ws ?s = ?s" by (rule text_start [OF c R])
  have h: "?s = [] \<or> hd ?s \<noteq> CHR ''(''"
  proof (cases ws)
    case Nil
    then show ?thesis using R by (auto simp: text_at_def paren_def starts_def)
  next
    case (Cons w ws')
    then have "word_ok w" using c by simp
    then show ?thesis using Cons word_start(2,4) [of w] by (auto simp: text_at_def paren_def symbols_def)
  qed
  then have e: "parseexec n ?s = more_args 0 (EXEC []) ?s" using sk by (auto simp: m peek_at more_args_def)
  obtain us where us: "map tok_word us = ws" "more_args 0 (EXEC []) (concat (map (\<lambda>w. w @ '' '') ws) @ R) = more_args (0 + length ws) (EXEC ([] @ us)) R"
    using more_args_words [of ws 0 "[]" R] c by auto
  then show "\<exists>p fin. map_cmd tok_word p = EXEC ws \<and> parseexec n ?s = fin p R \<and> (fin = parseredirs \<or> (\<exists>k. fin = more_args k))"
    using e by (intro exI [of _ "EXEC us"] exI [of _ "more_args (length ws)"]) (auto simp: text_at_def paren_def)
qed

lemma exec_reads_REDIR:
  assumes c: "exec_reads c" and ok: "cmd_ok (REDIR c f m d)"
  shows "exec_reads (REDIR c f m d)"
proof -
  obtain N where N: "\<And>n R. N \<le> n \<Longrightarrow> starts ''|)&;<>'' R \<Longrightarrow>
     \<exists>p fin. map_cmd tok_word p = c \<and> parseexec n (text_at 3 c @ R) = fin p R \<and> (fin = parseredirs \<or> (\<exists>k. fin = more_args k))"
    using c unfolding exec_reads_def by blast
  show ?thesis unfolding exec_reads_def
  proof (intro exI [of _ N] allI impI)
    fix n R assume n: "N \<le> n" and R: "starts ''|)&;<>'' R"
    let ?op = "if d = 0 then CHR ''<'' else CHR ''>''"
    have f: "word_ok f" "R = [] \<or> \<not> wordchar (hd R)" using ok R symbol_not_ws by (auto simp: starts_def)
    have one: "parseredirs p (?op # f @ R) = parseredirs (REDIR p (f @ R, R) m d) R" for p
      using parseredirs_one [OF f, of p] ok by auto
    then have more: "more_args k p (?op # f @ R) = more_args k (REDIR p (f @ R, R) m d) R" for k p by (simp add: more_args_def)
    have op: "starts ''|)&;<>'' (?op # f @ R)" by simp
    have t: "text_at 3 (REDIR c f m d) @ R = text_at 3 c @ ?op # f @ R" by (simp add: text_at_def paren_def)
    obtain p fin where p: "map_cmd tok_word p = c" "parseexec n (text_at 3 c @ ?op # f @ R) = fin p (?op # f @ R)" "fin = parseredirs \<or> (\<exists>k. fin = more_args k)"
      using N [OF n op] by blast
    have "fin p (?op # f @ R) = fin (REDIR p (f @ R, R) m d) R" using p(3) one more by auto
    then show "\<exists>p fin. map_cmd tok_word p = REDIR c f m d \<and> parseexec n (text_at 3 (REDIR c f m d) @ R) = fin p R \<and> (fin = parseredirs \<or> (\<exists>k. fin = more_args k))"
      using p unfolding t by (intro exI [of _ "REDIR p (f @ R, R) m d"] exI [of _ fin]) (simp add: tok_word_Pair)
  qed
qed

lemma exec_reads_paren:
  assumes c: "line_reads c" and ok: "cmd_ok c" "prec c < 3"
  shows "exec_reads c"
proof -
  obtain N where N: "\<And>n R. N \<le> n \<Longrightarrow> starts '')'' R \<Longrightarrow> \<exists>p. map_cmd tok_word p = c \<and> parseline n (cmd_text c @ R) = Ok (p, R)"
    using c unfolding line_reads_def by blast
  show ?thesis unfolding exec_reads_def
  proof (intro exI [of _ "Suc (Suc N)"] allI impI)
    fix n R assume n: "Suc (Suc N) \<le> n" and R: "starts ''|)&;<>'' R"
    obtain m where m: "n = Suc (Suc m)" "N \<le> m" using n by (cases n; cases "n - 1") auto
    have t: "text_at 3 c @ R = CHR ''('' # cmd_text c @ CHR '')'' # R" using ok(2) by (simp add: text_at_def paren_def)
    have sk: "skip_ws (CHR ''('' # x) = CHR ''('' # x" "skip_ws (CHR '')'' # x) = CHR '')'' # x" for x by (rule starts_skip_ws, simp)+
    have sc: "skip_ws (cmd_text c @ CHR '')'' # R) = cmd_text c @ CHR '')'' # R"
      using text_start [OF ok(1), of "CHR '')'' # R" 0] by (simp add: text_at_def paren_def)
    obtain p where p: "map_cmd tok_word p = c" "parseline m (cmd_text c @ CHR '')'' # R) = Ok (p, CHR '')'' # R)"
      using N [OF m(2), of "CHR '')'' # R"] by auto
    have "parseexec n (text_at 3 c @ R) = parseredirs p R"
      unfolding t m(1) by (simp add: peek_at sk gettoken_sym sc p(2))
    then show "\<exists>p fin. map_cmd tok_word p = c \<and> parseexec n (text_at 3 c @ R) = fin p R \<and> (fin = parseredirs \<or> (\<exists>k. fin = more_args k))"
      using p(1) by blast
  qed
qed

lemma exec_reads_stop:
  assumes "exec_reads c"
  shows "\<exists>N. \<forall>n\<ge>N. \<forall>R. starts ''|)&;'' R \<longrightarrow> (\<exists>p. map_cmd tok_word p = c \<and> parseexec n (text_at 3 c @ R) = Ok (p, R))"
proof -
  obtain N where N: "\<And>n R. N \<le> n \<Longrightarrow> starts ''|)&;<>'' R \<Longrightarrow>
     \<exists>p fin. map_cmd tok_word p = c \<and> parseexec n (text_at 3 c @ R) = fin p R \<and> (fin = parseredirs \<or> (\<exists>k. fin = more_args k))"
    using assms unfolding exec_reads_def by blast
  show ?thesis
  proof (intro exI [of _ N] allI impI)
    fix n R assume n: "N \<le> n" and R: "starts ''|)&;'' R"
    obtain p fin where p: "map_cmd tok_word p = c" "parseexec n (text_at 3 c @ R) = fin p R" "fin = parseredirs \<or> (\<exists>k. fin = more_args k)"
      using N [OF n starts_mono [OF R]] by auto
    have "fin p R = Ok (p, R)" using p(3) exec_stop [OF R] by auto
    then show "\<exists>p. map_cmd tok_word p = c \<and> parseexec n (text_at 3 c @ R) = Ok (p, R)" using p by auto
  qed
qed

lemma pipe_reads_exec:
  assumes c: "exec_reads c" and p2: "prec c \<noteq> 2"
  shows "pipe_reads c"
proof -
  obtain N where N: "\<And>n R. N \<le> n \<Longrightarrow> starts ''|)&;'' R \<Longrightarrow> \<exists>p. map_cmd tok_word p = c \<and> parseexec n (text_at 3 c @ R) = Ok (p, R)"
    using exec_reads_stop [OF c] by blast
  have t: "text_at 2 c = text_at 3 c" using p2 by (cases c) (simp_all add: text_at_def)
  show ?thesis unfolding pipe_reads_def
  proof (intro exI [of _ "Suc N"] allI impI)
    fix n R assume n: "Suc N \<le> n" and R: "starts '')&;'' R"
    obtain m where m: "n = Suc m" "N \<le> m" using n by (cases n) auto
    obtain p where p: "map_cmd tok_word p = c" "parseexec m (text_at 3 c @ R) = Ok (p, R)"
      using N [OF m(2) starts_mono [OF R]] by auto
    have "skip_ws R = R" by (intro starts_skip_ws starts_mono [OF R]) auto
    then have "parsepipe n (text_at 2 c @ R) = Ok (p, R)" using p(2) R unfolding t m(1) by (auto simp: peek_at starts_def)
    then show "\<exists>p. map_cmd tok_word p = c \<and> parsepipe n (text_at 2 c @ R) = Ok (p, R)" using p(1) by blast
  qed
qed

lemma pipe_reads_PIPE:
  assumes l: "exec_reads l" and r: "pipe_reads r" and ok: "cmd_ok r"
  shows "pipe_reads (PIPE l r)"
proof -
  obtain N where N: "\<And>n R. N \<le> n \<Longrightarrow> starts ''|)&;'' R \<Longrightarrow> \<exists>p. map_cmd tok_word p = l \<and> parseexec n (text_at 3 l @ R) = Ok (p, R)"
    using exec_reads_stop [OF l] by blast
  obtain M where M: "\<And>n R. M \<le> n \<Longrightarrow> starts '')&;'' R \<Longrightarrow> \<exists>p. map_cmd tok_word p = r \<and> parsepipe n (text_at 2 r @ R) = Ok (p, R)"
    using r unfolding pipe_reads_def by blast
  show ?thesis unfolding pipe_reads_def
  proof (intro exI [of _ "Suc (max N M)"] allI impI)
    fix n R assume n: "Suc (max N M) \<le> n" and R: "starts '')&;'' R"
    obtain m where m: "n = Suc m" "N \<le> m" "M \<le> m" using n by (cases n) auto
    let ?s = "CHR ''|'' # text_at 2 r @ R"
    have t: "text_at 2 (PIPE l r) @ R = text_at 3 l @ ?s" by (simp add: text_at_def paren_def)
    obtain p where p: "map_cmd tok_word p = l" "parseexec m (text_at 3 l @ ?s) = Ok (p, ?s)" using N [OF m(2), of ?s] by auto
    obtain q where q: "map_cmd tok_word q = r" "parsepipe m (text_at 2 r @ R) = Ok (q, R)" using M [OF m(3) R] by blast
    have sk: "skip_ws ?s = ?s" by (rule starts_skip_ws) simp
    have "skip_ws (text_at 2 r @ R) = text_at 2 r @ R" by (intro text_start ok starts_mono [OF R]) auto
    then have "parsepipe n (text_at 2 (PIPE l r) @ R) = Ok (PIPE p q, R)"
      unfolding t m(1) using p(2) q(2) by (simp add: peek_at sk gettoken_sym)
    then show "\<exists>p. map_cmd tok_word p = PIPE l r \<and> parsepipe n (text_at 2 (PIPE l r) @ R) = Ok (p, R)"
      using p(1) q(1) by (intro exI [of _ "PIPE p q"]) simp
  qed
qed

lemma back_reads_pipe:
  assumes c: "pipe_reads c" and p1: "prec c \<noteq> 1"
  shows "back_reads c"
proof -
  have t: "text_at 1 c = text_at 2 c" using p1 by (cases c) (simp_all add: text_at_def)
  obtain N where N: "\<And>n R. N \<le> n \<Longrightarrow> starts '')&;'' R \<Longrightarrow> \<exists>p. map_cmd tok_word p = c \<and> parsepipe n (text_at 2 c @ R) = Ok (p, R)"
    using c unfolding pipe_reads_def by blast
  have "\<exists>p. map_cmd tok_word p = c \<and> pbind (parsepipe n (text_at 1 c @ R)) (\<lambda>(c, s). Ok (parseback c s)) = Ok (parseback p R)"
    if n: "N \<le> n" and R: "starts '')&;'' R" for n R
    using N [OF n R] unfolding t by auto
  then show ?thesis unfolding back_reads_def by blast
qed

lemma back_reads_BACK:
  assumes "back_reads c"
  shows "back_reads (BACK c)"
proof -
  obtain N where N: "\<And>n R. N \<le> n \<Longrightarrow> starts '')&;'' R \<Longrightarrow>
      \<exists>p. map_cmd tok_word p = c \<and> pbind (parsepipe n (text_at 1 c @ R)) (\<lambda>(c, s). Ok (parseback c s)) = Ok (parseback p R)"
    using assms unfolding back_reads_def by blast
  have "\<exists>p. map_cmd tok_word p = BACK c \<and> pbind (parsepipe n (text_at 1 (BACK c) @ R)) (\<lambda>(c, s). Ok (parseback c s)) = Ok (parseback p R)"
    if n: "N \<le> n" and R: "starts '')&;'' R" for n R
  proof -
    let ?s = "CHR ''&'' # R"
    have t: "text_at 1 (BACK c) @ R = text_at 1 c @ ?s" by (simp add: text_at_def paren_def)
    obtain p where p: "map_cmd tok_word p = c" "pbind (parsepipe n (text_at 1 c @ ?s)) (\<lambda>(c, s). Ok (parseback c s)) = Ok (parseback p ?s)"
      using N [OF n, of ?s] by auto
    have "skip_ws ?s = ?s" "skip_ws R = R" by (intro starts_skip_ws starts_mono [OF R]; simp)+
    then have "parseback p ?s = parseback (BACK p) R" by (simp add: parseback.simps [of p] peek_at gettoken_sym)
    then show ?thesis using p unfolding t by (intro exI [of _ "BACK p"]) simp
  qed
  then show ?thesis unfolding back_reads_def by blast
qed

lemma parseback_none: "skip_ws R = R \<Longrightarrow> R = [] \<or> hd R \<noteq> CHR ''&'' \<Longrightarrow> parseback c R = (c, R)"
  by (subst parseback.simps) (auto simp: peek_at)

lemma parseline_Ok:
  assumes "pbind (parsepipe n s) (\<lambda>(c, s). Ok (parseback c s)) = Ok (p, R)"
  shows "parseline (Suc n) s = (let (b, s) = peek '';'' R
       in if b then let (_, _, s) = gettoken s in pbind (parseline n s) (\<lambda>(right, s). Ok (LIST p right, s)) else Ok (p, s))"
  using assms by (cases "parsepipe n s") auto

lemma line_reads_back:
  assumes c: "back_reads c" and p0: "prec c \<noteq> 0"
  shows "line_reads c"
proof -
  obtain N where N: "\<And>n R. N \<le> n \<Longrightarrow> starts '')&;'' R \<Longrightarrow>
      \<exists>p. map_cmd tok_word p = c \<and> pbind (parsepipe n (text_at 1 c @ R)) (\<lambda>(c, s). Ok (parseback c s)) = Ok (parseback p R)"
    using c unfolding back_reads_def by blast
  have t: "text_at 1 c = cmd_text c" using p0 by (simp add: text_at_def paren_def)
  show ?thesis unfolding line_reads_def
  proof (intro exI [of _ "Suc N"] allI impI)
    fix n R assume n: "Suc N \<le> n" and R: "starts '')'' R"
    obtain m where m: "n = Suc m" "N \<le> m" using n by (cases n) auto
    have sk: "skip_ws R = R" by (intro starts_skip_ws starts_mono [OF R]) auto
    obtain p where p: "map_cmd tok_word p = c" "pbind (parsepipe m (text_at 1 c @ R)) (\<lambda>(c, s). Ok (parseback c s)) = Ok (parseback p R)"
      using N [OF m(2) starts_mono [OF R]] by auto
    have "parseback p R = (p, R)" using sk R by (intro parseback_none) (auto simp: starts_def)
    then have "parseline n (cmd_text c @ R) = Ok (p, R)"
      using parseline_Ok [of m "cmd_text c @ R" p R] p(2) sk R unfolding m(1) t by (auto simp: peek_at starts_def)
    then show "\<exists>p. map_cmd tok_word p = c \<and> parseline n (cmd_text c @ R) = Ok (p, R)" using p(1) by blast
  qed
qed

lemma line_reads_LIST:
  assumes l: "back_reads l" and r: "line_reads r" and ok: "cmd_ok r"
  shows "line_reads (LIST l r)"
proof -
  obtain N where N: "\<And>n R. N \<le> n \<Longrightarrow> starts '')&;'' R \<Longrightarrow>
      \<exists>p. map_cmd tok_word p = l \<and> pbind (parsepipe n (text_at 1 l @ R)) (\<lambda>(c, s). Ok (parseback c s)) = Ok (parseback p R)"
    using l unfolding back_reads_def by blast
  obtain M where M: "\<And>n R. M \<le> n \<Longrightarrow> starts '')'' R \<Longrightarrow> \<exists>p. map_cmd tok_word p = r \<and> parseline n (cmd_text r @ R) = Ok (p, R)"
    using r unfolding line_reads_def by blast
  show ?thesis unfolding line_reads_def
  proof (intro exI [of _ "Suc (max N M)"] allI impI)
    fix n R assume n: "Suc (max N M) \<le> n" and R: "starts '')'' R"
    obtain m where m: "n = Suc m" "N \<le> m" "M \<le> m" using n by (cases n) auto
    let ?s = "CHR '';'' # cmd_text r @ R"
    have t: "cmd_text (LIST l r) @ R = text_at 1 l @ ?s" by (simp add: text_at_def)
    have sk: "skip_ws ?s = ?s" by (rule starts_skip_ws) simp
    obtain p where p: "map_cmd tok_word p = l" "pbind (parsepipe m (text_at 1 l @ ?s)) (\<lambda>(c, s). Ok (parseback c s)) = Ok (parseback p ?s)"
      using N [OF m(2), of ?s] by auto
    have pb: "parseback p ?s = (p, ?s)" by (rule parseback_none [OF sk]) simp
    obtain q where q: "map_cmd tok_word q = r" "parseline m (cmd_text r @ R) = Ok (q, R)" using M [OF m(3) R] by blast
    have "skip_ws (text_at 0 r @ R) = text_at 0 r @ R" by (intro text_start ok starts_mono [OF R]) auto
    then have "skip_ws (cmd_text r @ R) = cmd_text r @ R" by (simp add: text_at_def paren_def)
    then have "parseline n (cmd_text (LIST l r) @ R) = Ok (LIST p q, R)"
      unfolding t m(1) parseline_Ok [OF p(2) [unfolded pb]] using q(2) by (simp add: peek_at sk gettoken_sym)
    then show "\<exists>p. map_cmd tok_word p = LIST l r \<and> parseline n (cmd_text (LIST l r) @ R) = Ok (p, R)"
      using p(1) q(1) by (intro exI [of _ "LIST p q"]) simp
  qed
qed

lemma reads:
  "cmd_ok c \<Longrightarrow> exec_reads c \<and> pipe_reads c \<and> back_reads c \<and> line_reads c"
proof (induction c)
  case (EXEC ws)
  then have "exec_reads (EXEC ws)" by (rule exec_reads_EXEC)
  then show ?case by (simp add: pipe_reads_exec back_reads_pipe line_reads_back)
next
  case (REDIR c f m d)
  then have "exec_reads (REDIR c f m d)" by (intro exec_reads_REDIR) simp_all
  then show ?case by (simp add: pipe_reads_exec back_reads_pipe line_reads_back)
next
  case (PIPE l r)
  then have "pipe_reads (PIPE l r)" by (intro pipe_reads_PIPE) simp_all
  then have "line_reads (PIPE l r)" "back_reads (PIPE l r)" by (simp_all add: back_reads_pipe line_reads_back)
  then show ?case using \<open>pipe_reads (PIPE l r)\<close> exec_reads_paren [of "PIPE l r"] PIPE.prems by simp
next
  case (LIST l r)
  then have l: "line_reads (LIST l r)" by (intro line_reads_LIST) simp_all
  then have "exec_reads (LIST l r)" using exec_reads_paren [of "LIST l r"] LIST.prems by simp
  then show ?case using l by (simp add: pipe_reads_exec back_reads_pipe)
next
  case (BACK c)
  then have b: "back_reads (BACK c)" by (intro back_reads_BACK) simp_all
  then have l: "line_reads (BACK c)" by (simp add: line_reads_back)
  then have "exec_reads (BACK c)" using exec_reads_paren [of "BACK c"] BACK.prems by simp
  then show ?case using b l by (simp add: pipe_reads_exec)
qed

lemma pbind_mono:
  "pbind m f \<noteq> NoFuel \<Longrightarrow> (m \<noteq> NoFuel \<Longrightarrow> m' = m) \<Longrightarrow> (\<And>x. f x \<noteq> NoFuel \<Longrightarrow> f' x = f x) \<Longrightarrow> pbind m' f' = pbind m f"
  by (cases m) auto

lemma parse_more_fuel:
  "parseline n s \<noteq> NoFuel \<Longrightarrow> parseline (Suc n) s = parseline n s"
  "parsepipe n s \<noteq> NoFuel \<Longrightarrow> parsepipe (Suc n) s = parsepipe n s"
  "parseblock n s \<noteq> NoFuel \<Longrightarrow> parseblock (Suc n) s = parseblock n s"
  "parseexec n s \<noteq> NoFuel \<Longrightarrow> parseexec (Suc n) s = parseexec n s"
proof (induction n arbitrary: s)
  case (Suc n)
  {
    case 1
    show ?case unfolding parseline.simps(2) [of "Suc n"] using 1 Suc.IH(1,2)
      by (subst parseline.simps(2) [of n], intro pbind_mono)
        (auto simp: Let_def split: prod.splits if_splits intro!: pbind_mono)
  next
    case 2
    show ?case unfolding parsepipe.simps(2) [of "Suc n"] using 2 Suc.IH(2,4)
      by (subst parsepipe.simps(2) [of n], intro pbind_mono)
        (auto simp: Let_def split: prod.splits if_splits intro!: pbind_mono)
  next
    case 3
    show ?case unfolding parseblock.simps(2) [of "Suc n"] using 3 Suc.IH(1)
      by (auto simp: Let_def split: prod.splits if_splits intro!: pbind_mono)
  next
    case 4
    show ?case unfolding parseexec.simps(2) [of "Suc n"] using 4 Suc.IH(3)
      by (auto simp: Let_def split: prod.splits if_splits simp del: parseblock.simps)
  }
qed simp_all

lemma parseline_fuel: "parseline n s \<noteq> NoFuel \<Longrightarrow> n \<le> m \<Longrightarrow> parseline m s = parseline n s"
  by (induction m) (auto simp: le_Suc_eq parse_more_fuel simp del: parseline.simps)

lemma cmd_text_nul: "cmd_ok c \<Longrightarrow> CHR 0x00 \<notin> set (cmd_text c)"
  by (induction c) (auto simp: word_ok_def list_all_iff paren_def)

section \<open>Who reads and writes what\<close>

text \<open>The open files of a process that has its standard descriptors and no other.\<close>

definition std :: "obj \<Rightarrow> obj \<Rightarrow> obj \<Rightarrow> fdtab" where
  "std i out e = [Some i, Some out, Some e] @ replicate 13 None"

definition piped :: "bool list \<Rightarrow> obj \<Rightarrow> obj \<Rightarrow> obj \<Rightarrow> fdtab" where
  "piped x i out e = [Some i, Some out, Some e, Some (OPipeR x), Some (OPipeW x)] @ replicate 11 None"

text \<open>The programs of a command with their standard input and output.\<close>

primrec wires :: "(string \<Rightarrow> u32 \<Rightarrow> bool) \<Rightarrow> bool list \<Rightarrow> string cmd \<Rightarrow> obj \<Rightarrow> obj \<Rightarrow> (string list \<times> obj \<times> obj) list" where
  "wires opens x (EXEC argv) i out = (if argv = [] then [] else [(argv, i, out)])"
| "wires opens x (REDIR c f m fd) i out =
     (if \<not> opens f m then [] else if fd = 0 then wires opens x c (OFile f m) out else wires opens x c i (OFile f m))"
| "wires opens x (PIPE l r) i out = wires opens (False # x) l i (OPipeW x) @ wires opens (True # x) r (OPipeR x) out"
| "wires opens x (LIST l r) i out = wires opens (False # x) l i out @ wires opens (True # x) r i out"
| "wires opens x (BACK c) i out = wires opens (False # x) c i out"

text \<open>The programs that a sequence of actions starts, and the tables with which its processes wait.\<close>

primrec execs :: "act \<Rightarrow> (string list \<times> fdtab) list" where
  "execs (AFork as) = concat (map execs as)"
| "execs (AWait t) = []"
| "execs (AExec argv t) = [(argv, t)]"
| "execs (AChdir d) = []"
| "execs (APrint m) = []"
| "execs AExit = []"

primrec waits :: "act \<Rightarrow> fdtab list" where
  "waits (AFork as) = concat (map waits as)"
| "waits (AWait t) = [t]"
| "waits (AExec argv t) = []"
| "waits (AChdir d) = []"
| "waits (APrint m) = []"
| "waits AExit = []"

lemma std_pipe: "fd_pipe x (std i out e) = Some (3, 4, piped x i out e)"
  by (simp add: piped_def fd_pipe_def fd_new_def std_def numeral_eq_Suc)

lemma std_redir:
  "fd_new f (fd_close 0 (std i out e)) = Some (0, std f out e)"
  "fd_new f (fd_close 1 (std i out e)) = Some (1, std i f e)"
  by (simp_all add: fd_new_def fd_close_def std_def)

lemma std_pipe_ends:
  "fd_close 4 (fd_close 3 (fd_dup 4 (fd_close 1 (piped x i out e)))) = std i (OPipeW x) e"
  "fd_close 4 (fd_close 3 (fd_dup 3 (fd_close 0 (piped x i out e)))) = std (OPipeR x) out e"
  "fd_close 4 (fd_close 3 (piped x i out e)) = std i out e"
  by (simp_all add: piped_def fd_close_def fd_dup_def fd_new_def std_def numeral_eq_Suc)

text \<open>A shell that starts with no open file opens its three standard descriptors.\<close>

lemma sh_open_std: "sh_open 16 (replicate 16 None) = std OTty OTty OTty"
  by code_simp

lemma runcmd_wires:
  "cmd_ok c \<Longrightarrow> concat (map execs (runcmd progs opens x c (std i out e))) = map (\<lambda>(argv, i, out). (argv, std i out e)) (wires opens x c i out) \<and>
     (\<forall>t\<in>set (concat (map waits (runcmd progs opens x c (std i out e)))). \<exists>i out. t = std i out e)"
proof (induction c arbitrary: x i out)
  case (REDIR c f m d)
  then show ?case by (auto simp: std_redir Let_def simp del: One_nat_def)
next
  case (PIPE l r)
  then show ?case by (auto simp: std_pipe std_pipe_ends simp del: One_nat_def)
qed (auto split: if_splits)

section \<open>Properties\<close>

text \<open>
  C16. The shell's parser. On every line of the shell it returns or exits with a message: the recursion ends. The command that it returns consists of
  words of the line, each as long as it can be and ended by the end of the line, a blank or a symbol, with less than ten
  arguments per program; and after \<^verbatim>\<open>nulterminate\<close>, which cuts the line in place, each pointer of the command is the C string of its word, although other
  words and symbols follow it in the same buffer.
\<close>

theorem parsecmd_words:
  assumes "CHR 0x00 \<notin> set s"
  shows "parsecmd s \<noteq> NoFuel \<and>
     (\<forall>c b. parsecmd s = Ok (c, b) \<longrightarrow> args_ok c \<and> (\<forall>t\<in>set_cmd c. tok_ok s t) \<and> seen (length s) b c = map_cmd tok_word c)"
  by (rule parsecmd_seen [OF assms])

theorem parsecmd_words_witness:
  "\<exists>c b. parsecmd ''ls<a|b>c;'' = Ok (c, b) \<and> seen 9 b c = LIST (PIPE (REDIR (EXEC [''ls'']) ''a'' 0 0) (REDIR (EXEC [''b'']) ''c'' 0x201 1)) (EXEC [])"
proof -
  have "CHR 0x00 \<notin> set ''ls<a|b>c;''" by simp
  moreover have "case parsecmd ''ls<a|b>c;'' of Ok (c, b) \<Rightarrow>
      map_cmd tok_word c = LIST (PIPE (REDIR (EXEC [''ls'']) ''a'' 0 0) (REDIR (EXEC [''b'']) ''c'' 0x201 1)) (EXEC []) | _ \<Rightarrow> False"
    by code_simp
  moreover have "length ''ls<a|b>c;'' = 9" by simp
  ultimately show ?thesis using parsecmd_words [of "''ls<a|b>c;''"] by (auto split: pres.splits simp del: list.size)
qed

text \<open>
  C14. The shell's language. Every command, of any nesting of programs with up to nine arguments, redirections, pipelines, lists and background commands,
  can be written so that \<^verbatim>\<open>parsecmd\<close> reads back the same command: the precedence of the operators is that of the
  printer \<open>cmd_text\<close>, which puts parentheses only where a looser operator stands below a tighter one.
\<close>

theorem parsecmd_roundtrip:
  assumes ok: "cmd_ok c"
  shows "\<exists>p b. parsecmd (cmd_text c) = Ok (p, b) \<and> seen (length (cmd_text c)) b p = c"
proof -
  let ?s = "cmd_text c"
  obtain N where N: "\<And>n R. N \<le> n \<Longrightarrow> starts '')'' R \<Longrightarrow> \<exists>p. map_cmd tok_word p = c \<and> parseline n (?s @ R) = Ok (p, R)"
    using reads [OF ok] unfolding line_reads_def by blast
  let ?n = "4 * length ?s + 4"
  obtain p where p: "map_cmd tok_word p = c" "parseline (max N ?n) ?s = Ok (p, [])" using N [of "max N ?n" "[]"] by auto
  have seen: "parsecmd ?s \<noteq> NoFuel" "\<And>p b. parsecmd ?s = Ok (p, b) \<Longrightarrow> seen (length ?s) b p = map_cmd tok_word p"
    using parsecmd_seen [OF cmd_text_nul [OF ok]] by auto
  then have "parseline ?n ?s \<noteq> NoFuel" by (auto simp: parsecmd_def)
  then have "parseline ?n ?s = Ok (p, [])" using parseline_fuel [of ?n ?s "max N ?n"] p(2) by simp
  then have "\<exists>b. parsecmd ?s = Ok (p, b)" by (simp add: parsecmd_def peek_def skip_ws_def)
  then show ?thesis using seen(2) p(1) by blast
qed

theorem parsecmd_roundtrip_witness:
  "\<exists>p b. parsecmd ''(a ;b &)<f|c x y >g'' = Ok (p, b) \<and> seen 19 b p =
     PIPE (REDIR (LIST (EXEC [''a'']) (BACK (EXEC [''b'']))) ''f'' 0 0) (REDIR (EXEC [''c'', ''x'', ''y'']) ''g'' 0x201 1)"
proof -
  let ?c = "PIPE (REDIR (LIST (EXEC [''a'']) (BACK (EXEC [''b'']))) ''f'' 0 0) (REDIR (EXEC [''c'', ''x'', ''y'']) ''g'' 0x201 1)"
  have "cmd_ok ?c" by (simp add: word_ok_def wordchar_def whitespace_def symbols_def)
  moreover have "cmd_text ?c = ''(a ;b &)<f|c x y >g''" by (simp add: paren_def)
  moreover have "length ''(a ;b &)<f|c x y >g'' = 19" by simp
  ultimately show ?thesis using parsecmd_roundtrip [of ?c] by (simp only:)
qed

text \<open>
  C15. The shell's plumbing. Started with its three standard descriptors, \<^verbatim>\<open>runcmd\<close> starts exactly the programs of the command, each with the standard
  input and output that the redirections and pipes around it give it and with no other descriptor open: the ends of a pipe are open in the
  programs on its two sides only, and a process of the shell that waits for others holds none but its own standard descriptors, so a reader sees the end
  of its input when the writers are done.
\<close>

theorem runcmd_plumbing:
  assumes "cmd_ok c"
  shows "concat (map execs (runcmd progs opens [] c (std i out e))) = map (\<lambda>(argv, i, out). (argv, std i out e)) (wires opens [] c i out) \<and>
     (\<forall>t\<in>set (concat (map waits (runcmd progs opens [] c (std i out e)))). \<exists>i out. t = std i out e)"
  by (rule runcmd_wires [OF assms])

theorem runcmd_plumbing_witness:
  "concat (map execs (runcmd (\<lambda>_. True) (\<lambda>_ _. True) [] (PIPE (EXEC [''a'']) (PIPE (EXEC [''b'']) (REDIR (EXEC [''c'']) ''f'' 0x201 1))) (std OTty OTty OTty))) =
     [([''a''], std OTty (OPipeW []) OTty), ([''b''], std (OPipeR []) (OPipeW [True]) OTty), ([''c''], std (OPipeR [True]) (OFile ''f'' 0x201) OTty)]"
proof -
  let ?c = "PIPE (EXEC [''a'']) (PIPE (EXEC [''b'']) (REDIR (EXEC [''c'']) ''f'' 0x201 1))"
  have "cmd_ok ?c" by (simp add: word_ok_def wordchar_def whitespace_def symbols_def)
  then show ?thesis using runcmd_plumbing [of ?c "\<lambda>_. True" "\<lambda>_ _. True" OTty OTty OTty] by simp
qed

end
