(* ===== verification/Swap.thy ===== *)
theory Swap
  imports Exec
begin

text \<open>
  Page replacement, the second tree of the repository (\<^verbatim>\<open>page-replacement\<close>): the list of pages that may be swapped out, kept as a ring
  (\<^verbatim>\<open>append_lru\<close>, \<^verbatim>\<open>pop_lru\<close> of \<^verbatim>\<open>kalloc.c\<close>), the bitmap of the swap space, the transfer of a page to and from the disk (\<^verbatim>\<open>swapread\<close>,
  \<^verbatim>\<open>swapwrite\<close> of \<^verbatim>\<open>fs.c\<close>), the clock algorithm \<^verbatim>\<open>reclaim\<close> and the allocator that calls it. The files \<^verbatim>\<open>bio.c\<close>, \<^verbatim>\<open>ide.c\<close> and
  \<^verbatim>\<open>sleeplock.c\<close> are the same in both trees, so the buffer cache is the one of theory Bio; only \<^verbatim>\<open>FSSIZE\<close> differs, the field
  \<open>fssize\<close> of the state.

  A pointer to a \<^verbatim>\<open>struct page\<close> is the index of the page in the array \<^verbatim>\<open>pages\<close>; an index outside the array is a fault.
  The cache calls \<^verbatim>\<open>sleep\<close> and \<^verbatim>\<open>wakeup\<close>, which here are those of the other tree; its \<^verbatim>\<open>wakeup\<close> also adjusts the virtual run time, a field that the processes
  of this tree do not have. The counters are not bounded: they change by 1 in each call. The accessed bits that the hardware sets while the kernel
  runs are not modelled. The functions with the prefix \<open>lru_\<close> are this tree's versions of functions that the other tree has too.
\<close>

section \<open>State\<close>

record page =
  pg_next :: "nat option"
  pg_prev :: "nat option"
  pg_pgdir :: u32
  pg_vaddr :: u32

record swst = idest +
  pages :: "nat \<Rightarrow> page"
  page_lru_head :: "nat option"
  num_lru_pages :: int
  bitmap :: "u8 list"
  nr_sectors_read :: int
  nr_sectors_write :: int

abbreviation (input) NPAGES :: nat where "NPAGES \<equiv> 57344"   \<comment> \<open>\<^verbatim>\<open>PHYSTOP / PGSIZE\<close>\<close>
abbreviation (input) SWAPBASE :: int where "SWAPBASE \<equiv> 500"
abbreviation (input) SWAPMAX :: int where "SWAPMAX \<equiv> 99500"
abbreviation (input) BITMAP_SIZE :: nat where "BITMAP_SIZE \<equiv> 4096"

definition updg :: "nat \<Rightarrow> (page \<Rightarrow> page) \<Rightarrow> 'a swst_scheme \<Rightarrow> 'a swst_scheme" where
  "updg i f s = s\<lparr>pages := (pages s)(i := f (pages s i))\<rparr>"

section \<open>The bitmap of the swap space\<close>

definition set_bit_swap :: "nat \<Rightarrow> 'a swst_scheme \<Rightarrow> (unit, 'a swst_scheme) res" where
  "set_bit_swap k s =
     (if k div 8 \<ge> length (bitmap s) then Fault ''set_bit: index''
      else Ret () (s\<lparr>bitmap := (bitmap s)[k div 8 := bitmap s ! (k div 8) OR push_bit (k mod 8) 1]\<rparr>))"

definition clear_bit_swap :: "nat \<Rightarrow> 'a swst_scheme \<Rightarrow> (unit, 'a swst_scheme) res" where
  "clear_bit_swap k s =
     (if k div 8 \<ge> length (bitmap s) then Fault ''clear_bit: index''
      else Ret () (s\<lparr>bitmap := (bitmap s)[k div 8 := bitmap s ! (k div 8) AND NOT (push_bit (k mod 8) 1)]\<rparr>))"

definition check_bit_swap :: "nat \<Rightarrow> 'a swst_scheme \<Rightarrow> u8" where
  "check_bit_swap k s = bitmap s ! (k div 8) AND push_bit (k mod 8) 1"

text \<open>The loop stops at \<^verbatim>\<open>BITMAP_SIZE\<close>, the number of bytes, not of bits. \<open>None\<close> is the result -1.\<close>

definition find_free_swap_index :: "'a swst_scheme \<Rightarrow> nat option" where
  "find_free_swap_index s = find (\<lambda>k. check_bit_swap k s = 0) [0..<BITMAP_SIZE]"

section \<open>The ring of pages\<close>

definition append_lru :: "u32 \<Rightarrow> u32 \<Rightarrow> u32 \<Rightarrow> 'a swst_scheme \<Rightarrow> (unit, 'a swst_scheme) res" where
  "append_lru pgdir va pa s =
     (let n = unat (pa div PGSIZE)
      in kbind (lock_acquire LLru s) (\<lambda>_ s.
           if n \<ge> NPAGES then Fault ''append_lru: index''
           else let s = updg n (\<lambda>x. x\<lparr>pg_vaddr := va\<rparr>) s;
                    s = updg n (\<lambda>x. x\<lparr>pg_pgdir := pgdir\<rparr>) s
           in if num_lru_pages s = 1 then
                let s = s\<lparr>page_lru_head := Some n\<rparr>;
                    s = updg n (\<lambda>x. x\<lparr>pg_prev := Some n\<rparr>) s;
                    s = updg n (\<lambda>x. x\<lparr>pg_next := Some n\<rparr>) s
                in lock_release LLru (s\<lparr>num_lru_pages := num_lru_pages s + 1\<rparr>)
              else case page_lru_head s of
                None \<Rightarrow> Fault ''append_lru: null head''
              | Some h \<Rightarrow>
                  let s = updg n (\<lambda>x. x\<lparr>pg_prev := pg_prev (pages s h)\<rparr>) s;
                      s = updg n (\<lambda>x. x\<lparr>pg_next := Some h\<rparr>) s
                  in case pg_prev (pages s h) of
                       None \<Rightarrow> Fault ''append_lru: null prev''
                     | Some l \<Rightarrow>
                         let s = updg l (\<lambda>x. x\<lparr>pg_next := Some n\<rparr>) s;
                             s = updg h (\<lambda>x. x\<lparr>pg_prev := Some n\<rparr>) s
                         in lock_release LLru (s\<lparr>num_lru_pages := num_lru_pages s + 1\<rparr>)))"

definition pop_lru :: "u32 \<Rightarrow> 'a swst_scheme \<Rightarrow> (unit, 'a swst_scheme) res" where
  "pop_lru pa s =
     (let n = unat (pa div PGSIZE)
      in kbind (lock_acquire LLru s) (\<lambda>_ s.
         kbind (if page_lru_head s = Some n then Ret () (s\<lparr>page_lru_head := None\<rparr>)
                else if n \<ge> NPAGES then Fault ''pop_lru: index''
                else case pg_prev (pages s n) of
                  None \<Rightarrow> Fault ''pop_lru: null prev''
                | Some q \<Rightarrow>
                    let s = updg q (\<lambda>x. x\<lparr>pg_next := pg_next (pages s n)\<rparr>) s
                    in case pg_next (pages s n) of
                         None \<Rightarrow> Fault ''pop_lru: null next''
                       | Some m \<Rightarrow>
                           let s = updg m (\<lambda>x. x\<lparr>pg_prev := pg_prev (pages s n)\<rparr>) s
                           in Ret () (updg n (\<lambda>x. x\<lparr>pg_next := None, pg_prev := None, pg_vaddr := 0, pg_pgdir := 0\<rparr>) s)) (\<lambda>_ s.
           lock_release LLru (s\<lparr>num_lru_pages := num_lru_pages s - 1\<rparr>))))"

section \<open>Transfer of a page\<close>

text \<open>
  \<^verbatim>\<open>memmove\<close> between a buffer and a pointer that may be a kernel or a user address. A user address is reached through the page table
  in \<^verbatim>\<open>cr3\<close>, whichever process it belongs to.
\<close>

definition vload :: "nat \<Rightarrow> u32 \<Rightarrow> 'a vmst_scheme \<Rightarrow> (u8 list, 'a vmst_scheme) res" where
  "vload n a s = (if a \<ge> KERNBASE then Ret (map (\<lambda>i. mem s (a + of_nat i)) [0..<n]) s else user_bytes n a s)"

definition vstore :: "u32 \<Rightarrow> u8 list \<Rightarrow> 'a vmst_scheme \<Rightarrow> (unit, 'a vmst_scheme) res" where
  "vstore a xs s = (if a \<ge> KERNBASE then Ret () (s\<lparr>mem := store_bytes (mem s) a xs\<rparr>) else user_store a xs s)"

definition swap_block :: "int \<Rightarrow> nat \<Rightarrow> u32" where
  "swap_block blkno i = word_of_int (SWAPBASE + 8 * blkno + int i)"

definition swapread :: "u32 \<Rightarrow> int \<Rightarrow> 'a swst_scheme \<Rightarrow> (unit, 'a swst_scheme) res" where
  "swapread ptr blkno s =
     (if blkno < 0 \<or> blkno \<ge> SWAPMAX div 8 then Panic ''swapread: blkno exceeded range''
      else kfor (\<lambda>i s.
        kbind (bread 0 (swap_block blkno i) (s\<lparr>nr_sectors_read := nr_sectors_read s + 1\<rparr>)) (\<lambda>b s.
        kbind (vstore (ptr + of_nat (i * 512)) (b_data (bufs s ! b)) s) (\<lambda>_ s. brelse b s))) [0..<8] s)"

definition swapwrite :: "u32 \<Rightarrow> int \<Rightarrow> 'a swst_scheme \<Rightarrow> (unit, 'a swst_scheme) res" where
  "swapwrite ptr blkno s =
     (if blkno < 0 \<or> blkno \<ge> SWAPMAX div 8 then Panic ''swapwrite: blkno exceeded range''
      else kfor (\<lambda>i s.
        kbind (bread 0 (swap_block blkno i) (s\<lparr>nr_sectors_write := nr_sectors_write s + 1\<rparr>)) (\<lambda>b s.
        kbind (vload 512 (ptr + of_nat (i * 512)) s) (\<lambda>xs s.
        kbind (bwrite b (bput b xs s)) (\<lambda>_ s. brelse b s)))) [0..<8] s)"

section \<open>The allocator\<close>

definition flush :: "'a ptab_scheme \<Rightarrow> (unit, 'a ptab_scheme) res" where
  "flush s = with_proc s (\<lambda>p. Ret () (s\<lparr>cr3 := V2P (p_pgdir (procs s ! p))\<rparr>))"

definition lru_kfree :: "u32 \<Rightarrow> 'a kmem_scheme \<Rightarrow> (unit, 'a kmem_scheme) res" where
  "lru_kfree v s =
     (if v mod PGSIZE \<noteq> 0 \<or> v < kend s \<or> V2P v \<ge> PHYSTOP then Panic ''kfree''
      else kbind (kmem_acquire (s\<lparr>mem := memset (mem s) v 1 4096\<rparr>)) (\<lambda>_ s.
           kmem_release (s\<lparr>mem := store32 (mem s) v (freelist s), freelist := v\<rparr>)))"

text \<open>The loop of \<^verbatim>\<open>freerange\<close> ends as in the other tree: \<^verbatim>\<open>kfree\<close> panics above the end of physical memory.\<close>

lemma lru_kfree_Ret_page_ok: "lru_kfree v s = Ret u s' \<Longrightarrow> page_ok (kend s) v"
  by (auto simp: lru_kfree_def page_ok_def not_le split: if_splits)

function lru_freerange_loop :: "u32 \<Rightarrow> u32 \<Rightarrow> 'a kmem_scheme \<Rightarrow> (unit, 'a kmem_scheme) res" where
  "lru_freerange_loop p vend s =
     (if p + PGSIZE \<le> vend
      then kbind (lru_kfree p s) (\<lambda>_ s. lru_freerange_loop (p + PGSIZE) vend s)
      else Ret () s)"
  by pat_completeness auto
termination
proof (relation "measure (\<lambda>(p, vend, s). 0x8E000000 - unat p)")
  fix p vend :: u32 and s :: "'a kmem_scheme" and u s'
  assume "lru_kfree p s = Ret u s'"
  then have "unat p + 4096 \<le> 0x8E000000" using page_ok_range lru_kfree_Ret_page_ok by blast
  moreover from this have "unat (p + PGSIZE) = unat p + 4096" by (simp add: unat_word_ariths)
  ultimately show "((p + PGSIZE, vend, s'), (p, vend, s)) \<in> measure (\<lambda>(p, vend, s). 0x8E000000 - unat p)" by simp
qed simp

declare lru_freerange_loop.simps [simp del]

definition lru_freerange :: "u32 \<Rightarrow> u32 \<Rightarrow> 'a kmem_scheme \<Rightarrow> (unit, 'a kmem_scheme) res" where
  "lru_freerange vstart vend s = lru_freerange_loop (PGROUNDUP vstart) vend s"

definition lru_kinit1 :: "u32 \<Rightarrow> u32 \<Rightarrow> 'a swst_scheme \<Rightarrow> (unit, 'a swst_scheme) res" where
  "lru_kinit1 vstart vend s =
     kbind (lru_freerange vstart vend (s\<lparr>held := removeAll LKmem (held s), use_lock := False\<rparr>)) (\<lambda>_ s.
       Ret () (s\<lparr>bitmap := replicate BITMAP_SIZE 0\<rparr>))"

definition lru_kinit2 :: "u32 \<Rightarrow> u32 \<Rightarrow> 'a kmem_scheme \<Rightarrow> (unit, 'a kmem_scheme) res" where
  "lru_kinit2 vstart vend s = kbind (lru_freerange vstart vend s) (\<lambda>_ s. Ret () (s\<lparr>use_lock := True\<rparr>))"

text \<open>
  What \<^verbatim>\<open>reclaim\<close> does with the victim \<open>h\<close>, whose page table entry is at \<open>pte\<close>: unlink it, write it to a free slot of the swap space,
  replace the entry, and free the page. The argument of \<^verbatim>\<open>kfree\<close> is computed from the entry after it has been overwritten.
\<close>

definition swap_out :: "nat \<Rightarrow> u32 \<Rightarrow> 'a swst_scheme \<Rightarrow> (int, 'a swst_scheme) res" where
  "swap_out h pte s =
     (case pg_next (pages s h) of
        None \<Rightarrow> Fault ''reclaim: null next''
      | Some n \<Rightarrow>
          let s = s\<lparr>page_lru_head := Some n\<rparr>;
              s = updg n (\<lambda>x. x\<lparr>pg_prev := pg_prev (pages s h)\<rparr>) s
          in case pg_prev (pages s h) of
               None \<Rightarrow> Fault ''reclaim: null prev''
             | Some q \<Rightarrow>
                 let s = updg q (\<lambda>x. x\<lparr>pg_next := Some n\<rparr>) s;
                     s = (if n = h then s\<lparr>page_lru_head := None\<rparr> else s)
                 in case find_free_swap_index s of
                      None \<Rightarrow>
                        kbind (cprintf (''Swap space full'' @ [CHR 0x0A]) [] s) (\<lambda>_ s.
                        kbind (lock_release LLru s) (\<lambda>_ s. Ret 0 s))
                    | Some k \<Rightarrow>
                        kbind (swapwrite (pg_vaddr (pages s h)) (int k) s) (\<lambda>_ s.
                        kbind (set_bit_swap k s) (\<lambda>_ s.
                          let flags = PTE_FLAGS (load32 (mem s) pte);
                              e = (push_bit 12 (of_nat k) OR flags) AND NOT PTE_P
                          in kbind (flush (s\<lparr>mem := store32 (mem s) pte e\<rparr>)) (\<lambda>_ s.
                             kbind (lock_release LKmem s) (\<lambda>_ s.
                             kbind (lru_kfree (P2V (PTE_ADDR (load32 (mem s) pte))) s) (\<lambda>_ s.
                             kbind (lock_release LLru s) (\<lambda>_ s. Ret 1 s)))))))"

text \<open>
  The loop of \<^verbatim>\<open>reclaim\<close>, the hand of the clock. It ends on every state, since each pass that goes on clears an accessed bit in memory.
\<close>

definition acc_bytes :: "mem \<Rightarrow> u32 set" where
  "acc_bytes m = {a. bit (m a) 5}"

lemma bit_accessed [simp]: "bit (0x20 :: u32) n \<longleftrightarrow> n = 5"
proof -
  have e: "(0x20 :: u32) = 2 ^ 5" by simp
  show ?thesis unfolding e bit_exp_iff by auto
qed

lemma bit_accessed_and: "bit (x AND PTE_A) n \<longleftrightarrow> bit x 5 \<and> n = 5" "bit (x AND NOT PTE_A) n \<longleftrightarrow> bit x n \<and> n \<noteq> 5"
  using bit_accessed [of n] bit_imp_le_length [of x n] unfolding bit_and_iff bit_not_iff by auto

lemma accessed_iff: "x AND PTE_A \<noteq> 0 \<longleftrightarrow> bit x 5"
  using bit_accessed_and(1) [of x] by (metis bit_0_eq bot_apply bot_bool_def bit_eqI)

lemma clear_accessed:
  assumes "load32 m p AND PTE_A \<noteq> 0"
  shows "acc_bytes (store32 m p (load32 m p AND NOT PTE_A)) \<subset> acc_bytes m"
proof -
  define w where "w = load32 m p AND NOT PTE_A"
  have wb: "bit w n \<longleftrightarrow> bit (load32 m p) n \<and> n \<noteq> 5" for n
    unfolding w_def by (rule bit_accessed_and)
  have l: "bit (load32 m p) 5 = bit (m p) 5" by (simp add: load32_def bit_simps)
  have b: "ucast (drop_bit 8 w) = m (p + 1)" "ucast (drop_bit 16 w) = m (p + 2)" "ucast (drop_bit 24 w) = m (p + 3)"
    by (intro bit_word_eqI; simp add: bit_simps wb; simp add: load32_def bit_simps)+
  have "store32 m p w = m(p := ucast w)" unfolding store32_def b by (auto simp: fun_eq_iff)
  then have "acc_bytes (store32 m p w) = acc_bytes m - {p}"
    by (auto simp: acc_bytes_def bit_simps wb)
  moreover have "p \<in> acc_bytes m" using assms l unfolding accessed_iff by (simp add: acc_bytes_def)
  ultimately show ?thesis unfolding w_def by auto
qed

lemma walkpgdir_noalloc: "walkpgdir pgdir va False s = Ret p t \<Longrightarrow> t = s"
  by (auto simp: walkpgdir_def Let_def split: if_splits)

function reclaim_loop :: "'a swst_scheme \<Rightarrow> (int, 'a swst_scheme) res" where
  "reclaim_loop s =
     (case page_lru_head s of
        None \<Rightarrow> Fault ''reclaim: null head''
      | Some h \<Rightarrow>
          kbind (walkpgdir (pg_pgdir (pages s h)) (PGROUNDDOWN (pg_vaddr (pages s h))) False s) (\<lambda>pte s.
            if pte = 0 then Fault ''reclaim: null pte''
            else if load32 (mem s) pte AND PTE_A \<noteq> 0
            then reclaim_loop (s\<lparr>mem := store32 (mem s) pte (load32 (mem s) pte AND NOT PTE_A), page_lru_head := pg_next (pages s h)\<rparr>)
            else swap_out h pte s))"
  by pat_completeness auto
termination
proof (relation "measure (\<lambda>s. card (acc_bytes (mem s)))")
  fix s t :: "'a swst_scheme" and h p
  assume "walkpgdir (pg_pgdir (pages s h)) (PGROUNDDOWN (pg_vaddr (pages s h))) False s = Ret p t" "load32 (mem t) p AND PTE_A \<noteq> 0"
  then have "t = s" "acc_bytes (store32 (mem s) p (load32 (mem s) p AND NOT PTE_A)) \<subset> acc_bytes (mem s)"
    using walkpgdir_noalloc clear_accessed by blast+
  then show "(t\<lparr>mem := store32 (mem t) p (load32 (mem t) p AND NOT PTE_A), page_lru_head := pg_next (pages t h)\<rparr>, s)
      \<in> measure (\<lambda>s. card (acc_bytes (mem s)))"
    by (auto intro: psubset_card_mono)
qed simp

declare reclaim_loop.simps [simp del]

definition reclaim :: "'a swst_scheme \<Rightarrow> (int, 'a swst_scheme) res" where
  "reclaim s =
     kbind (cprintf (''130'' @ [CHR 0x0A]) [] s) (\<lambda>_ s.
     kbind (lock_acquire LLru s) (\<lambda>_ s.
       if num_lru_pages s = 0
       then kbind (cprintf (''Out of Memory'' @ [CHR 0x0A]) [] s) (\<lambda>_ s.
            kbind (lock_release LLru s) (\<lambda>_ s. Ret 0 s))
       else reclaim_loop s))"

section \<open>Reclaim never frees a page\<close>

text \<open>
  \<^verbatim>\<open>iderw\<close> sleeps until the drive is done, and \<^verbatim>\<open>sched\<close> panics when the sleeper holds a spin lock other than the one it gives up. So
  \<^verbatim>\<open>iderw\<close> returns only to a caller without spin locks. \<open>on_ret P r\<close> says that a state in which \<open>r\<close> returns satisfies \<open>P\<close>.
\<close>

fun on_ret :: "('s \<Rightarrow> bool) \<Rightarrow> ('a, 's) res \<Rightarrow> bool" where
  "on_ret P (Ret a s) = P s"
| "on_ret P _ = True"

lemma on_ret_kbind: "on_ret P m \<Longrightarrow> (\<And>a s. m = Ret a s \<Longrightarrow> P s \<Longrightarrow> on_ret Q (f a s)) \<Longrightarrow> on_ret Q (kbind m f)"
  by (cases m) auto

lemma on_retI: "(\<And>a t. r = Ret a t \<Longrightarrow> P t) \<Longrightarrow> on_ret P r"
  by (cases r) auto

lemma on_retD: "on_ret P r \<Longrightarrow> r = Ret a t \<Longrightarrow> P t"
  by simp

lemma on_ret_mono: "on_ret P r \<Longrightarrow> (\<And>t. P t \<Longrightarrow> Q t) \<Longrightarrow> on_ret Q r"
  by (cases r) auto

lemma on_ret_never: "on_ret (\<lambda>_. False) r \<Longrightarrow> on_ret P (kbind r f)"
  by (cases r) auto

abbreviation (input) lru_held :: "'a kcpu_scheme \<Rightarrow> bool" where "lru_held s \<equiv> LLru \<in> set (held s)"

lemma lock_RetD:
  "lock_acquire l s = Ret u t \<Longrightarrow> t = s\<lparr>held := l # held s\<rparr>"
  "lock_release l s = Ret u t \<Longrightarrow> t = s\<lparr>held := remove1 l (held s)\<rparr>"
  by (auto simp: lock_acquire_def lock_release_def split: if_splits)

lemma on_ret_locks:
  "on_ret (\<lambda>t. t = s\<lparr>held := l # held s\<rparr>) (lock_acquire l s)"
  "on_ret (\<lambda>t. t = s\<lparr>held := remove1 l (held s)\<rparr>) (lock_release l s)"
  by (auto intro!: on_retI dest: lock_RetD)

lemma holdingsleep_same: "on_ret (\<lambda>t. t = s) (holdingsleep k s)"
  unfolding holdingsleep_def
  by (rule on_ret_kbind [OF on_ret_locks(1)])
    (auto simp: Let_def intro!: on_ret_kbind [OF on_ret_locks(2)] split: option.splits)

lemma sleep_never: "on_ret (\<lambda>_. False) (sleep c lk s)"
  unfolding sleep_def by (auto intro!: on_retI simp: kres split: option.splits)

lemma acquiresleep_lru: "lru_held s \<Longrightarrow> on_ret lru_held (acquiresleep k s)"
  unfolding acquiresleep_def
  by (rule on_ret_kbind [OF on_ret_locks(1)], cases k)
    (auto simp: acquiresleep_loop_def intro!: on_ret_mono [OF sleep_never] on_ret_mono [OF on_ret_locks(2)] split: option.splits)

definition busy :: "nat \<Rightarrow> 'a idest_scheme \<Rightarrow> bool" where
  "busy b s \<longleftrightarrow> \<not> (b_valid (bufs s ! b) \<and> \<not> b_dirty (bufs s ! b))"

lemma busy_qnext [simp]: "busy b (updb e (\<lambda>x. x\<lparr>b_qnext := q\<rparr>) s) = busy b s"
  by (cases "e < length (bufs s)"; cases "e = b") (simp_all add: busy_def updb_def list_update_beyond)

lemma busy_simps [simp]: "busy b (s\<lparr>held := h\<rparr>) = busy b s" "busy b (s\<lparr>idequeue := q\<rparr>) = busy b s" "busy b (s\<lparr>ide_cmd := c\<rparr>) = busy b s"
  by (simp_all add: busy_def)

lemma ide_append_busy: "on_ret (\<lambda>t. held t = held s \<and> busy b t = busy b s) (ide_append b s)"
  unfolding ide_append_def Let_def by (simp split: option.splits)

lemma idestart_busy: "on_ret (\<lambda>t. held t = held s \<and> busy b t = busy b s) (idestart q s)"
  unfolding idestart_def by (simp split: option.splits)

lemma iderw_begin_busy: "on_ret (\<lambda>t. held t = LIde # held s \<and> busy b t) (iderw_begin b s)"
  unfolding iderw_begin_def
proof (rule on_ret_kbind [OF holdingsleep_same], goal_cases)
  case (1 h u)
  have "on_ret (\<lambda>t. held t = LIde # held s \<and> busy b t)
      (kbind (lock_acquire LIde s) (\<lambda>_ s. kbind (ide_append b s) (\<lambda>_ s. if idequeue s = Some b then idestart (Some b) s else Ret () s)))"
    if "busy b s"
  proof (rule on_ret_kbind [OF on_ret_locks(1)], goal_cases)
    case (1 a u)
    show ?case
    proof (rule on_ret_kbind [OF ide_append_busy], goal_cases)
      case (1 a v)
      then show ?case using \<open>u = _\<close> that idestart_busy [of v b "Some b"]
        by (auto intro: on_ret_mono)
    qed
  qed
  then show ?case using 1 by (auto simp: busy_def)
qed

lemma iderw_idle:
  assumes "held s \<noteq> []"
  shows "on_ret (\<lambda>_. False) (iderw b s)"
  unfolding iderw_def
proof (rule on_ret_kbind [OF iderw_begin_busy], goal_cases)
  case (1 a u)
  then show ?case using assms
    by (subst iderw_wait.simps) (auto simp: busy_def split: nat.splits)
qed

lemma bread_lru: "lru_held s \<Longrightarrow> on_ret lru_held (bread d n s)"
  unfolding bread_def
proof (rule on_ret_kbind [where P = lru_held], goal_cases)
  case 1
  show ?case unfolding bget_def
  proof (rule on_ret_kbind [OF on_ret_locks(1)], goal_cases)
    case (1 a u)
    have "on_ret lru_held (kbind (lock_release LBcache (updb b f u)) (\<lambda>_ s. kbind (acquiresleep (SlBuf b) s) (\<lambda>_ s. Ret b s)))" for b f
      by (rule on_ret_kbind [OF on_ret_locks(2)], rule on_ret_kbind [OF acquiresleep_lru]) (use 1 \<open>lru_held s\<close> in auto)
    then show ?case by (auto split: option.splits)
  qed
next
  case (2 b u)
  then have "held u \<noteq> []" by auto
  from on_ret_never [OF iderw_idle [OF this]] show ?case using 2 by auto
qed

lemma user_bytes_same: "on_ret (\<lambda>t. t = s) (user_bytes n a s)"
proof (induction n arbitrary: a)
  case (Suc n)
  have "on_ret (\<lambda>t. t = s) (user_byte a s)" by (simp add: user_byte_def)
  then show ?case unfolding user_bytes.simps
  proof (rule on_ret_kbind, goal_cases)
    case (1 c u)
    then show ?case by (auto intro: on_ret_kbind [OF Suc.IH])
  qed
qed simp

lemma vload_same: "on_ret (\<lambda>t. t = s) (vload n a s)"
  using user_bytes_same [of s n a] by (simp add: vload_def)

lemma swapwrite_never:
  fixes s :: "'a swst_scheme"
  assumes "lru_held s"
  shows "on_ret (\<lambda>_. False) (swapwrite ptr k s)"
proof -
  define f where "f = (\<lambda>i (s :: 'a swst_scheme). kbind (bread 0 (swap_block k i) (s\<lparr>nr_sectors_write := nr_sectors_write s + 1\<rparr>)) (\<lambda>b s.
        kbind (vload 512 (ptr + of_nat (i * 512)) s) (\<lambda>xs s. kbind (bwrite b (bput b xs s)) (\<lambda>_ s. brelse b s))))"
  have "on_ret (\<lambda>_. False) (f 0 s)" unfolding f_def
  proof (rule on_ret_kbind [OF bread_lru], goal_cases)
    case (2 b u)
    show ?case
    proof (rule on_ret_kbind [OF vload_same], goal_cases)
      case (1 xs v)
      then have "held (updb b (\<lambda>x. x\<lparr>b_dirty := True\<rparr>) (bput b xs v)) \<noteq> []" using 2(2) by (auto simp: bput_def)
      note never = iderw_idle [OF this]
      have "on_ret (\<lambda>_. False) (bwrite b (bput b xs v))" unfolding bwrite_def
        by (rule on_ret_kbind [OF holdingsleep_same]) (use never in auto)
      then show ?case by (rule on_ret_never)
    qed
  qed (use assms in simp)
  then have "on_ret (\<lambda>_. False) (kbind (f 0 s) (\<lambda>_ s. kfor f [1..<8] s))" by (rule on_ret_never)
  moreover have "kfor f [0..<8] s = kbind (f 0 s) (\<lambda>_ s. kfor f [1..<8] s)" by (simp add: upt_rec [of 0])
  ultimately show ?thesis by (auto simp: swapwrite_def f_def)
qed

lemma lru_held_updg [simp]: "held (updg i f s) = held s"
  by (simp add: updg_def)

text \<open>The outcome of a call that returns is 0.\<close>

definition returns0 :: "(int, 's) res \<Rightarrow> bool" where
  "returns0 r \<longleftrightarrow> (case r of Ret v _ \<Rightarrow> v = 0 | _ \<Rightarrow> True)"

lemma returns0_simps [simp]: "returns0 (Ret v t) \<longleftrightarrow> v = 0" "returns0 (Panic m)" "returns0 (Fault m)" "returns0 (Sleep c t)"
  by (simp_all add: returns0_def)

lemma returns0_kbind: "(\<And>a s. m = Ret a s \<Longrightarrow> returns0 (f a s)) \<Longrightarrow> returns0 (kbind m f)"
  by (cases m) simp_all

lemma returns0_never: "on_ret (\<lambda>_. False) m \<Longrightarrow> returns0 (kbind m f)"
  by (cases m) simp_all

lemma swap_out_0:
  assumes "lru_held s"
  shows "returns0 (swap_out h pte s)"
  unfolding swap_out_def Let_def
  by (auto split: option.splits intro!: returns0_kbind returns0_never [OF swapwrite_never] simp: assms)

lemma reclaim_loop_0: "lru_held s \<Longrightarrow> returns0 (reclaim_loop s)"
proof (induction s rule: reclaim_loop.induct)
  case (1 s)
  show ?case
  proof (cases "page_lru_head s")
    case (Some h)
    show ?thesis unfolding reclaim_loop.simps [of s] Some option.case
    proof (rule returns0_kbind, goal_cases)
      case (1 p t)
      then have "t = s" by (rule walkpgdir_noalloc)
      then show ?case using 1 "1.IH" [OF Some 1] "1.prems" swap_out_0 [of s h p] by simp
    qed
  qed (simp add: reclaim_loop.simps)
qed

lemma reclaim_0: "returns0 (reclaim s)"
  unfolding reclaim_def
proof (rule returns0_kbind, rule returns0_kbind, goal_cases)
  case (1 a u b v)
  then have "lru_held v" by (auto dest: lock_RetD)
  then show ?case using reclaim_loop_0 by (auto intro!: returns0_kbind)
qed

text \<open>\<^verbatim>\<open>kalloc\<close>: a successful \<^verbatim>\<open>reclaim\<close> would start it again.\<close>

function lru_kalloc :: "'a swst_scheme \<Rightarrow> (u32, 'a swst_scheme) res" where
  "lru_kalloc s =
     kbind (kmem_acquire s) (\<lambda>_ s.
       let r = freelist s
       in if r = 0
          then kbind (reclaim s) (\<lambda>c s. if c \<noteq> 0 then lru_kalloc s else kbind (kmem_release s) (\<lambda>_ s. Ret 0 s))
          else kbind (kmem_release (s\<lparr>freelist := load32 (mem s) r\<rparr>)) (\<lambda>_ s. Ret r s))"
  by pat_completeness auto
termination
proof (relation "{}")
  fix s t u :: "'a swst_scheme" and c
  assume "reclaim t = Ret c u" "c \<noteq> 0"
  then show "(u, s) \<in> {}" using reclaim_0 [of t] by simp
qed simp

declare lru_kalloc.simps [simp del]

section \<open>The ring as a list\<close>

text \<open>Consecutive pages point at each other; the ring is closed by repeating its first page at the end.\<close>

fun chain :: "(nat \<Rightarrow> page) \<Rightarrow> nat list \<Rightarrow> bool" where
  "chain pg (a # b # r) = (pg_next (pg a) = Some b \<and> pg_prev (pg b) = Some a \<and> chain pg (b # r))"
| "chain pg _ = True"

definition ring :: "'a swst_scheme \<Rightarrow> nat list \<Rightarrow> bool" where
  "ring s xs \<longleftrightarrow> distinct xs \<and> set xs \<subseteq> {..<NPAGES} \<and>
     (case xs of [] \<Rightarrow> page_lru_head s = None | x # _ \<Rightarrow> page_lru_head s = Some x \<and> chain (pages s) (xs @ [x]))"

lemma chain_append: "chain pg (xs @ a # ys) \<longleftrightarrow> chain pg (xs @ [a]) \<and> chain pg (a # ys)"
proof (induction xs)
  case (Cons b xs)
  then show ?case by (cases xs) simp_all
qed simp

lemma chain_Cons: "chain pg (a # xs) \<longleftrightarrow> (xs \<noteq> [] \<longrightarrow> pg_next (pg a) = Some (hd xs) \<and> pg_prev (pg (hd xs)) = Some a) \<and> chain pg xs"
  by (cases xs) auto

lemma chain_snoc:
  "xs \<noteq> [] \<Longrightarrow> chain pg (xs @ [a]) \<longleftrightarrow> chain pg xs \<and> pg_next (pg (last xs)) = Some a \<and> pg_prev (pg a) = Some (last xs)"
  using chain_append [of pg "butlast xs" "last xs" "[a]"] append_butlast_last_id [of xs]
  by (metis append.assoc append_Cons append_Nil chain.simps(1) chain.simps(3))

lemma chain_cong:
  assumes "\<And>i. i \<in> set (butlast xs) \<Longrightarrow> pg_next (p i) = pg_next (q i)" "\<And>i. i \<in> set (tl xs) \<Longrightarrow> pg_prev (p i) = pg_prev (q i)"
  shows "chain p xs = chain q xs"
  using assms
proof (induction p xs rule: chain.induct)
  case (1 p a b r)
  have "chain p (b # r) = chain q (b # r)"
    by (rule "1.IH") (use 1(2,3) in \<open>auto split: if_splits\<close>)
  then show ?case using 1(2) [of a] 1(3) [of b] by simp
qed simp_all

lemma ring_ConsD:
  assumes "ring s (h # ys)"
  shows "page_lru_head s = Some h" "h < NPAGES" "h \<notin> set ys" "chain (pages s) (h # ys)"
    "pg_next (pages s (last (h # ys))) = Some h" "pg_prev (pages s h) = Some (last (h # ys))"
  using assms chain_snoc [of "h # ys" "pages s" h] by (auto simp: ring_def)

lemma ring_ConsI:
  assumes "distinct (h # ys)" "set (h # ys) \<subseteq> {..<NPAGES}" "page_lru_head s = Some h" "chain (pages s) (h # ys)"
    "pg_next (pages s (last (h # ys))) = Some h" "pg_prev (pages s h) = Some (last (h # ys))"
  shows "ring s (h # ys)"
  using assms chain_snoc [of "h # ys" "pages s" h] by (auto simp: ring_def)

lemma updg_simps [simp]:
  "page_lru_head (updg i f s) = page_lru_head s" "num_lru_pages (updg i f s) = num_lru_pages s" "pages (updg i f s) = (pages s)(i := f (pages s i))"
  "mem (updg i f s) = mem s"
  by (simp_all add: updg_def)

lemma append_ring:
  assumes r: "ring s (h # ys)" and n: "n < NPAGES" "n \<notin> set (h # ys)" and l: "l = last (h # ys)"
    and p: "pages t = (\<lambda>i. if i = n then x\<lparr>pg_next := Some h, pg_prev := Some l\<rparr>
        else if i = l \<and> i = h then (pages s i)\<lparr>pg_next := Some n, pg_prev := Some n\<rparr>
        else if i = l then (pages s i)\<lparr>pg_next := Some n\<rparr> else if i = h then (pages s i)\<lparr>pg_prev := Some n\<rparr> else pages s i)"
    and h: "page_lru_head t = page_lru_head s"
  shows "ring t ((h # ys) @ [n])"
proof -
  note d = ring_ConsD [OF r]
  have dist: "distinct (h # ys)" "set (h # ys) \<subseteq> {..<NPAGES}" using r by (auto simp: ring_def)
  have "l \<notin> set (butlast (h # ys))" using dist(1) unfolding l by (metis append_butlast_last_id distinct_append disjoint_iff list.distinct(1) list.set_intros(1))
  moreover have "n \<notin> set (butlast (h # ys))" using n(2) in_set_butlastD by fast
  ultimately have "chain (pages t) (h # ys) = chain (pages s) (h # ys)"
    using n(2) d(3) by (intro chain_cong) (auto simp: p)
  then have "chain (pages t) ((h # ys) @ [n])"
    using d(4) n(2) l by (subst chain_snoc) (auto simp: p)
  then show ?thesis using dist n d(1) h unfolding append_Cons
    by (intro ring_ConsI) (auto simp: p)
qed

lemma ring_neighbours:
  assumes "ring s (h # as @ n # bs)"
  shows "pg_prev (pages s n) = Some (last (h # as))" "pg_next (pages s n) = Some (hd (bs @ [h]))" "last (h # as) \<noteq> n" "hd (bs @ [h]) \<noteq> n"
proof -
  have d: "distinct (h # as @ n # bs)" and c: "chain (pages s) ((h # as) @ n # (bs @ [h]))"
    using assms by (auto simp: ring_def)
  have c1: "chain (pages s) ((h # as) @ [n])" "chain (pages s) (n # (bs @ [h]))" using c chain_append by blast+
  show "pg_prev (pages s n) = Some (last (h # as))" using c1(1) chain_snoc [of "h # as" "pages s" n] by simp
  show "pg_next (pages s n) = Some (hd (bs @ [h]))" using c1(2) unfolding chain_Cons [of _ n] by simp
  have "last (h # as) \<in> set (h # as)" "hd (bs @ [h]) \<in> set (bs @ [h])" by (rule last_in_set hd_in_set; simp)+
  then show "last (h # as) \<noteq> n" "hd (bs @ [h]) \<noteq> n" using d by auto
qed

lemma pop_ring:
  assumes r: "ring s (h # as @ n # bs)" and q: "q = last (h # as)" and m: "m = hd (bs @ [h])"
    and p: "pages t = (\<lambda>i. if i = n then z
        else if i = q \<and> i = m then (pages s i)\<lparr>pg_next := Some m, pg_prev := Some q\<rparr>
        else if i = q then (pages s i)\<lparr>pg_next := Some m\<rparr> else if i = m then (pages s i)\<lparr>pg_prev := Some q\<rparr> else pages s i)"
    and h: "page_lru_head t = page_lru_head s"
  shows "ring t (h # as @ bs)"
proof -
  have dist: "distinct (h # as @ n # bs)" "set (h # as @ n # bs) \<subseteq> {..<NPAGES}" and hd: "page_lru_head s = Some h"
    and c: "chain (pages s) ((h # as) @ n # (bs @ [h]))"
    using r by (auto simp: ring_def)
  have c1: "chain (pages s) ((h # as) @ [n])" "chain (pages s) (n # (bs @ [h]))" using c chain_append by blast+
  have pn: "pg_prev (pages s n) = Some q" "pg_next (pages s n) = Some m" and qn: "q \<noteq> n" and mn: "m \<noteq> n"
    using ring_neighbours [OF r] unfolding q m by blast+
  have qa: "q \<in> set (h # as)" unfolding q by (rule last_in_set) simp
  have ma: "m \<in> set (bs @ [h])" unfolding m by (rule hd_in_set) simp
  have qb: "q \<notin> set (butlast (h # as))"
    using dist(1) unfolding q by (metis append_butlast_last_id distinct_append disjoint_iff list.distinct(1) list.set_intros(1) append_Cons)
  have nb: "n \<notin> set (butlast (h # as))" "n \<notin> set (tl (bs @ [h]))"
    using dist(1) in_set_butlastD [of n "h # as"] by (cases bs; force)+
  have mt: "m \<notin> set (tl (bs @ [h]))" using dist(1) unfolding m by (cases bs) auto
  have "chain (pages t) (h # as) = chain (pages s) (h # as)"
    using qb nb dist(1) ma by (intro chain_cong) (auto simp: p)
  moreover have "chain (pages t) (bs @ [h]) = chain (pages s) (bs @ [h])"
    using mt nb dist(1) qa by (intro chain_cong) (auto simp: p)
  moreover have "chain (pages s) (h # as)" "chain (pages s) (bs @ [h])"
    using c1 chain_snoc [of "h # as" "pages s" n] by (auto simp: chain_Cons [of _ n])
  ultimately have t: "chain (pages t) (h # as)" "chain (pages t) (bs @ [h])" by simp_all
  have "chain (pages t) (q # bs @ [h])" using t(2) qn mn by (auto simp: chain_Cons [of _ q] p simp flip: m)
  then have "chain (pages t) ((h # as) @ bs @ [h])"
    using t(1) chain_append [of "pages t" "butlast (h # as)" q "bs @ [h]"] unfolding q
    by (metis append.assoc append_Cons append_Nil append_butlast_last_id list.distinct(1))
  then show ?thesis using dist hd h by (auto simp: ring_def)
qed

text \<open>
  C22. The list of pages that \<^verbatim>\<open>append_lru\<close> and \<^verbatim>\<open>pop_lru\<close> keep (\<open>ring s xs\<close>: the doubly linked ring holds the pages \<open>xs\<close>, the head first). Appending puts
  a page that is not in the ring at its end, with its address and page directory, except in two cases: when the counter is 1
  the ring is replaced by the new page alone, and on an empty ring (as after boot, with counter 0) the null head is dereferenced. Taking a page out removes it, except
  that taking out the head leaves an empty list. The counter goes up and down by 1 in each call.
\<close>

theorem lru_list_ops:
  assumes r: "ring s xs" and n: "n = unat (pa div PGSIZE)" "n < NPAGES" and free: "LLru \<notin> set (held s)"
  shows
    "(n \<notin> set xs \<longrightarrow>
       (if num_lru_pages s = 1 then \<exists>t. append_lru pgdir va pa s = Ret () t \<and> ring t [n] \<and> num_lru_pages t = 2 \<and> held t = held s
        else if xs = [] then append_lru pgdir va pa s = Fault ''append_lru: null head''
        else \<exists>t. append_lru pgdir va pa s = Ret () t \<and> ring t (xs @ [n]) \<and> num_lru_pages t = num_lru_pages s + 1 \<and> held t = held s \<and>
               pg_vaddr (pages t n) = va \<and> pg_pgdir (pages t n) = pgdir)) \<and>
    (n \<in> set xs \<longrightarrow>
       (\<exists>t. pop_lru pa s = Ret () t \<and> ring t (if n = hd xs then [] else remove1 n xs) \<and> num_lru_pages t = num_lru_pages s - 1 \<and> held t = held s))"
proof (intro conjI impI)
  have pa: "unat (pa div PGSIZE) = n" "\<not> NPAGES \<le> n" using n by simp_all
  assume nx: "n \<notin> set xs"
  show "if num_lru_pages s = 1 then \<exists>t. append_lru pgdir va pa s = Ret () t \<and> ring t [n] \<and> num_lru_pages t = 2 \<and> held t = held s
        else if xs = [] then append_lru pgdir va pa s = Fault ''append_lru: null head''
        else \<exists>t. append_lru pgdir va pa s = Ret () t \<and> ring t (xs @ [n]) \<and> num_lru_pages t = num_lru_pages s + 1 \<and> held t = held s \<and>
               pg_vaddr (pages t n) = va \<and> pg_pgdir (pages t n) = pgdir"
  proof (cases "num_lru_pages s = 1")
    case True
    then show ?thesis using free n(2) by (simp add: append_lru_def pa Let_def ring_def)
  next
    case False
    show ?thesis
    proof (cases xs)
      case Nil
      then show ?thesis using False free r by (simp add: append_lru_def pa Let_def ring_def)
    next
      case (Cons h ys)
      note d = ring_ConsD [OF r [unfolded Cons]]
      define l where "l = last (h # ys)"
      have "l \<in> set xs" unfolding l_def Cons by (rule last_in_set) simp
      then have ln: "l \<noteq> n" "h \<noteq> n" using nx Cons by auto
      have e: "\<exists>t. append_lru pgdir va pa s = Ret () t \<and> num_lru_pages t = num_lru_pages s + 1 \<and> held t = held s \<and> page_lru_head t = page_lru_head s \<and>
          pages t = (\<lambda>i. if i = n then ((pages s n)\<lparr>pg_vaddr := va, pg_pgdir := pgdir\<rparr>)\<lparr>pg_next := Some h, pg_prev := Some l\<rparr>
            else if i = l \<and> i = h then (pages s i)\<lparr>pg_next := Some n, pg_prev := Some n\<rparr>
            else if i = l then (pages s i)\<lparr>pg_next := Some n\<rparr> else if i = h then (pages s i)\<lparr>pg_prev := Some n\<rparr> else pages s i)"
        using False free d(1) d(6) [folded l_def] ln
        by (simp add: append_lru_def pa Let_def) (auto simp: fun_eq_iff)
      then obtain t where t: "append_lru pgdir va pa s = Ret () t" "num_lru_pages t = num_lru_pages s + 1" "held t = held s" "page_lru_head t = page_lru_head s"
        and pt: "pages t = (\<lambda>i. if i = n then ((pages s n)\<lparr>pg_vaddr := va, pg_pgdir := pgdir\<rparr>)\<lparr>pg_next := Some h, pg_prev := Some l\<rparr>
            else if i = l \<and> i = h then (pages s i)\<lparr>pg_next := Some n, pg_prev := Some n\<rparr>
            else if i = l then (pages s i)\<lparr>pg_next := Some n\<rparr> else if i = h then (pages s i)\<lparr>pg_prev := Some n\<rparr> else pages s i)"
        by blast
      have "ring t ((h # ys) @ [n])" using append_ring [OF r [unfolded Cons] n(2) _ l_def pt t(4)] nx Cons by simp
      then show ?thesis using False Cons t by (simp add: pt)
    qed
  qed
next
  assume nx: "n \<in> set xs"
  then obtain h ys where xs: "xs = h # ys" by (cases xs) auto
  note d = ring_ConsD [OF r [unfolded xs]]
  have pa: "unat (pa div PGSIZE) = n" "\<not> NPAGES \<le> n" using n by simp_all
  show "\<exists>t. pop_lru pa s = Ret () t \<and> ring t (if n = hd xs then [] else remove1 n xs) \<and> num_lru_pages t = num_lru_pages s - 1 \<and> held t = held s"
  proof (cases "n = h")
    case True
    then show ?thesis using free d(1) xs by (simp add: pop_lru_def pa Let_def ring_def)
  next
    case False
    then obtain as bs where ys: "ys = as @ n # bs" "n \<notin> set as" using nx xs split_list_first [of n ys] by auto
    define q where "q = last (h # as)"
    define m where "m = hd (bs @ [h])"
    define z where "z = (pages s n)\<lparr>pg_next := None, pg_prev := None, pg_vaddr := 0, pg_pgdir := 0\<rparr>"
    note P = pop_ring [OF r [unfolded xs ys(1)] q_def m_def]
    have nbr: "pg_prev (pages s n) = Some q" "pg_next (pages s n) = Some m" "q \<noteq> n" "m \<noteq> n"
      using ring_neighbours [OF r [unfolded xs ys(1)]] unfolding q_def m_def by blast+
    have "\<exists>t. pop_lru pa s = Ret () t \<and> num_lru_pages t = num_lru_pages s - 1 \<and> held t = held s \<and> page_lru_head t = page_lru_head s \<and>
        pages t = (\<lambda>i. if i = n then z else if i = q \<and> i = m then (pages s i)\<lparr>pg_next := Some m, pg_prev := Some q\<rparr>
          else if i = q then (pages s i)\<lparr>pg_next := Some m\<rparr> else if i = m then (pages s i)\<lparr>pg_prev := Some q\<rparr> else pages s i)"
      using free d(1) False nbr by (simp add: pop_lru_def pa Let_def z_def) (auto simp: fun_eq_iff z_def)
    then obtain t where t: "pop_lru pa s = Ret () t" "num_lru_pages t = num_lru_pages s - 1" "held t = held s" "page_lru_head t = page_lru_head s"
      "ring t (h # as @ bs)" using P by blast
    then show ?thesis using False xs ys by (auto simp: remove1_append)
  qed
qed

section \<open>The clock\<close>

text \<open>The page table entry of a page in the ring, and the directory entry that leads to it.\<close>

definition lru_pde :: "'a swst_scheme \<Rightarrow> nat \<Rightarrow> u32" where
  "lru_pde s i = pg_pgdir (pages s i) + 4 * PDX (PGROUNDDOWN (pg_vaddr (pages s i)))"

definition lru_pte :: "'a swst_scheme \<Rightarrow> nat \<Rightarrow> u32" where
  "lru_pte s i = P2V (PTE_ADDR (load32 (mem s) (lru_pde s i))) + 4 * PTX (PGROUNDDOWN (pg_vaddr (pages s i)))"

definition accessed :: "'a swst_scheme \<Rightarrow> nat \<Rightarrow> bool" where
  "accessed s i \<longleftrightarrow> load32 (mem s) (lru_pte s i) AND PTE_A \<noteq> 0"

definition clear_acc :: "mem \<Rightarrow> u32 \<Rightarrow> mem" where
  "clear_acc m p = store32 m p (load32 m p AND NOT PTE_A)"

text \<open>The entries of the pages in the ring exist and are different words, none of them a directory entry.\<close>

definition lru_mapped :: "'a swst_scheme \<Rightarrow> nat list \<Rightarrow> bool" where
  "lru_mapped s xs \<longleftrightarrow> inj_on (lru_pte s) (set xs) \<and>
     (\<forall>i\<in>set xs. aligned4 (lru_pte s i) \<and> lru_pte s i \<noteq> 0 \<and> aligned4 (lru_pde s i) \<and> present (load32 (mem s) (lru_pde s i)) \<and>
        (\<forall>j\<in>set xs. lru_pde s i \<noteq> lru_pte s j))"

lemma walk_lru:
  assumes "lru_mapped s xs" "i \<in> set xs"
  shows "walkpgdir (pg_pgdir (pages s i)) (PGROUNDDOWN (pg_vaddr (pages s i))) False s = Ret (lru_pte s i) s"
  using assms by (auto simp: lru_mapped_def walkpgdir_def lru_pte_def lru_pde_def present_def Let_def)

text \<open>One step of the hand over an accessed page.\<close>

definition advance :: "nat \<Rightarrow> 'a swst_scheme \<Rightarrow> 'a swst_scheme" where
  "advance a s = s\<lparr>mem := clear_acc (mem s) (lru_pte s a), page_lru_head := pg_next (pages s a)\<rparr>"

lemma advance_simps [simp]: "pages (advance a s) = pages s" "mem (advance a s) = clear_acc (mem s) (lru_pte s a)" "lru_pde (advance a s) = lru_pde s"
  by (simp_all add: advance_def lru_pde_def fun_eq_iff)

lemma lru_pte_advance:
  assumes "lru_mapped s xs" "a \<in> set xs" "i \<in> set xs"
  shows "lru_pte (advance a s) i = lru_pte s i" "load32 (mem (advance a s)) (lru_pde s i) = load32 (mem s) (lru_pde s i)"
proof -
  have "aligned4 (lru_pte s a)" "aligned4 (lru_pde s i)" "lru_pde s i \<noteq> lru_pte s a" using assms by (auto simp: lru_mapped_def)
  then show *: "load32 (mem (advance a s)) (lru_pde s i) = load32 (mem s) (lru_pde s i)"
    by (simp add: clear_acc_def load_store_other)
  then show "lru_pte (advance a s) i = lru_pte s i" unfolding lru_pte_def by simp
qed

lemma accessed_advance:
  assumes "lru_mapped s xs" "a \<in> set xs" "i \<in> set xs"
  shows "accessed (advance a s) i \<longleftrightarrow> accessed s i \<and> i \<noteq> a"
proof (cases "i = a")
  case True
  then show ?thesis unfolding accessed_def lru_pte_advance(1) [OF assms]
    using bit_accessed_and(2) [of "load32 (mem s) (lru_pte s a)" 5] by (simp add: clear_acc_def accessed_iff)
next
  case False
  then have "lru_pte s i \<noteq> lru_pte s a" "aligned4 (lru_pte s i)" "aligned4 (lru_pte s a)"
    using assms by (auto simp: lru_mapped_def dest: inj_onD)
  then show ?thesis using False unfolding accessed_def lru_pte_advance(1) [OF assms]
    by (simp add: clear_acc_def load_store_other)
qed

lemma ring_rotate:
  assumes "ring s (a # zs)"
  shows "ring (advance a s) (zs @ [a])"
proof (cases zs)
  case Nil
  then show ?thesis using assms by (auto simp: ring_def advance_def)
next
  case (Cons b r)
  have c: "chain (pages s) (a # b # (r @ [a]))" using assms Cons by (auto simp: ring_def)
  then have "chain (pages s) ((b # r) @ a # [b])" by (subst chain_append) simp
  then show ?thesis using assms Cons c by (auto simp: ring_def advance_def)
qed

lemma mapped_rotate: 
  assumes "lru_mapped s (a # zs)"
  shows "lru_mapped (advance a s) (zs @ [a])"
  unfolding lru_mapped_def
proof (intro conjI ballI)
  have e: "lru_pte (advance a s) i = lru_pte s i" "load32 (mem (advance a s)) (lru_pde s i) = load32 (mem s) (lru_pde s i)" if "i \<in> set (zs @ [a])" for i
    using lru_pte_advance [OF assms, of a i] that by auto
  show "inj_on (lru_pte (advance a s)) (set (zs @ [a]))"
    using assms e(1) by (auto simp: lru_mapped_def inj_on_def)
  fix i assume i: "i \<in> set (zs @ [a])"
  then have "aligned4 (lru_pte s i) \<and> lru_pte s i \<noteq> 0 \<and> aligned4 (lru_pde s i) \<and> present (load32 (mem s) (lru_pde s i))"
    using assms by (auto simp: lru_mapped_def)
  then show "aligned4 (lru_pte (advance a s) i)" "lru_pte (advance a s) i \<noteq> 0" "aligned4 (lru_pde (advance a s) i)"
    "present (load32 (mem (advance a s)) (lru_pde (advance a s) i))" using e [OF i] by simp_all
  fix j assume "j \<in> set (zs @ [a])"
  moreover from this have "lru_pde s i \<noteq> lru_pte s j" using assms i by (auto simp: lru_mapped_def)
  ultimately show "lru_pde (advance a s) i \<noteq> lru_pte (advance a s) j" using e(1) by simp
qed

lemma reclaim_loop_advance:
  assumes "ring s (a # zs)" "lru_mapped s (a # zs)"
  shows "reclaim_loop s = (if accessed s a then reclaim_loop (advance a s) else swap_out a (lru_pte s a) s)"
proof -
  have "page_lru_head s = Some a" using assms(1) by (simp add: ring_def)
  moreover have "lru_pte s a \<noteq> 0" using assms(2) by (simp add: lru_mapped_def)
  ultimately show ?thesis using walk_lru [OF assms(2), of a]
    by (subst reclaim_loop.simps) (simp add: accessed_def advance_def clear_acc_def)
qed

lemma clear_list:
  assumes "lru_mapped s (a # zs)" "set ys \<subseteq> set zs"
  shows "fold (\<lambda>p m. clear_acc m p) (map (lru_pte (advance a s)) ys) m = fold (\<lambda>p m. clear_acc m p) (map (lru_pte s) ys) m"
proof -
  have "map (lru_pte (advance a s)) ys = map (lru_pte s) ys"
    using lru_pte_advance(1) [OF assms(1), of a] assms(2) by auto
  then show ?thesis by (simp only:)
qed

lemma while_snoc: "\<not> P a \<Longrightarrow> takeWhile P (zs @ [a]) = takeWhile P zs \<and> dropWhile P (zs @ [a]) = dropWhile P zs @ [a]"
  by (induction zs) auto

lemma reclaim_victim:
  assumes "ring s xs" "lru_mapped s xs" "xs \<noteq> []" "v = hd (dropWhile (accessed s) xs @ xs)"
  shows "reclaim_loop s = swap_out v (lru_pte s v)
     (s\<lparr>mem := fold (\<lambda>p m. clear_acc m p) (map (lru_pte s) (takeWhile (accessed s) xs)) (mem s), page_lru_head := Some v\<rparr>)"
  using assms
proof (induction "length (takeWhile (accessed s) xs)" arbitrary: s xs)
  case 0
  then obtain a zs where xs: "xs = a # zs" by (cases xs) auto
  then have "\<not> accessed s a" using 0(1) by (auto split: if_splits)
  moreover from this have "v = a" using 0 xs by simp
  moreover have "page_lru_head s = Some a" using 0(2) xs by (simp add: ring_def)
  then have "s\<lparr>mem := mem s, page_lru_head := Some a\<rparr> = s" by simp
  moreover have "takeWhile (accessed s) xs = []" using 0(1) by simp
  moreover have "reclaim_loop s = (if accessed s a then reclaim_loop (advance a s) else swap_out a (lru_pte s a) s)"
    using reclaim_loop_advance [of s a zs] 0(2,3) xs by simp
  ultimately show ?case by simp
next
  case (Suc k)
  then obtain a zs where xs: "xs = a # zs" by (cases xs) auto
  have acc: "accessed s a" using Suc(2) xs by (auto split: if_splits)
  let ?t = "advance a s"
  note m = Suc.prems(2) [unfolded xs] and r = Suc.prems(1) [unfolded xs]
  have na: "a \<notin> set zs" using r by (simp add: ring_def)
  have ac: "accessed ?t i \<longleftrightarrow> accessed s i \<and> i \<noteq> a" if "i \<in> set (a # zs)" for i
    using accessed_advance [OF m _ that, of a] by simp
  have tw: "takeWhile (accessed ?t) (zs @ [a]) = takeWhile (accessed s) zs"
    "dropWhile (accessed ?t) (zs @ [a]) = dropWhile (accessed s) zs @ [a]"
  proof -
    have "takeWhile (accessed ?t) zs = takeWhile (accessed s) zs" "dropWhile (accessed ?t) zs = dropWhile (accessed s) zs"
      using ac na by (auto intro!: takeWhile_cong dropWhile_cong)
    moreover have "\<not> accessed ?t a" using ac by simp
    ultimately show "takeWhile (accessed ?t) (zs @ [a]) = takeWhile (accessed s) zs"
      "dropWhile (accessed ?t) (zs @ [a]) = dropWhile (accessed s) zs @ [a]"
      using while_snoc [of "accessed ?t" a zs] by simp_all
  qed
  have v: "v = hd (dropWhile (accessed s) zs @ [a])" using Suc.prems(4) acc xs by (simp add: hd_append)
  then have vs: "v \<in> set (a # zs)"
    using set_dropWhileD [of v "accessed s" zs] by (cases "dropWhile (accessed s) zs") auto
  have "reclaim_loop ?t = swap_out v (lru_pte ?t v)
     (?t\<lparr>mem := fold (\<lambda>p m. clear_acc m p) (map (lru_pte ?t) (takeWhile (accessed ?t) (zs @ [a]))) (mem ?t), page_lru_head := Some v\<rparr>)"
    using Suc(2) acc xs tw v
    by (intro Suc(1) ring_rotate r mapped_rotate m) (auto simp: hd_append)
  also have "\<dots> = swap_out v (lru_pte s v)
     (s\<lparr>mem := fold (\<lambda>p m. clear_acc m p) (map (lru_pte s) (takeWhile (accessed s) xs)) (mem s), page_lru_head := Some v\<rparr>)"
  proof -
    have "set (takeWhile (accessed s) zs) \<subseteq> set zs" using set_takeWhileD by fastforce
    note c = clear_list [OF m this]
    have "lru_pte ?t v = lru_pte s v" using lru_pte_advance(1) [OF m _ vs, of a] by simp
    then show ?thesis unfolding tw(1) c using acc xs by (simp add: advance_def)
  qed
  finally show ?case using reclaim_loop_advance [OF r m] acc by simp
qed

text \<open>
  C12. The clock algorithm. On a ring of pages \<open>xs\<close> whose entries exist, the loop of \<^verbatim>\<open>reclaim\<close> ends within one round: the victim is the first page whose accessed
  bit is clear, or the head of the ring when every bit is set. The pages passed on the way, and only those, lose their accessed
  bit, and the head is left at the victim, which is then swapped out.
\<close>

theorem reclaim_clock:
  assumes "ring s xs" "lru_mapped s xs" "xs \<noteq> []" "v = hd (dropWhile (accessed s) xs @ xs)"
  shows "\<exists>t. reclaim_loop s = swap_out v (lru_pte s v) t \<and> page_lru_head t = Some v \<and> t = s\<lparr>mem := mem t, page_lru_head := Some v\<rparr> \<and>
    (\<forall>i\<in>set xs. load32 (mem t) (lru_pte s i) =
       (if i \<in> set (takeWhile (accessed s) xs) then load32 (mem s) (lru_pte s i) AND NOT PTE_A else load32 (mem s) (lru_pte s i)))"
proof -
  let ?ys = "takeWhile (accessed s) xs"
  let ?m = "fold (\<lambda>p m. clear_acc m p) (map (lru_pte s) ?ys) (mem s)"
  have d: "distinct xs" using assms(1) by (simp add: ring_def)
  have "load32 (fold (\<lambda>p m. clear_acc m p) (map (lru_pte s) ys) m) (lru_pte s i) =
      (if i \<in> set ys then load32 m (lru_pte s i) AND NOT PTE_A else load32 m (lru_pte s i))"
    if "i \<in> set xs" "set ys \<subseteq> set xs" "distinct ys" for i ys m
    using that(2,3)
  proof (induction ys arbitrary: m)
    case (Cons y ys)
    have "load32 (clear_acc m (lru_pte s y)) (lru_pte s i) = (if i = y then load32 m (lru_pte s i) AND NOT PTE_A else load32 m (lru_pte s i))"
    proof (cases "i = y")
      case False
      then have "lru_pte s y \<noteq> lru_pte s i" "aligned4 (lru_pte s y)" "aligned4 (lru_pte s i)"
        using assms(2) that(1) Cons.prems(1) by (auto simp: lru_mapped_def dest: inj_onD)
      then show ?thesis using False by (simp add: clear_acc_def load_store_other)
    qed (simp add: clear_acc_def)
    then show ?case using Cons by auto
  qed simp
  then have "load32 ?m (lru_pte s i) = (if i \<in> set ?ys then load32 (mem s) (lru_pte s i) AND NOT PTE_A else load32 (mem s) (lru_pte s i))"
    if "i \<in> set xs" for i
    using that d set_takeWhileD by (metis distinct_takeWhile subsetI)
  then show ?thesis using reclaim_victim [OF assms]
    by (intro exI [of _ "s\<lparr>mem := ?m, page_lru_head := Some v\<rparr>"]) simp
qed

section \<open>What the allocator promises\<close>


text \<open>
  The bitmap of the swap space: \<^verbatim>\<open>set_bit\<close> and \<^verbatim>\<open>clear_bit\<close> change the bit of their slot and no other, \<^verbatim>\<open>check_bit\<close> reads it, and
  \<^verbatim>\<open>find_free_swap_index\<close> finds the least free slot below 4096, the first eighth of the slots that the bitmap has room for.
\<close>

lemma swap_bitmap:
  assumes "length (bitmap s) = BITMAP_SIZE" "k < 8 * BITMAP_SIZE"
  shows "(\<exists>t. set_bit_swap k s = Ret () t \<and> length (bitmap t) = BITMAP_SIZE \<and> (\<forall>j<8 * BITMAP_SIZE. check_bit_swap j t \<noteq> 0 \<longleftrightarrow> j = k \<or> check_bit_swap j s \<noteq> 0)) \<and>
    (\<exists>t. clear_bit_swap k s = Ret () t \<and> length (bitmap t) = BITMAP_SIZE \<and> (\<forall>j<8 * BITMAP_SIZE. check_bit_swap j t \<noteq> 0 \<longleftrightarrow> j \<noteq> k \<and> check_bit_swap j s \<noteq> 0)) \<and>
    (case find_free_swap_index s of
       Some i \<Rightarrow> i < 4096 \<and> check_bit_swap i s = 0 \<and> (\<forall>j<i. check_bit_swap j s \<noteq> 0)
     | None \<Rightarrow> \<forall>j<4096. check_bit_swap j s \<noteq> 0)"
proof -
  have c: "check_bit_swap j s \<noteq> 0 \<longleftrightarrow> bit (bitmap s ! (j div 8)) (j mod 8)" for j and s :: "'b swst_scheme"
    unfolding check_bit_swap_def by (simp add: and_exp_eq_0_iff_not_bit push_bit_eq_mult)
  have j8: "j div 8 < BITMAP_SIZE" if "j < 8 * BITMAP_SIZE" for j using that by simp
  have eq: "k div 8 = j div 8 \<Longrightarrow> j mod 8 = k mod 8 \<Longrightarrow> j = k" for j by (metis div_mult_mod_eq)
  have b: "bit (x OR 2 ^ (k mod 8)) n \<longleftrightarrow> bit x n \<or> n = k mod 8" "bit (x AND NOT (2 ^ (k mod 8))) n \<longleftrightarrow> bit x n \<and> n \<noteq> k mod 8"
    if "n < 8" for x :: u8 and n
    using that by (auto simp: bit_simps)
  have m: "j mod 8 < 8" for j :: nat by simp
  have s1: "\<exists>t. set_bit_swap k s = Ret () t \<and> length (bitmap t) = BITMAP_SIZE \<and> (\<forall>j<8 * BITMAP_SIZE. check_bit_swap j t \<noteq> 0 \<longleftrightarrow> j = k \<or> check_bit_swap j s \<noteq> 0)"
    using assms j8 by (auto simp: set_bit_swap_def c nth_list_update b(1) [OF m] intro: eq)
  have s2: "\<exists>t. clear_bit_swap k s = Ret () t \<and> length (bitmap t) = BITMAP_SIZE \<and> (\<forall>j<8 * BITMAP_SIZE. check_bit_swap j t \<noteq> 0 \<longleftrightarrow> j \<noteq> k \<and> check_bit_swap j s \<noteq> 0)"
    using assms j8 by (auto simp: clear_bit_swap_def c nth_list_update b(2) [OF m] dest: eq)
  have "case find_free_swap_index s of
       Some i \<Rightarrow> i < 4096 \<and> check_bit_swap i s = 0 \<and> (\<forall>j<i. check_bit_swap j s \<noteq> 0)
     | None \<Rightarrow> \<forall>j<4096. check_bit_swap j s \<noteq> 0"
    unfolding find_free_swap_index_def by (auto simp: find_Some_iff find_None_iff split: option.splits)
  with s1 s2 show ?thesis by blast
qed

section \<open>An example\<close>

text \<open>Three pages of one process in the ring, 5, 6 and 7; the accessed bits of 5 and 7 are set.\<close>

definition swap_mem_ex :: mem where
  "swap_mem_ex = store32 (store32 (store32 (store32 (\<lambda>_. 0) 0x80400000 0x401007) 0x80401004 0x500027) 0x80401008 0x501007) 0x8040100C 0x502027"

definition lru_page_ex :: "nat \<Rightarrow> nat \<Rightarrow> u32 \<Rightarrow> page" where
  "lru_page_ex n p va = \<lparr>pg_next = Some n, pg_prev = Some p, pg_pgdir = 0x80400000, pg_vaddr = va\<rparr>"

definition pages_ex :: "nat \<Rightarrow> page" where
  "pages_ex = (\<lambda>i. if i = 5 then lru_page_ex 6 7 0x1000 else if i = 6 then lru_page_ex 7 5 0x2000 else if i = 7 then lru_page_ex 5 6 0x3000
     else \<lparr>pg_next = None, pg_prev = None, pg_pgdir = 0, pg_vaddr = 0\<rparr>)"

definition swst_ex :: swst where
  "swst_ex = idest.extend (idest_ex\<lparr>mem := swap_mem_ex, fssize := 100000\<rparr>) (swst.fields pages_ex (Some 5) 3 (replicate 4096 0) 0 0)"

lemma swst_ex_simps [simp]:
  "pages swst_ex = pages_ex" "page_lru_head swst_ex = Some 5" "num_lru_pages swst_ex = 3" "bitmap swst_ex = replicate 4096 0"
  "held swst_ex = []" "mem swst_ex = swap_mem_ex" "fssize swst_ex = 100000"
  by (simp_all add: swst_ex_def swst.defs idest.defs idest_ex_def slst.defs slst_ex_def ptab.defs ptab_ex_def)

lemma ring_ex: "ring swst_ex [5, 6, 7]"
  by (simp add: ring_def pages_ex_def lru_page_ex_def)

lemma swap_mem_ex_load [simp]:
  "load32 swap_mem_ex 0x80400000 = 0x401007" "load32 swap_mem_ex 0x80401004 = 0x500027" "load32 swap_mem_ex 0x80401008 = 0x501007"
  "load32 swap_mem_ex 0x8040100C = 0x502027"
  by (simp_all add: swap_mem_ex_def load_store_other aligned4_def)

lemma lru_ex: "lru_pde swst_ex 5 = 0x80400000" "lru_pde swst_ex 6 = 0x80400000" "lru_pde swst_ex 7 = 0x80400000"
  "lru_pte swst_ex 5 = 0x80401004" "lru_pte swst_ex 6 = 0x80401008" "lru_pte swst_ex 7 = 0x8040100C"
  "accessed swst_ex 5" "\<not> accessed swst_ex 6" "accessed swst_ex 7"
proof -
  show d: "lru_pde swst_ex 5 = 0x80400000" "lru_pde swst_ex 6 = 0x80400000" "lru_pde swst_ex 7 = 0x80400000"
    by (simp_all add: lru_pde_def pages_ex_def lru_page_ex_def PGROUNDDOWN_def PDX_def drop_bit_eq_div)
  show e: "lru_pte swst_ex 5 = 0x80401004" "lru_pte swst_ex 6 = 0x80401008" "lru_pte swst_ex 7 = 0x8040100C"
    unfolding lru_pte_def d by (simp_all add: pages_ex_def lru_page_ex_def PGROUNDDOWN_def PTX_def P2V_def PTE_ADDR_def drop_bit_eq_div)
  show "accessed swst_ex 5" "\<not> accessed swst_ex 6" "accessed swst_ex 7"
    unfolding accessed_def e by simp_all
qed

theorem lru_list_ops_witness:
  "\<exists>t. append_lru 0x80400000 0x4000 0x8000 swst_ex = Ret () t \<and> ring t [5, 6, 7, 8]"
proof -
  have "unat (0x8000 div 0x1000 :: u32) = 8" by simp
  then show ?thesis using lru_list_ops [OF ring_ex, of 8 "0x8000" "0x80400000" "0x4000"] by auto
qed

theorem reclaim_clock_witness:
  "\<exists>t. reclaim_loop swst_ex = swap_out 6 0x80401008 t \<and> load32 (mem t) 0x80401004 = 0x500007 \<and> load32 (mem t) 0x8040100C = 0x502027"
proof -
  have "lru_mapped swst_ex [5, 6, 7]" by (simp add: lru_mapped_def lru_ex aligned4_def present_def)
  then show ?thesis using reclaim_clock [OF ring_ex, of 6] by (auto simp: lru_ex)
qed

end
