(* ===== verification/Swapvm.thy ===== *)
theory Swapvm
  imports Swap
begin

text \<open>
  Page tables of the page-replacement tree (\<^verbatim>\<open>vm.c\<close>): the functions that allocate through its \<^verbatim>\<open>kalloc\<close> or know about pages that
  have been swapped out, the page fault handler of its \<^verbatim>\<open>trap.c\<close> and the system calls of its \<^verbatim>\<open>sysfile.c\<close>. A page table entry with \<^verbatim>\<open>PTE_P\<close> clear
  and a nonzero value holds the number of a slot of the swap space in place of the frame. Functions of \<^verbatim>\<open>vm.c\<close> that do not allocate
  (\<^verbatim>\<open>uva2ka\<close>, \<^verbatim>\<open>copyout\<close>, \<^verbatim>\<open>loaduvm\<close>, \<^verbatim>\<open>clearpteu\<close>, \<^verbatim>\<open>switchuvm\<close>) are the same in both trees and are modelled in theory Vm. Loops over pages
  carry fuel for \<open>2^20\<close> passes, as there.
\<close>

section \<open>Walking and mapping\<close>

definition lru_walkpgdir :: "u32 \<Rightarrow> u32 \<Rightarrow> bool \<Rightarrow> 'a swst_scheme \<Rightarrow> (u32, 'a swst_scheme) res" where
  "lru_walkpgdir pgdir va alloc s =
     (let pde = pgdir + 4 * PDX va
      in if load32 (mem s) pde AND PTE_P \<noteq> 0
         then Ret (P2V (PTE_ADDR (load32 (mem s) pde)) + 4 * PTX va) s
         else if \<not> alloc then Ret 0 s
         else kbind (lru_kalloc s) (\<lambda>pgtab s.
           if pgtab = 0 then Ret 0 s
           else let m = memset (mem s) pgtab 0 4096;
                    m = store32 m pde (V2P pgtab OR PTE_P OR PTE_W OR PTE_U)
                in Ret (pgtab + 4 * PTX va) (s\<lparr>mem := m\<rparr>)))"

fun lru_mappages_loop :: "nat \<Rightarrow> u32 \<Rightarrow> u32 \<Rightarrow> u32 \<Rightarrow> u32 \<Rightarrow> u32 \<Rightarrow> 'a swst_scheme \<Rightarrow>
    (int, 'a swst_scheme) res" where
  "lru_mappages_loop 0 pgdir a a_last pa perm s = Fault ''mappages: out of fuel''"
| "lru_mappages_loop (Suc fuel) pgdir a a_last pa perm s =
     kbind (lru_walkpgdir pgdir a True s) (\<lambda>pte s.
       if pte = 0 then Ret (-1) s
       else if load32 (mem s) pte AND PTE_P \<noteq> 0 then Panic ''remap''
       else let s = s\<lparr>mem := store32 (mem s) pte (pa OR perm OR PTE_P)\<rparr>
            in if a = a_last then Ret 0 s
               else lru_mappages_loop fuel pgdir (a + PGSIZE) a_last (pa + PGSIZE) perm s)"

definition lru_mappages :: "u32 \<Rightarrow> u32 \<Rightarrow> u32 \<Rightarrow> u32 \<Rightarrow> u32 \<Rightarrow> 'a swst_scheme \<Rightarrow>
    (int, 'a swst_scheme) res" where
  "lru_mappages pgdir va sz pa perm s =
     lru_mappages_loop npages pgdir (PGROUNDDOWN va) (PGROUNDDOWN (va + sz - 1)) pa perm s"

section \<open>Shrinking\<close>

text \<open>
  The walk of \<^verbatim>\<open>deallocuvm\<close> along the ring, for the page mapped at \<open>a\<close> of \<open>pgdir\<close>. Only \<^verbatim>\<open>pop_lru\<close> changes the state, and it succeeds at most twice for one
  frame (as the head, and as an inner page, whose links it clears), so a walk of more than three times the number of pages goes round for ever.
\<close>

fun lru_forget :: "nat \<Rightarrow> u32 \<Rightarrow> u32 \<Rightarrow> u32 \<Rightarrow> nat option \<Rightarrow> 'a swst_scheme \<Rightarrow> (unit, 'a swst_scheme) res" where
  "lru_forget 0 pgdir a pa target s = Fault ''deallocuvm: endless walk''"
| "lru_forget (Suc fuel) pgdir a pa None s = Ret () s"
| "lru_forget (Suc fuel) pgdir a pa (Some i) s =
     kbind (if pg_vaddr (pages s i) = a \<and> pg_pgdir (pages s i) = pgdir then pop_lru pa s else Ret () s) (\<lambda>_ s.
       if pg_next (pages s i) = page_lru_head s then Ret () s
       else lru_forget fuel pgdir a pa (pg_next (pages s i)) s)"

text \<open>What \<^verbatim>\<open>deallocuvm\<close> does with a nonzero entry. The frame number 0 is its mark of a page that was swapped out.\<close>

definition lru_drop :: "u32 \<Rightarrow> u32 \<Rightarrow> u32 \<Rightarrow> 'a swst_scheme \<Rightarrow> (unit, 'a swst_scheme) res" where
  "lru_drop pgdir a e s =
     (let pa = PTE_ADDR e
      in if pa = 0 then clear_bit_swap (unat (drop_bit 12 pa)) s
         else kbind (lru_forget (4 * NPAGES) pgdir a pa (page_lru_head s) s) (\<lambda>_ s. lru_kfree (P2V pa) s))"

fun lru_deallocuvm_loop :: "nat \<Rightarrow> u32 \<Rightarrow> u32 \<Rightarrow> u32 \<Rightarrow> 'a swst_scheme \<Rightarrow> (unit, 'a swst_scheme) res" where
  "lru_deallocuvm_loop 0 pgdir a oldsz s = Fault ''deallocuvm: out of fuel''"
| "lru_deallocuvm_loop (Suc fuel) pgdir a oldsz s =
     (if \<not> a < oldsz then Ret () s
      else kbind (lru_walkpgdir pgdir a False s) (\<lambda>pte s.
        if pte = 0 then lru_deallocuvm_loop fuel pgdir (PGADDR (PDX a + 1) 0 0 - PGSIZE + PGSIZE) oldsz s
        else if load32 (mem s) pte AND PTE_P \<noteq> 0 \<or> load32 (mem s) pte \<noteq> 0
        then kbind (lru_drop pgdir a (load32 (mem s) pte) s) (\<lambda>_ s.
               lru_deallocuvm_loop fuel pgdir (a + PGSIZE) oldsz (s\<lparr>mem := store32 (mem s) pte 0\<rparr>))
        else lru_deallocuvm_loop fuel pgdir (a + PGSIZE) oldsz s))"

definition lru_deallocuvm :: "u32 \<Rightarrow> u32 \<Rightarrow> u32 \<Rightarrow> 'a swst_scheme \<Rightarrow> (u32, 'a swst_scheme) res" where
  "lru_deallocuvm pgdir oldsz newsz s =
     (if newsz \<ge> oldsz then Ret oldsz s
      else kbind (lru_deallocuvm_loop (Suc npages) pgdir (PGROUNDUP newsz) oldsz s) (\<lambda>_ s. Ret newsz s))"

fun lru_freevm_loop :: "nat \<Rightarrow> u32 \<Rightarrow> u32 \<Rightarrow> 'a swst_scheme \<Rightarrow> (unit, 'a swst_scheme) res" where
  "lru_freevm_loop 0 pgdir i s = Ret () s"
| "lru_freevm_loop (Suc n) pgdir i s =
     (let pde = load32 (mem s) (pgdir + 4 * i)
      in if pde AND PTE_P \<noteq> 0
         then kbind (lru_kfree (P2V (PTE_ADDR pde)) s) (\<lambda>_ s. lru_freevm_loop n pgdir (i + 1) s)
         else lru_freevm_loop n pgdir (i + 1) s)"

definition lru_freevm :: "u32 \<Rightarrow> 'a swst_scheme \<Rightarrow> (unit, 'a swst_scheme) res" where
  "lru_freevm pgdir s =
     (if pgdir = 0 then Panic ''freevm: no pgdir''
      else kbind (lru_deallocuvm pgdir KERNBASE 0 s) (\<lambda>_ s.
           kbind (lru_freevm_loop 1024 pgdir 0 s) (\<lambda>_ s. lru_kfree pgdir s)))"

section \<open>Growing and copying\<close>

fun lru_allocuvm_loop :: "nat \<Rightarrow> u32 \<Rightarrow> u32 \<Rightarrow> u32 \<Rightarrow> u32 \<Rightarrow> 'a swst_scheme \<Rightarrow>
    (u32, 'a swst_scheme) res" where
  "lru_allocuvm_loop 0 pgdir a oldsz newsz s = Fault ''allocuvm: out of fuel''"
| "lru_allocuvm_loop (Suc fuel) pgdir a oldsz newsz s =
     (if \<not> a < newsz then Ret newsz s
      else kbind (lru_kalloc s) (\<lambda>page s.
        if page = 0 then kbind (cprintf (''allocuvm out of memory'' @ [CHR 0x0A]) [] s) (\<lambda>_ s.
                         kbind (lru_deallocuvm pgdir newsz oldsz s) (\<lambda>_ s. Ret 0 s))
        else kbind (lru_mappages pgdir a PGSIZE (V2P page) (PTE_W OR PTE_U)
                      (s\<lparr>mem := memset (mem s) page 0 4096\<rparr>)) (\<lambda>r s.
          if r < 0 then kbind (cprintf (''allocuvm out of memory (2)'' @ [CHR 0x0A]) [] s) (\<lambda>_ s.
                        kbind (lru_deallocuvm pgdir newsz oldsz s) (\<lambda>_ s.
                        kbind (lru_kfree page s) (\<lambda>_ s. Ret 0 s)))
          else lru_allocuvm_loop fuel pgdir (a + PGSIZE) oldsz newsz s)))"

definition lru_allocuvm :: "u32 \<Rightarrow> u32 \<Rightarrow> u32 \<Rightarrow> 'a swst_scheme \<Rightarrow> (u32, 'a swst_scheme) res" where
  "lru_allocuvm pgdir oldsz newsz s =
     (if newsz \<ge> KERNBASE then Ret 0 s
      else if newsz < oldsz then Ret oldsz s
      else lru_allocuvm_loop (Suc npages) pgdir (PGROUNDUP oldsz) oldsz newsz s)"

fun lru_setupkvm_loop :: "kmap list \<Rightarrow> u32 \<Rightarrow> 'a swst_scheme \<Rightarrow> (u32, 'a swst_scheme) res" where
  "lru_setupkvm_loop [] pgdir s = Ret pgdir s"
| "lru_setupkvm_loop ((virt, phys_start, phys_end, perm) # ks) pgdir s =
     kbind (lru_mappages pgdir virt (phys_end - phys_start) phys_start perm s) (\<lambda>r s.
       if r < 0 then kbind (lru_freevm pgdir s) (\<lambda>_ s. Ret 0 s)
       else lru_setupkvm_loop ks pgdir s)"

definition lru_setupkvm :: "'a swst_scheme \<Rightarrow> (u32, 'a swst_scheme) res" where
  "lru_setupkvm s =
     kbind (lru_kalloc s) (\<lambda>pgdir s.
       if pgdir = 0 then Ret 0 s
       else let s = s\<lparr>mem := memset (mem s) pgdir 0 4096\<rparr>
            in if P2V PHYSTOP > DEVSPACE then Panic ''PHYSTOP too high''
               else lru_setupkvm_loop (kmap (kdata s)) pgdir s)"

definition lru_kvmalloc :: "'a swst_scheme \<Rightarrow> (unit, 'a swst_scheme) res" where
  "lru_kvmalloc s = kbind (lru_setupkvm s) (\<lambda>d s. Ret () (switchkvm (s\<lparr>kpgdir := d\<rparr>)))"

definition lru_inituvm :: "u32 \<Rightarrow> u32 \<Rightarrow> u32 \<Rightarrow> 'a swst_scheme \<Rightarrow> (unit, 'a swst_scheme) res" where
  "lru_inituvm pgdir init sz s =
     (if sz \<ge> PGSIZE then Panic ''inituvm: more than a page''
      else kbind (lru_kalloc s) (\<lambda>page s.
        if page = 0 then Fault ''inituvm: null page''
        else kbind (lru_mappages pgdir 0 PGSIZE (V2P page) (PTE_W OR PTE_U)
                      (s\<lparr>mem := memset (mem s) page 0 4096\<rparr>)) (\<lambda>_ s.
             Ret () (s\<lparr>mem := memmove (mem s) page init (unat sz)\<rparr>))))"

text \<open>One pass of \<^verbatim>\<open>copyuvm\<close> with a fresh page that already holds the contents; the result is -1 on the way to the label \<^verbatim>\<open>bad\<close>.\<close>

definition lru_copy_page :: "u32 \<Rightarrow> u32 \<Rightarrow> u32 \<Rightarrow> u32 \<Rightarrow> 'a swst_scheme \<Rightarrow> (int, 'a swst_scheme) res" where
  "lru_copy_page d i page flags s =
     kbind (lru_mappages d i PGSIZE (V2P page) flags s) (\<lambda>r s.
       if r < 0 then kbind (lru_kfree page s) (\<lambda>_ s. Ret (-1) s)
       else kbind (append_lru d i (V2P page) s) (\<lambda>_ s. Ret 0 s))"

fun lru_copyuvm_loop :: "nat \<Rightarrow> u32 \<Rightarrow> u32 \<Rightarrow> u32 \<Rightarrow> u32 \<Rightarrow> 'a swst_scheme \<Rightarrow> (u32, 'a swst_scheme) res" where
  "lru_copyuvm_loop 0 pgdir d sz i s = Fault ''copyuvm: out of fuel''"
| "lru_copyuvm_loop (Suc fuel) pgdir d sz i s =
     (if \<not> i < sz then Ret d s
      else kbind (lru_walkpgdir pgdir i False s) (\<lambda>pte s.
        if pte = 0 then Panic ''copyuvm: pte should exist''
        else let absent = (load32 (mem s) pte AND PTE_P = 0);
                 pa = PTE_ADDR (load32 (mem s) pte);
                 flags = PTE_FLAGS (load32 (mem s) pte)
             in kbind (lru_kalloc s) (\<lambda>page s.
               kbind (if page = 0 then Ret (-1) s
                      else if absent
                      then kbind (swapread page (uint (drop_bit 12 (load32 (mem s) pte))) s) (\<lambda>_ s.
                             lru_copy_page d i page (PTE_FLAGS (load32 (mem s) pte) OR PTE_P) s)
                      else lru_copy_page d i page flags (s\<lparr>mem := memmove (mem s) page (P2V pa) 4096\<rparr>)) (\<lambda>r s.
                 if r < 0 then kbind (lru_freevm d s) (\<lambda>_ s. Ret 0 s)
                 else lru_copyuvm_loop fuel pgdir d sz (i + PGSIZE) s))))"

definition lru_copyuvm :: "u32 \<Rightarrow> u32 \<Rightarrow> 'a swst_scheme \<Rightarrow> (u32, 'a swst_scheme) res" where
  "lru_copyuvm pgdir sz s =
     kbind (lru_setupkvm s) (\<lambda>d s.
       if d = 0 then Ret 0 s else lru_copyuvm_loop (Suc npages) pgdir d sz 0 s)"

section \<open>Page faults and system calls\<close>

text \<open>\<^verbatim>\<open>page_fault_hadler\<close>: the result is nonzero when the faulting instruction is to be restarted.\<close>

definition page_fault_hadler :: "u32 \<Rightarrow> u32 \<Rightarrow> 'a swst_scheme \<Rightarrow> (int, 'a swst_scheme) res" where
  "page_fault_hadler pgdir vaddr s =
     kbind (lru_walkpgdir pgdir (PGROUNDDOWN vaddr) False s) (\<lambda>pte s.
       if pte = 0 then Fault ''page_fault_hadler: null pte''
       else if load32 (mem s) pte = 0 then Ret 0 s
       else kbind (lru_kalloc s) (\<lambda>page s.
         if page = 0 then kbind (cprintf (''Out of Memory'' @ [CHR 0x0A]) [] s) (\<lambda>_ s. Ret 0 s)
         else let k = drop_bit 12 (load32 (mem s) pte)
         in kbind (swapread page (uint k) s) (\<lambda>_ s.
            kbind (clear_bit_swap (unat k) s) (\<lambda>_ s.
            kbind (flush (s\<lparr>mem := store32 (mem s) pte (V2P page OR PTE_FLAGS (load32 (mem s) pte) OR PTE_P)\<rparr>)) (\<lambda>_ s. Ret 1 s)))))"

definition sys_swapread :: "'a swst_scheme \<Rightarrow> (int, 'a swst_scheme) res" where
  "sys_swapread s =
     kbind (argptr 0 4096 s) (\<lambda>p s. case p of None \<Rightarrow> Ret (-1) s | Some p \<Rightarrow>
     kbind (argint 1 s) (\<lambda>k s. case k of None \<Rightarrow> Ret (-1) s | Some k \<Rightarrow>
     kbind (swapread p (sint k) s) (\<lambda>_ s. Ret 0 s)))"

definition sys_swapwrite :: "'a swst_scheme \<Rightarrow> (int, 'a swst_scheme) res" where
  "sys_swapwrite s =
     kbind (argptr 0 4096 s) (\<lambda>p s. case p of None \<Rightarrow> Ret (-1) s | Some p \<Rightarrow>
     kbind (argint 1 s) (\<lambda>k s. case k of None \<Rightarrow> Ret (-1) s | Some k \<Rightarrow>
     kbind (swapwrite p (sint k) s) (\<lambda>_ s. Ret 0 s)))"

definition sys_swapstat :: "'a swst_scheme \<Rightarrow> (int, 'a swst_scheme) res" where
  "sys_swapstat s =
     kbind (argptr 0 4 s) (\<lambda>p s. case p of None \<Rightarrow> Ret (-1) s | Some p \<Rightarrow>
     kbind (argptr 1 4 s) (\<lambda>q s. case q of None \<Rightarrow> Ret (-1) s | Some q \<Rightarrow>
     kbind (user_store p (bytes32 (word_of_int (nr_sectors_read s))) s) (\<lambda>_ s.
     kbind (user_store q (bytes32 (word_of_int (nr_sectors_write s))) s) (\<lambda>_ s. Ret 0 s))))"

section \<open>The list of pages after boot\<close>

text \<open>The head is null and the counter 0, as the kernel starts. No allocation changes that.\<close>

definition no_lru :: "'a swst_scheme \<Rightarrow> bool" where
  "no_lru s \<longleftrightarrow> page_lru_head s = None \<and> num_lru_pages s = 0"

lemma no_lru_simps [simp]:
  "no_lru (s\<lparr>held := h\<rparr>) = no_lru s" "no_lru (s\<lparr>mem := m\<rparr>) = no_lru s" "no_lru (s\<lparr>freelist := f\<rparr>) = no_lru s"
  "no_lru (s\<lparr>nr_sectors_read := r\<rparr>) = no_lru s" "no_lru (s\<lparr>con_out := x1\<rparr>) = no_lru s" "no_lru (s\<lparr>cga_pos := x2, crt := x3\<rparr>) = no_lru s"
  "no_lru (s\<lparr>procs := x4\<rparr>) = no_lru s" "no_lru (s\<lparr>slocks := x5\<rparr>) = no_lru s" "no_lru (s\<lparr>bufs := x6\<rparr>) = no_lru s"
  "no_lru (s\<lparr>idequeue := x7\<rparr>) = no_lru s" "no_lru (s\<lparr>ide_cmd := x8\<rparr>) = no_lru s" "no_lru (s\<lparr>ide_errs := x9\<rparr>) = no_lru s"
  "no_lru (s\<lparr>disk := x10, dwrites := x11\<rparr>) = no_lru s" "no_lru (updb b g s) = no_lru s"
  by (simp_all add: no_lru_def updb_def)

lemma no_lru_cprintf: "no_lru s \<Longrightarrow> on_ret no_lru (cprintf fmt args s)"
proof -
  assume s: "no_lru s"
  have c: "no_lru u \<Longrightarrow> on_ret no_lru (consputc c u)" for c and u :: "'a swst_scheme"
    by (simp add: consputc_def cgaputc_def Let_def split: prod.splits)
  have p: "no_lru u \<Longrightarrow> on_ret no_lru (consputs cs u)" for cs and u :: "'a swst_scheme"
  proof (induction cs arbitrary: u)
    case (Cons c cs)
    show ?case unfolding consputs.simps by (rule on_ret_kbind [OF c [OF Cons.prems]]) (rule Cons.IH)
  qed simp
  have "on_ret no_lru (kbind (lock_acquire LCons s) (\<lambda>_ s. kbind (consputs out s) (\<lambda>_ s. lock_release LCons s)))" for out
    by (rule on_ret_kbind [where P = no_lru], simp add: lock_acquire_def s, rule on_ret_kbind [OF p]) (auto simp: lock_release_def)
  then show ?thesis using p s unfolding cprintf_def by (auto split: option.splits)
qed

lemma no_lru_locks: "no_lru s \<Longrightarrow> on_ret no_lru (lock_acquire l s)" "no_lru s \<Longrightarrow> on_ret no_lru (lock_release l s)"
  "no_lru s \<Longrightarrow> on_ret no_lru (kmem_acquire s)" "no_lru s \<Longrightarrow> on_ret no_lru (kmem_release s)"
  by (auto simp: kmem_acquire_def kmem_release_def lock_acquire_def lock_release_def)

lemma no_lru_reclaim:
  assumes "no_lru s"
  shows "on_ret no_lru (reclaim s)"
  unfolding reclaim_def
proof (rule on_ret_kbind [OF no_lru_cprintf [OF assms]], rule on_ret_kbind [OF no_lru_locks(1)], goal_cases)
  case (2 a u b v)
  have "on_ret no_lru (kbind (cprintf (''Out of Memory'' @ [CHR 0x0A]) [] v) (\<lambda>_ s. kbind (lock_release LLru s) (\<lambda>_ s. Ret 0 s)))"
    by (rule on_ret_kbind [OF no_lru_cprintf [OF 2(4)]], rule on_ret_kbind [OF no_lru_locks(2)]) simp_all
  then show ?case using 2(4) by (simp add: no_lru_def)
qed

lemma no_lru_kalloc:
  assumes "no_lru s"
  shows "on_ret no_lru (lru_kalloc s)"
proof (subst lru_kalloc.simps, rule on_ret_kbind [OF no_lru_locks(3) [OF assms]], goal_cases)
  case (1 a u)
  have "on_ret no_lru (kbind (reclaim u) (\<lambda>c s. if c \<noteq> 0 then lru_kalloc s else kbind (kmem_release s) (\<lambda>_ s. Ret 0 s)))"
    by (rule on_ret_kbind [OF no_lru_reclaim [OF 1(2)]]) (use reclaim_0 [of u] in \<open>auto intro!: on_ret_kbind [OF no_lru_locks(4)]\<close>)
  moreover have "on_ret no_lru (kbind (kmem_release (u\<lparr>freelist := load32 (mem u) (freelist u)\<rparr>)) (\<lambda>_ s. Ret (freelist u) s))"
    by (rule on_ret_kbind [OF no_lru_locks(4)]) (use 1 in simp_all)
  ultimately show ?case by (simp add: Let_def)
qed

lemma no_lru_walkpgdir: "no_lru s \<Longrightarrow> on_ret no_lru (lru_walkpgdir pgdir va al s)"
  unfolding lru_walkpgdir_def Let_def by (auto intro!: on_ret_kbind [OF no_lru_kalloc])

lemma no_lru_mappages: "no_lru s \<Longrightarrow> on_ret no_lru (lru_mappages pgdir va sz pa perm s)"
proof -
  have "no_lru s \<Longrightarrow> on_ret no_lru (lru_mappages_loop n pgdir a b pa perm s)" for n a b pa
  proof (induction n arbitrary: a pa s)
    case (Suc n)
    show ?case unfolding lru_mappages_loop.simps
      by (rule on_ret_kbind [OF no_lru_walkpgdir [OF Suc.prems]]) (auto simp: Let_def intro!: Suc.IH)
  qed simp
  then show "no_lru s \<Longrightarrow> ?thesis" by (simp add: lru_mappages_def)
qed

text \<open>A new page table comes with the list as it was, unless it is refused.\<close>

lemma no_lru_setupkvm:
  assumes "no_lru s" "lru_setupkvm s = Ret d t" "d \<noteq> 0"
  shows "no_lru t"
proof -
  have l: "no_lru s \<Longrightarrow> lru_setupkvm_loop ks p s = Ret d t \<Longrightarrow> no_lru t" for ks p s
  proof (induction ks p s rule: lru_setupkvm_loop.induct)
    case (2 virt ps pe perm ks p s)
    obtain r u where r: "lru_mappages p virt (pe - ps) ps perm s = Ret r u" using 2(3) by (auto simp: kres)
    then have u: "no_lru u" using on_retD [OF no_lru_mappages [OF 2(2)]] by blast
    have "\<not> r < 0" using 2(3) assms(3) r by (auto simp: kres)
    then show ?case using 2(1) [OF r _ u] 2(3) r by simp
  qed simp
  obtain p u where p: "lru_kalloc s = Ret p u" using assms(2) by (auto simp: lru_setupkvm_def kres)
  then have "no_lru u" using on_retD [OF no_lru_kalloc [OF assms(1)]] by blast
  then show ?thesis using assms(2,3) p l [of "u\<lparr>mem := memset (mem u) p 0 4096\<rparr>"]
    by (auto simp: lru_setupkvm_def Let_def split: if_splits)
qed

lemma no_lru_wakeup: "no_lru s \<Longrightarrow> on_ret no_lru (wakeup c s)"
  by (rule on_retI) (auto simp: wakeup_def wakeup1_def Let_def kres dest!: lock_RetD split: if_splits)

lemma no_lru_acquiresleep: "no_lru s \<Longrightarrow> on_ret no_lru (acquiresleep k s)"
  unfolding acquiresleep_def acquiresleep_loop_def
  by (rule on_ret_kbind [OF no_lru_locks(1)])
    (auto intro!: on_ret_mono [OF sleep_never] on_ret_mono [OF on_ret_locks(2)] split: option.splits)

lemma no_lru_idestart: "no_lru s \<Longrightarrow> on_ret no_lru (idestart b s)"
  by (simp add: idestart_def split: option.splits)

lemma no_lru_ideintr:
  assumes "no_lru s"
  shows "on_ret no_lru (ideintr (drive_done s))"
proof -
  have d: "no_lru (drive_done s)" using assms by (simp add: drive_done_def split: option.splits)
  have i: "no_lru (ide_insl b u) = no_lru u" for b and u :: "'a swst_scheme"
    by (simp add: ide_insl_def Let_def split: option.splits)
  show ?thesis unfolding ideintr_def Let_def
    by (rule on_ret_kbind [OF no_lru_locks(1) [OF d]])
      (auto simp: i intro!: on_ret_kbind [OF no_lru_wakeup] on_ret_kbind [where P = no_lru and f = "\<lambda>_ s. lock_release LIde s"]
        no_lru_idestart no_lru_locks(2) split: option.splits)
qed

lemma no_lru_iderw: "no_lru s \<Longrightarrow> on_ret no_lru (iderw b s)"
proof -
  have w: "no_lru u \<Longrightarrow> on_ret no_lru (iderw_wait n b u)" for n and u :: "'a swst_scheme"
  proof (induction n arbitrary: u)
    case (Suc n)
    show ?case
      by (subst iderw_wait.simps)
        (auto intro!: on_ret_kbind [OF no_lru_locks(2) [OF Suc.prems]] on_ret_kbind [OF no_lru_ideintr] on_ret_kbind [OF no_lru_locks(1)] Suc.IH Suc.prems)
  qed (simp add: iderw_wait.simps)
  have a: "no_lru u \<Longrightarrow> on_ret no_lru (ide_append b u)" for u :: "'a swst_scheme"
    by (simp add: ide_append_def Let_def split: option.splits)
  have g: "no_lru s \<Longrightarrow> on_ret no_lru (iderw_begin b s)"
    unfolding iderw_begin_def
    by (rule on_ret_kbind [OF holdingsleep_same])
      (auto intro!: on_ret_kbind [OF no_lru_locks(1)] on_ret_kbind [OF a] no_lru_idestart)
  show "no_lru s \<Longrightarrow> ?thesis" unfolding iderw_def
    by (rule on_ret_kbind [OF g], assumption, rule on_ret_kbind [OF w], assumption) (rule no_lru_locks(2))
qed

lemma no_lru_bread: "no_lru s \<Longrightarrow> on_ret no_lru (bread d n s)"
proof -
  have a: "no_lru u \<Longrightarrow> on_ret no_lru (kbind (lock_release LBcache (updb b f u)) (\<lambda>_ s. kbind (acquiresleep (SlBuf b) s) (\<lambda>_ s. Ret b s)))"
    for b f and u :: "'a swst_scheme"
    by (rule on_ret_kbind [OF no_lru_locks(2)], simp, rule on_ret_kbind [OF no_lru_acquiresleep]) simp_all
  have g: "no_lru s \<Longrightarrow> on_ret no_lru (bget d n s)" unfolding bget_def
    by (rule on_ret_kbind [OF no_lru_locks(1)]) (auto intro!: a split: option.splits)
  show "no_lru s \<Longrightarrow> ?thesis" unfolding bread_def
    by (rule on_ret_kbind [OF g]) (auto intro!: on_ret_kbind [OF no_lru_iderw])
qed

lemma no_lru_brelse: "no_lru s \<Longrightarrow> on_ret no_lru (brelse b s)"
proof -
  have r: "no_lru u \<Longrightarrow> on_ret no_lru (releasesleep k u)" for k and u :: "'a swst_scheme"
    unfolding releasesleep_def
    by (rule on_ret_kbind [OF no_lru_locks(1)], assumption, rule on_ret_kbind [OF no_lru_wakeup], simp) (rule no_lru_locks(2))
  have l: "no_lru (blink b (bunlink b u)) = no_lru u" for u :: "'a swst_scheme" by (simp add: blink_def bunlink_def Let_def)
  show "no_lru s \<Longrightarrow> ?thesis" unfolding brelse_def Let_def
    by (rule on_ret_kbind [OF holdingsleep_same])
      (auto simp: l intro!: on_ret_kbind [OF r] on_ret_kbind [OF no_lru_locks(1)] no_lru_locks(2))
qed

lemma no_lru_vstore: "no_lru s \<Longrightarrow> on_ret no_lru (vstore a xs s)"
proof -
  have "no_lru u \<Longrightarrow> on_ret no_lru (user_store a xs u)" for a xs and u :: "'a swst_scheme"
    by (induction xs arbitrary: a u) (auto simp: Let_def)
  then show "no_lru s \<Longrightarrow> ?thesis" by (simp add: vstore_def)
qed

lemma no_lru_swapread: "no_lru s \<Longrightarrow> on_ret no_lru (swapread p k s)"
proof -
  define f where "f = (\<lambda>i (s :: 'a swst_scheme). kbind (bread 0 (swap_block k i) (s\<lparr>nr_sectors_read := nr_sectors_read s + 1\<rparr>)) (\<lambda>b s.
        kbind (vstore (p + of_nat (i * 512)) (b_data (bufs s ! b)) s) (\<lambda>_ s. brelse b s)))"
  have "no_lru u \<Longrightarrow> on_ret no_lru (f i u)" for i u unfolding f_def
    by (rule on_ret_kbind [OF no_lru_bread], simp, rule on_ret_kbind [OF no_lru_vstore], assumption) (rule no_lru_brelse)
  note f = this
  have "no_lru u \<Longrightarrow> on_ret no_lru (kfor f is u)" for "is" u
  proof (induction "is" arbitrary: u)
    case (Cons i "is")
    show ?case unfolding kfor.simps by (rule on_ret_kbind [OF f [OF Cons.prems]], rule Cons.IH)
  qed simp
  then show "no_lru s \<Longrightarrow> ?thesis" unfolding swapread_def f_def [symmetric] by simp
qed


text \<open>
  What \<^verbatim>\<open>page_fault_hadler\<close> does with the entry of the faulting address. No page table: the null entry is dereferenced. Entry 0: the fault is not handled.
  Otherwise the frame number is taken for a slot of the swap space without a look at \<^verbatim>\<open>PTE_P\<close>: with a free page at hand, a frame number
  from 12437 on stops the machine, also when the page is present and the fault is a violation of its protection, so that any process can stop the machine by touching
  an address of the kernel.
\<close>

lemma page_fault_entries:
  assumes "freelist s \<noteq> 0" "LKmem \<notin> set (held s)"
  shows "let pde = load32 (mem s) (pgdir + 4 * PDX (PGROUNDDOWN va));
             pte = P2V (PTE_ADDR pde) + 4 * PTX (PGROUNDDOWN va);
             e = load32 (mem s) pte
         in if pde AND PTE_P = 0 \<or> pte = 0 then page_fault_hadler pgdir va s = Fault ''page_fault_hadler: null pte''
            else if e = 0 then page_fault_hadler pgdir va s = Ret 0 s
            else 12437 \<le> drop_bit 12 e \<longrightarrow> page_fault_hadler pgdir va s = Panic ''swapread: blkno exceeded range''"
proof -
  define pde where "pde = load32 (mem s) (pgdir + 4 * PDX (PGROUNDDOWN va))"
  define pte where "pte = P2V (PTE_ADDR pde) + 4 * PTX (PGROUNDDOWN va)"
  have w: "lru_walkpgdir pgdir (PGROUNDDOWN va) False s = Ret (if pde AND PTE_P = 0 then 0 else pte) s"
    by (simp add: lru_walkpgdir_def pde_def pte_def Let_def)
  have "\<exists>t. lru_kalloc s = Ret (freelist s) t \<and> mem t = mem s"
    using assms by (subst lru_kalloc.simps) (auto simp: kmem_acquire_def kmem_release_def Let_def)
  then obtain t where k: "lru_kalloc s = Ret (freelist s) t" "mem t = mem s" by blast
  have "page_fault_hadler pgdir va s = Panic ''swapread: blkno exceeded range''"
    if "pde AND PTE_P \<noteq> 0" "pte \<noteq> 0" "load32 (mem s) pte \<noteq> 0" "12437 \<le> drop_bit 12 (load32 (mem s) pte)"
  proof -
    have "\<not> uint (drop_bit 12 (load32 (mem s) pte)) < 12437" using that(4) by (simp add: word_le_def del: uint_nat)
    then show ?thesis using w that k assms(1) by (simp add: page_fault_hadler_def Let_def swapread_def not_less)
  qed
  then show ?thesis using w by (auto simp: page_fault_hadler_def Let_def pde_def [symmetric] pte_def [symmetric])
qed


end
