(* ===== verification/Spec2Isabelle.thy ===== *)
theory Spec2Isabelle
  imports Console Shell Swapvm
begin

text \<open>
  This library models the xv6 kernel of this repository and proves properties of it. The repository holds two trees: \<^verbatim>\<open>Implement Virtual
  Memory and CPU Scheduling\<close> (here the first tree), xv6 with a fair scheduler on virtual run times, \<^verbatim>\<open>nice\<close> values, memory mappings and a
  counter of free pages, and \<^verbatim>\<open>page-replacement\<close> (the second tree), xv6 with a swap space and a clock algorithm for page replacement.

  \<^bold>\<open>How the kernel is modelled.\<close> The kernel state is one record that each component extends by its own variables: locks held
  (\<open>kcpu\<close>), memory and allocator (\<open>kmem\<close>), page tables and registers (\<open>vmst\<close>), console (\<open>const\<close>), process table (\<open>ptab\<close>), sleep locks (\<open>slst\<close>),
  disk and buffer cache (\<open>idest\<close>), log (\<open>lgst\<close>), file system (\<open>fsst\<close>), open files (\<open>filst\<close>), mappings (\<open>mmst\<close>), first run of \<^verbatim>\<open>forkret\<close> (\<open>trst\<close>) and, beside
  them, the swap space of the second tree (\<open>swst\<close>, an extension of \<open>idest\<close>). An operation takes its arguments and the state and yields an outcome
  (\<open>res\<close> in theory Prelude): it returns a value and a state, suspends the thread on a wait channel (\<open>Sleep\<close>), stops the machine (\<open>Panic\<close>, with the message of the
  code) or runs into undefined behaviour such as a null dereference (\<open>Fault\<close>). Where a thread goes on after \<open>Sleep\<close>, the rest of its code is a definition of
  its own with the suffix \<open>_resume\<close>. Physical memory is one map from 32-bit kernel addresses to bytes, so page tables, the free list and trap frames
  are bytes in it. Objects that the code only compares and dereferences (processes, buffers, inodes, files) are indexes into their tables.
  C integers are words of their width, \<^verbatim>\<open>int\<close> is read by \<open>sint\<close> where it can be negative or overflow.

  \<^bold>\<open>The theories, in the order of their imports.\<close>
  \<^item> Prelude: words, wait channels, spin lock names, outcomes and their composition \<open>kbind\<close>, lemmas on words and lists. Memory (\<^verbatim>\<open>string.c\<close>, \<^verbatim>\<open>x86.h\<close>):
    loads and stores of words, \<^verbatim>\<open>memset\<close>, \<^verbatim>\<open>memmove\<close> and the string routines. Mmu (\<^verbatim>\<open>mmu.h\<close>, \<^verbatim>\<open>memlayout.h\<close>): address arithmetic.
  \<^item> Spinlock (\<^verbatim>\<open>spinlock.c\<close>): the lock code store by store, with a step relation for any number of CPUs, its invariant, and the single-threaded operations
    \<open>lock_acquire\<close> and \<open>lock_release\<close> that it implements and that all later theories use.
  \<^item> Kalloc (\<^verbatim>\<open>kalloc.c\<close>): the allocator; the locale \<open>page_allocator\<close> is its contract. Vm (\<^verbatim>\<open>vm.c\<close>): the definitions of page tables and address spaces;
    Pagetable, Uservm and Umem prove what mapping, growing, shrinking, freeing and copying out do, over the invariants \<open>pgdir_ok\<close>, \<open>vm_ok\<close> and \<open>uvm_ok\<close>.
  \<^item> Print (\<^verbatim>\<open>console.c\<close>, output), Proc (\<^verbatim>\<open>proc.c\<close>: table, scheduler, sleep and wakeup, wait, kill, nice, listings) and Sched (the invariant \<open>ptab_ok\<close>, its preservation by every step of
    the process table, and what scheduling, waking and killing do). Sleeplock (\<^verbatim>\<open>sleeplock.c\<close>).
  \<^item> Ide (\<^verbatim>\<open>ide.c\<close>): the queue of requests and the drive. Bio (\<^verbatim>\<open>bio.c\<close>): the buffer cache as a list, most recently used first, and as a map from
    blocks to contents; the locale \<open>block_cache\<close> is its contract. Log (\<^verbatim>\<open>log.c\<close>): transactions; the locale \<open>logged_cache\<close> extends it. Fs (\<^verbatim>\<open>fs.c\<close>): block
    allocation, inodes, directories, paths.
  \<^item> Pipe (\<^verbatim>\<open>file.c\<close>, \<^verbatim>\<open>pipe.c\<close>): open files and pipes; the locale \<open>byte_queue\<close> is the contract of the ring buffer. Mmap (\<^verbatim>\<open>vm.c\<close>, mapped areas).
    Fork (\<^verbatim>\<open>userinit\<close>, \<^verbatim>\<open>fork\<close>, \<^verbatim>\<open>exit\<close>). Exec (\<^verbatim>\<open>exec.c\<close>, argument access of \<^verbatim>\<open>syscall.c\<close>). Sysfile (\<^verbatim>\<open>sysfile.c\<close>). Trap (\<^verbatim>\<open>sysproc.c\<close>,
    \<^verbatim>\<open>syscall.c\<close>, \<^verbatim>\<open>trap.c\<close>): dispatch, interrupt gates, the clock tick and preemption.
  \<^item> Console (\<^verbatim>\<open>console.c\<close>, input, and \<^verbatim>\<open>kbd.c\<close>): scan codes, the line editor on the ring buffer, reads and writes of the console.
  \<^item> Swap (\<^verbatim>\<open>page-replacement/kalloc.c\<close>, \<^verbatim>\<open>swapread\<close> and \<^verbatim>\<open>swapwrite\<close> of its \<^verbatim>\<open>fs.c\<close>): the bitmap of the swap space, the ring of pages, the clock algorithm, the allocator
    that calls it. Swapvm (\<^verbatim>\<open>page-replacement/vm.c\<close>, the page fault handler and the swap calls).

  \<^item> Shell (\<^verbatim>\<open>sh.c\<close>, a user program): the parser on pointers into the command line, and what \<^verbatim>\<open>runcmd\<close> makes the processes of a command do. It builds on Prelude only.

  \<^bold>\<open>What the theorems show.\<close> Mutual exclusion of spin locks under every interleaving and the refinement of the single-threaded view. The allocator never hands out a page twice;
  \<^verbatim>\<open>mappages\<close>, \<^verbatim>\<open>allocuvm\<close>, \<^verbatim>\<open>deallocuvm\<close>, \<^verbatim>\<open>freevm\<close>, \<^verbatim>\<open>copyout\<close> change exactly the entries and bytes they should, failures included. The process table
  keeps its invariant through every operation; the scheduler picks the least virtual run time; a clock tick charges and preempts as documented there. The disk queue is served first come,
  first served; the cache is a least-recently-used list and reads what was written; a commit is all or nothing at every crash point of its disk writes. Allocation of
  blocks, inode update and load, file reading and path lookup agree with their specifications. Pipes are bounded first-in-first-out queues. The console's
  ring buffer is a line editor in front of a queue of finished lines, and a read takes one line. Page faults, \<^verbatim>\<open>mmap\<close>, \<^verbatim>\<open>fork\<close>
  and \<^verbatim>\<open>exit\<close> do what they promise or fail as stated, and arguments of system calls are checked against the size of the process. For the second tree: the ring operations as list
  operations, the choice and termination of the clock, and the ways in which the tree's code fails (no page can be swapped out; \<^verbatim>\<open>fork\<close> dereferences a null list head;
  protection faults are taken for swap-ins).

  The shell's parser ends on every line, reads back every command that is written down, and \<^verbatim>\<open>runcmd\<close> connects the programs as the command says and leaves no pipe end open.

  \<^bold>\<open>Bounds and fuel.\<close> Loops over the pages of an address space carry fuel for \<open>2^20\<close> passes, the number of pages that 32-bit addresses have; the lemmas of Pagetable and Uservm show that it is
  enough for the page tables in the invariant. Walks along linked lists of buffers carry the number of buffers, and a longer walk means a cycle. The wait of \<^verbatim>\<open>iderw\<close> carries the number of
  buffers, which bounds the queue; \<open>iderw_wait_Ret\<close> shows that it suffices. The walk of the second tree's \<^verbatim>\<open>deallocuvm\<close> along the ring carries four times the number of pages.
  The shell's parser carries four units a character, and \<open>parse_parsed\<close> shows that they suffice.
  Running out of fuel is a \<open>Fault\<close> (in Shell \<open>NoFuel\<close>), so a theorem that an operation returns shows that the fuel was enough. All other loops are total functions with their own measure;
  the loop of \<^verbatim>\<open>reclaim\<close> ends on every state because each pass clears an accessed bit.

  \<^bold>\<open>Code outside the model is an argument.\<close> The device table \<^verbatim>\<open>devsw\<close> (\<open>devread\<close>, \<open>devwrite\<close>), the interrupt routines of the keyboard and the serial line and the addresses that the linker assigns
  are parameters of the definitions that use them.

  \<^bold>\<open>Concurrency.\<close> Above theory Spinlock an operation runs in one thread up to its end or its next \<open>Sleep\<close>. In \<^verbatim>\<open>iderw\<close> the wait for the disk is
  modelled by the interrupts that end it. Device interrupts at other points and races between CPUs outside the lock code are not modelled.

  \<^bold>\<open>Not modelled.\<close> Boot code, \<^verbatim>\<open>main.c\<close> and assembly files; \<^verbatim>\<open>lapic.c\<close>, \<^verbatim>\<open>ioapic.c\<close>, \<^verbatim>\<open>picirq.c\<close>, \<^verbatim>\<open>mp.c\<close> and \<^verbatim>\<open>uart.c\<close> (device registers);
  \<^verbatim>\<open>memide.c\<close> (an alternative to \<^verbatim>\<open>ide.c\<close>); \<^verbatim>\<open>seginit\<close>, \<^verbatim>\<open>idtinit\<close>, \<^verbatim>\<open>ideinit\<close> (descriptor tables and ports); the user programs other than the shell, their library (\<^verbatim>\<open>malloc\<close> never fails in the model of the shell) and \<^verbatim>\<open>mkfs.c\<close>;
  the process table, traps and file calls of the second tree where they are the original of the code that the first tree extends.
\<close>

end
